(* ===== verification/Prelude.thy ===== *)
theory Prelude
  imports Main "HOL-Library.Word"
begin

text \<open>
  Shared ground of the muKern development: the machine types of
  \<^verbatim>\<open>include/types.h\<close>, the C conversions between 64-bit registers and
  32-bit \<open>int\<close>s, the page arithmetic of \<^verbatim>\<open>types.h\<close>, first-fit search
  over an index range (the shape of every table scan of the kernel), and generic lemmas.
\<close>

unbundle bit_operations_syntax

named_theorems frame_simps \<open>what an operation leaves unchanged\<close>

type_synonym u8 = "8 word"
type_synonym u16 = "16 word"
type_synonym u32 = "32 word"
type_synonym u64 = "64 word"

section \<open>C conversions\<close>

text \<open>\<open>(int)x\<close> of a 64-bit register: keep the low 32 bits, read them as two's complement.\<close>

definition c_int :: "u64 \<Rightarrow> int" where
  "c_int w = sint (ucast w :: u32)"

text \<open>\<open>(uint64_t)(int64_t)r\<close> of an \<open>int\<close>: sign extension.\<close>

definition c_ret :: "int \<Rightarrow> u64" where
  "c_ret r = word_of_int r"

text \<open>\<open>(uint64_t)-1\<close>, the error value of every system call.\<close>

abbreviation ERR :: u64 where
  "ERR \<equiv> - 1"

lemma c_ret_simps [simp]:
  "c_ret 0 = 0" "c_ret (- 1) = ERR" "c_ret (int n) = of_nat n"
  by (simp_all add: c_ret_def)

lemma c_int_of_nat: "n < 2 ^ 31 \<Longrightarrow> c_int (of_nat n) = int n"
proof -
  assume n: "n < 2 ^ 31"
  have "uint (ucast (of_nat n :: u64) :: u32) = int n"
    using n by (simp add: unsigned_ucast_eq unsigned_of_nat take_bit_nat_eq_self of_nat_take_bit [symmetric])
  then show ?thesis
    using n by (simp add: c_int_def sint_uint signed_take_bit_int_eq_self)
qed

section \<open>Pages\<close>

abbreviation PAGE_SIZE :: u64 where
  "PAGE_SIZE \<equiv> 4096"

abbreviation PAGE_SHIFT :: nat where
  "PAGE_SHIFT \<equiv> 12"

abbreviation PAGE_MASK :: u64 where
  "PAGE_MASK \<equiv> PAGE_SIZE - 1"

definition page_align_down :: "u64 \<Rightarrow> u64" where
  "page_align_down x = x AND NOT PAGE_MASK"

definition page_align_up :: "u64 \<Rightarrow> u64" where
  "page_align_up x = (x + PAGE_MASK) AND NOT PAGE_MASK"

section \<open>First fit: a loop that stops at the first index with a property\<close>

definition first_fit :: "(nat \<Rightarrow> bool) \<Rightarrow> nat \<Rightarrow> nat option" where
  "first_fit P n = find P [0..<n]"

lemma first_fit_Some_iff:
  "first_fit P n = Some i \<longleftrightarrow> i < n \<and> P i \<and> (\<forall>j<i. \<not> P j)"
  unfolding first_fit_def find_Some_iff
  by (force simp: nth_upt)

lemma first_fit_None_iff: "first_fit P n = None \<longleftrightarrow> (\<forall>i<n. \<not> P i)"
  by (auto simp: first_fit_def find_None_iff)

lemma first_fit_SomeD:
  "first_fit P n = Some i \<Longrightarrow> i < n"
  "first_fit P n = Some i \<Longrightarrow> P i"
  by (simp_all add: first_fit_Some_iff)

lemma first_fit_cong:
  "(\<And>i. i < n \<Longrightarrow> P i = Q i) \<Longrightarrow> first_fit P n = first_fit Q n"
  unfolding first_fit_def by (rule find_cong) auto

lemma first_fit_ex: "(\<exists>i. first_fit P n = Some i) \<longleftrightarrow> (\<exists>i<n. P i)"
  by (metis first_fit_None_iff first_fit_SomeD not_None_eq)

section \<open>Splitting an address into page and offset\<close>

lemma page_offset_unique:
  fixes a b x y n :: nat
  assumes "a mod n = 0" "b mod n = 0" "x < n" "y < n" "a + x = b + y"
  shows "a = b \<and> x = y"
proof -
  have "x = (a + x) mod n" using assms(1,3) by (simp add: mod_add_eq [symmetric])
  also have "\<dots> = (b + y) mod n" by (simp only: assms(5))
  also have "\<dots> = y" using assms(2,4) by (simp add: mod_add_eq [symmetric])
  finally show ?thesis using assms(5) by simp
qed

end
