(* ===== verification/Kobj.thy ===== *)
theory Kobj
  imports Prelude
begin

text \<open>
  The kernel's data, as the headers declare it: \<^verbatim>\<open>struct ipc_msg\<close>
  (\<^verbatim>\<open>include/ipc.h\<close>), \<^verbatim>\<open>struct cap\<close>
  (\<^verbatim>\<open>include/cap.h\<close>), \<^verbatim>\<open>struct trapframe\<close>
  (\<^verbatim>\<open>arch/x86_64/trap/idt.h\<close>) and \<^verbatim>\<open>struct thread\<close>
  (\<^verbatim>\<open>include/sched.h\<close>).  A C array inside a structure is a function from
  indices; every operation stays within the array's bound.
\<close>

section \<open>Messages\<close>

record ipc_msg =
  m_label :: u64
  m_data0 :: u64
  m_data1 :: u64
  m_cap :: u64

text \<open>A designated initialiser that names some fields zeroes the others.\<close>

definition zero_msg :: ipc_msg where
  "zero_msg = \<lparr>m_label = 0, m_data0 = 0, m_data1 = 0, m_cap = 0\<rparr>"

abbreviation MSG_READY :: u64 where "MSG_READY \<equiv> 1"
abbreviation MSG_SPAWN :: u64 where "MSG_SPAWN \<equiv> 2"
abbreviation MSG_REPLY :: u64 where "MSG_REPLY \<equiv> 3"
abbreviation MSG_FAULT :: u64 where "MSG_FAULT \<equiv> 4"
abbreviation MSG_WRITE :: u64 where "MSG_WRITE \<equiv> 10"
abbreviation MSG_BREAD :: u64 where "MSG_BREAD \<equiv> 11"
abbreviation MSG_OPEN :: u64 where "MSG_OPEN \<equiv> 12"
abbreviation MSG_FREAD :: u64 where "MSG_FREAD \<equiv> 13"
abbreviation MSG_READLINE :: u64 where "MSG_READLINE \<equiv> 14"
abbreviation MSG_LIST :: u64 where "MSG_LIST \<equiv> 15"
abbreviation MSG_CLOSE :: u64 where "MSG_CLOSE \<equiv> 16"
abbreviation MSG_IRQ :: u64 where "MSG_IRQ \<equiv> 20"

abbreviation IPC_ANY :: int where "IPC_ANY \<equiv> - 1"
abbreviation IPC_IRQ_SENDER :: int where "IPC_IRQ_SENDER \<equiv> - 2"

datatype ipc_state = IPC_NONE | IPC_SENDING | IPC_RECEIVING

section \<open>Capabilities\<close>

abbreviation CAP_MAX :: nat where "CAP_MAX \<equiv> 16"

datatype cap_type = CAP_NULL | CAP_ENDPOINT | CAP_IOPORT

abbreviation CAP_RIGHT_SEND :: u32 where "CAP_RIGHT_SEND \<equiv> 1"

record cap =
  cap_type :: cap_type
  cap_target :: int
  cap_rights :: u32
  io_base :: u16
  io_len :: u16

section \<open>Trap frames\<close>

record trapframe =
  r15 :: u64  r14 :: u64  r13 :: u64  r12 :: u64
  r11 :: u64  r10 :: u64  r9 :: u64   r8 :: u64
  rbp :: u64  rdi :: u64  rsi :: u64  rdx :: u64
  rcx :: u64  rbx :: u64  rax :: u64
  vec :: u64  err :: u64
  rip :: u64  cs :: u64   rflags :: u64  tf_rsp :: u64  ss :: u64

definition zero_tf :: trapframe where
  "zero_tf = \<lparr>r15 = 0, r14 = 0, r13 = 0, r12 = 0, r11 = 0, r10 = 0, r9 = 0, r8 = 0,
     rbp = 0, rdi = 0, rsi = 0, rdx = 0, rcx = 0, rbx = 0, rax = 0, vec = 0, err = 0,
     rip = 0, cs = 0, rflags = 0, tf_rsp = 0, ss = 0\<rparr>"

section \<open>Threads\<close>

abbreviation SCHED_MAX_THREADS :: nat where "SCHED_MAX_THREADS \<equiv> 16"

datatype tstate = T_UNUSED | T_RUNNABLE | T_RUNNING | T_BLOCKED | T_DEAD

text \<open>The numbers of the C enumeration, which user space sees through SYS\_TINFO.\<close>

primrec tstate_code :: "tstate \<Rightarrow> nat" where
  "tstate_code T_UNUSED = 0"
| "tstate_code T_RUNNABLE = 1"
| "tstate_code T_RUNNING = 2"
| "tstate_code T_BLOCKED = 3"
| "tstate_code T_DEAD = 4"

lemma tstate_code_inj [simp]: "tstate_code a = tstate_code b \<longleftrightarrow> a = b"
  by (cases a; cases b) auto

instantiation tstate :: linorder
begin

definition less_eq_tstate :: "tstate \<Rightarrow> tstate \<Rightarrow> bool" where
  "less_eq_tstate a b \<longleftrightarrow> tstate_code a \<le> tstate_code b"

definition less_tstate :: "tstate \<Rightarrow> tstate \<Rightarrow> bool" where
  "less_tstate a b \<longleftrightarrow> tstate_code a < tstate_code b"

instance
  by standard (auto simp: less_eq_tstate_def less_tstate_def)

end

text \<open>
  What a thread that is switched out resumes: the contents of its saved kernel stack,
  to which the field \<^verbatim>\<open>rsp\<close> points.  \<open>K_start p\<close> is the frame planted by
  \<open>arch_init_stack\<close> (the trampoline, about to run \<open>user_bootstrap\<close> on program \<open>p\<close>);
  \<open>K_user\<close> a return to the interrupted code (the timer); the other constructors are the
  calls of \<open>schedule\<close> inside the SEND and RECV system calls and inside the two halves
  of fault forwarding; \<open>K_dead\<close> the call of \<open>schedule\<close> of a thread that has exited.
\<close>

datatype kont =
    K_start nat
  | K_user
  | K_send
  | K_recv
  | K_fault_send
  | K_fault_recv
  | K_dead

record thread =
  kont :: kont
  tstate :: tstate
  tid :: int
  kstack_top :: u64
  ipc_state :: ipc_state
  ipc_peer :: int
  ipc_call_to :: int
  ipc_from :: int
  irq_pending :: u32
  ipc_buf :: ipc_msg
  ctable :: "nat \<Rightarrow> cap"
  tf :: trapframe

text \<open>A thread in static storage, before the kernel has written to it.\<close>

definition zero_thread :: thread where
  "zero_thread = \<lparr>kont = K_dead, tstate = T_UNUSED, tid = 0, kstack_top = 0, ipc_state = IPC_NONE,
     ipc_peer = 0, ipc_call_to = 0, ipc_from = 0, irq_pending = 0, ipc_buf = zero_msg,
     ctable = (\<lambda>_. \<lparr>cap_type = CAP_NULL, cap_target = 0, cap_rights = 0, io_base = 0, io_len = 0\<rparr>),
     tf = zero_tf\<rparr>"

lemma zero_thread_simps [simp]:
  "tstate zero_thread = T_UNUSED" "ipc_state zero_thread = IPC_NONE" "irq_pending zero_thread = 0"
  by (simp_all add: zero_thread_def)

end
