(* ===== verification/CMem.thy ===== *)
theory CMem
  imports Kobj
begin

text \<open>
  Byte-addressed memory, as user space and the kernel see it through the one address
  space that all programs of the proof of concept share (\<^verbatim>\<open>kernel/proc.c\<close>).
  64-bit accesses are little-endian, and a \<^verbatim>\<open>struct ipc_msg\<close> is four of them.
\<close>

type_synonym cmem = "u64 \<Rightarrow> u8"

definition load64 :: "cmem \<Rightarrow> u64 \<Rightarrow> u64" where
  "load64 m a = fold (\<lambda>i w. w OR push_bit (8 * i) (ucast (m (a + of_nat i)))) [0..<8] 0"

definition store64 :: "cmem \<Rightarrow> u64 \<Rightarrow> u64 \<Rightarrow> cmem" where
  "store64 m a v = (\<lambda>x. if x - a < 8 then ucast (drop_bit (8 * unat (x - a)) v) else m x)"

definition read_msg :: "cmem \<Rightarrow> u64 \<Rightarrow> ipc_msg" where
  "read_msg m p = \<lparr>m_label = load64 m p, m_data0 = load64 m (p + 8),
     m_data1 = load64 m (p + 16), m_cap = load64 m (p + 24)\<rparr>"

definition write_msg :: "cmem \<Rightarrow> u64 \<Rightarrow> ipc_msg \<Rightarrow> cmem" where
  "write_msg m p x =
     store64 (store64 (store64 (store64 m p (m_label x)) (p + 8) (m_data0 x))
       (p + 16) (m_data1 x)) (p + 24) (m_cap x)"

lemma load64_cong:
  "(\<And>i. i < 8 \<Longrightarrow> m (a + of_nat i) = m' (a' + of_nat i)) \<Longrightarrow> load64 m a = load64 m' a'"
  unfolding load64_def by (rule fold_cong) auto

lemma bit_or_bytes:
  "bit (fold (\<lambda>i w. w OR push_bit (8 * i) (ucast (f i :: u8))) [0..<k] (0 :: u64)) n \<longleftrightarrow>
   n < 64 \<and> n < 8 * k \<and> bit (f (n div 8)) (n mod 8)"
proof (induction k)
  case 0
  then show ?case by simp
next
  case (Suc k)
  have "bit (push_bit (8 * k) (ucast (f k) :: u64)) n \<longleftrightarrow>
      8 * k \<le> n \<and> n < 64 \<and> bit (f k) (n - 8 * k)"
    by (auto simp: bit_push_bit_iff bit_ucast_iff dest: bit_imp_le_length)
  also have "\<dots> \<longleftrightarrow> n div 8 = k \<and> n < 64 \<and> bit (f (n div 8)) (n mod 8)"
  proof (cases "8 * k \<le> n \<and> n < 8 * k + 8")
    case True
    then have q: "n div 8 = k" by (auto intro: div_nat_eqI)
    then have "n - 8 * k = n mod 8" by (simp add: minus_mult_div_eq_mod [symmetric])
    note q this
    then show ?thesis using True by auto
  next
    case False
    then have "\<not> (8 * k \<le> n \<and> n - 8 * k < 8)" "n div 8 \<noteq> k" by auto
    then show ?thesis by (auto dest: bit_imp_le_length)
  qed
  finally have *: "bit (push_bit (8 * k) (ucast (f k) :: u64)) n \<longleftrightarrow>
      n div 8 = k \<and> n < 64 \<and> bit (f (n div 8)) (n mod 8)" .
  show ?case
    by (auto simp: bit_or_iff Suc.IH *)
qed

lemma bit_load64: "bit (load64 m a) n \<longleftrightarrow> n < 64 \<and> bit (m (a + of_nat (n div 8))) (n mod 8)"
  unfolding load64_def by (subst bit_or_bytes) auto

lemma byte_off_small: "i < 8 \<Longrightarrow> (of_nat i :: u64) < 8 \<and> unat (of_nat i :: u64) = i"
  by (simp add: word_less_nat_alt unat_of_nat take_bit_nat_eq_self)

text \<open>Reading back the word that was written.\<close>

lemma load64_store64_same [simp]: "load64 (store64 m a v) a = v"
proof (rule bit_word_eqI)
  fix n :: nat assume n: "n < LENGTH(64)"
  then have "n div 8 < 8" by simp
  then have "bit (store64 m a v (a + of_nat (n div 8))) (n mod 8) \<longleftrightarrow> bit v n"
    using n by (simp add: store64_def byte_off_small bit_ucast_iff bit_drop_bit_eq)
  then show "bit (load64 (store64 m a v) a) n = bit v n"
    using n by (simp add: bit_load64)
qed

text \<open>A word that does not overlap the one written keeps its value.\<close>

definition disjoint64 :: "u64 \<Rightarrow> u64 \<Rightarrow> bool" where
  "disjoint64 a b \<longleftrightarrow> 8 \<le> a - b \<and> 8 \<le> b - a"

lemma unat_add_neg:
  fixes d :: u64
  assumes "d \<noteq> 0"
  shows "unat d + unat (- d) = 2 ^ 64"
proof -
  have d: "0 < uint d" "uint d < 2 ^ 64"
    using assms uint_bounded [of d] by (simp_all add: word_neq_0_conv word_less_def)
  have "uint (- d) = (- uint d) mod 2 ^ 64"
    by (simp add: uint_word_ariths)
  also have "\<dots> = 2 ^ 64 - uint d"
    using d by (simp add: zmod_zminus1_eq_if)
  finally have "int (unat (- d)) = 2 ^ 64 - int (unat d)"
    by simp
  then have "int (unat d + unat (- d)) = int (2 ^ 64)" by simp
  then show ?thesis by (simp only: of_nat_eq_iff)
qed

lemma disjoint64_off:
  assumes "disjoint64 a b" and i: "i < 8"
  shows "\<not> a + of_nat i - b < (8 :: u64)"
proof -
  define d where "d = a - b"
  have neg: "b - a = - d" by (simp add: d_def)
  have lo: "8 \<le> unat d"
    using assms(1) unfolding disjoint64_def d_def word_le_nat_alt by simp
  have "8 \<le> unat (b - a)"
    using assms(1) unfolding disjoint64_def word_le_nat_alt by simp
  then have hi: "8 \<le> unat (- d)" by (simp only: neg)
  from lo have "unat d + unat (- d) = 2 ^ 64"
    by (intro unat_add_neg) auto
  with hi i have "unat d + i < 2 ^ 64" by linarith
  moreover have "unat (of_nat i :: u64) = i" using i byte_off_small by blast
  ultimately have "unat (d + of_nat i) = unat d + i"
    by (simp add: unat_word_ariths)
  moreover have off: "a + of_nat i - b = d + of_nat i" by (simp add: d_def)
  ultimately show ?thesis using lo
    unfolding off word_less_nat_alt by simp
qed

lemma load64_store64_other [simp]:
  "disjoint64 a b \<Longrightarrow> load64 (store64 m b v) a = load64 m a"
  by (rule load64_cong) (simp add: store64_def disjoint64_off)

text \<open>A message written by the kernel is read back whole by user space, and conversely.\<close>

lemma disjoint64_fields [simp]:
  "disjoint64 p (p + 8)" "disjoint64 p (p + 16)" "disjoint64 p (p + 24)"
  "disjoint64 (p + 8) (p + 16)" "disjoint64 (p + 8) (p + 24)"
  "disjoint64 (p + 16) (p + 24)"
  by (simp_all add: disjoint64_def)

lemma read_write_msg [simp]: "read_msg (write_msg m p x) p = x"
  by (simp add: read_msg_def write_msg_def)

definition disjoint_msg :: "u64 \<Rightarrow> u64 \<Rightarrow> bool" where
  "disjoint_msg p q \<longleftrightarrow> (\<forall>a \<in> {p, p + 8, p + 16, p + 24}. \<forall>b \<in> {q, q + 8, q + 16, q + 24}. disjoint64 a b)"

lemma read_write_msg_other: "disjoint_msg p q \<Longrightarrow> read_msg (write_msg m q x) p = read_msg m p"
  by (simp add: read_msg_def write_msg_def disjoint_msg_def)

end
