(* ===== verification/Pmm.thy ===== *)
theory Pmm
  imports Prelude
begin

text \<open>
  The physical frame allocator (\<^verbatim>\<open>kernel/vm.c\<close>): a bitmap with one bit
  per frame (set: in use), a count of free frames and a search cursor.  The specification
  is a pool of frame addresses, the locale \<open>frame_pool\<close>, that allocation takes from and
  release gives back to.
\<close>

section \<open>State and operations\<close>

record pmm =
  bitmap :: "u64 \<Rightarrow> u8"
  total_frames :: u64
  free_frames :: u64
  alloc_hint :: u64

definition bm_mask :: "u64 \<Rightarrow> u8" where
  "bm_mask f = push_bit (unat (f AND 7)) 1"

definition bm_set :: "pmm \<Rightarrow> u64 \<Rightarrow> pmm" where
  "bm_set p f = p\<lparr>bitmap := (bitmap p)(drop_bit 3 f := bitmap p (drop_bit 3 f) OR bm_mask f)\<rparr>"

definition bm_clear :: "pmm \<Rightarrow> u64 \<Rightarrow> pmm" where
  "bm_clear p f = p\<lparr>bitmap := (bitmap p)(drop_bit 3 f := bitmap p (drop_bit 3 f) AND NOT (bm_mask f))\<rparr>"

definition bm_test :: "pmm \<Rightarrow> u64 \<Rightarrow> bool" where
  "bm_test p f \<longleftrightarrow> bitmap p (drop_bit 3 f) AND bm_mask f \<noteq> 0"

definition mark_used :: "pmm \<Rightarrow> u64 \<Rightarrow> pmm" where
  "mark_used p f =
     (if f < total_frames p \<and> \<not> bm_test p f
      then (bm_set p f)\<lparr>free_frames := free_frames p - 1\<rparr> else p)"

definition mark_free :: "pmm \<Rightarrow> u64 \<Rightarrow> pmm" where
  "mark_free p f =
     (if f < total_frames p \<and> bm_test p f
      then (bm_clear p f)\<lparr>free_frames := free_frames p + 1\<rparr> else p)"

text \<open>\<open>for (uint64_t f = start; f < stop; f++) op(f);\<close>\<close>

definition for_frames :: "(pmm \<Rightarrow> u64 \<Rightarrow> pmm) \<Rightarrow> u64 \<Rightarrow> u64 \<Rightarrow> pmm \<Rightarrow> pmm" where
  "for_frames g start stop p = foldl (\<lambda>q n. g q (of_nat n)) p [unat start..<unat stop]"

record mem_region =
  r_base :: u64
  r_len :: u64

definition free_region :: "pmm \<Rightarrow> mem_region \<Rightarrow> pmm" where
  "free_region p r =
     for_frames mark_free (drop_bit PAGE_SHIFT (page_align_up (r_base r)))
       (drop_bit PAGE_SHIFT (r_base r + r_len r)) p"

text \<open>
  \<open>pmm_init\<close>: the linker symbol \<^verbatim>\<open>kernel_end\<close> and the result of
  \<open>arch_mem_detect\<close> (the regions it reported and the top of RAM) are arguments.
\<close>

definition reserved_frames :: "u64 \<Rightarrow> u64 \<Rightarrow> u64" where
  "reserved_frames kernel_end ram_top =
     drop_bit PAGE_SHIFT (page_align_up (page_align_up kernel_end + (drop_bit PAGE_SHIFT ram_top + 7) div 8))"

definition pmm_all_used :: "u64 \<Rightarrow> pmm \<Rightarrow> pmm" where
  "pmm_all_used ram_top p =
     (let total = drop_bit PAGE_SHIFT ram_top
      in p\<lparr>total_frames := total, free_frames := 0,
           bitmap := (\<lambda>b. if b < (total + 7) div 8 then 0xFF else bitmap p b)\<rparr>)"

definition pmm_init :: "u64 \<Rightarrow> mem_region list \<Rightarrow> u64 \<Rightarrow> pmm \<Rightarrow> pmm" where
  "pmm_init kernel_end regions ram_top p =
     (let q = foldl free_region (pmm_all_used ram_top p) regions
      in (for_frames mark_used 0 (reserved_frames kernel_end ram_top) q)
           \<lparr>alloc_hint := reserved_frames kernel_end ram_top\<rparr>)"

definition scan_frame :: "pmm \<Rightarrow> nat \<Rightarrow> u64" where
  "scan_frame p i = (alloc_hint p + of_nat i) mod total_frames p"

definition pmm_alloc_frame :: "pmm \<Rightarrow> pmm \<times> u64" where
  "pmm_alloc_frame p =
     (case first_fit (\<lambda>i. \<not> bm_test p (scan_frame p i)) (unat (total_frames p)) of
        Some i \<Rightarrow> let f = scan_frame p i in
          ((bm_set p f)\<lparr>free_frames := free_frames p - 1, alloc_hint := f + 1\<rparr>, push_bit PAGE_SHIFT f)
      | None \<Rightarrow> (p, 0))"

definition pmm_free_frame :: "pmm \<Rightarrow> u64 \<Rightarrow> pmm" where
  "pmm_free_frame p frame = mark_free p (drop_bit PAGE_SHIFT frame)"

section \<open>The bitmap as a set\<close>

definition free_set :: "pmm \<Rightarrow> u64 set" where
  "free_set p = {f. f < total_frames p \<and> \<not> bm_test p f}"

lemma low3: "(f :: u64) AND 7 = take_bit 3 f"
  by (simp add: take_bit_eq_mask mask_eq_exp_minus_1)

lemma low3_less: "unat ((f :: u64) AND 7) < 8"
proof -
  have "unat (take_bit 3 f) = take_bit 3 (unat f)"
    by (simp add: unsigned_take_bit_eq)
  also have "\<dots> < 2 ^ 3" by (rule take_bit_nat_less_exp)
  finally show ?thesis by (simp add: low3)
qed

lemma bm_test_bit: "bm_test p f \<longleftrightarrow> bit (bitmap p (drop_bit 3 f)) (unat (f AND 7))"
  by (simp add: bm_test_def bm_mask_def bit_iff_and_push_bit_not_eq_0)

lemma bit_bm_mask: "n < 8 \<Longrightarrow> bit (bm_mask f) n \<longleftrightarrow> n = unat (f AND 7)"
  by (auto simp: bm_mask_def bit_exp_iff)

lemma frame_split:
  fixes f g :: u64
  assumes "drop_bit 3 f = drop_bit 3 g" and "unat (f AND 7) = unat (g AND 7)"
  shows "f = g"
proof -
  from assms(2) have "f AND 7 = g AND 7" by (simp only: unsigned_word_eqI)
  with assms(1) have "push_bit 3 (drop_bit 3 f) + take_bit 3 f = push_bit 3 (drop_bit 3 g) + take_bit 3 g"
    by (simp only: low3)
  then show ?thesis by (simp only: bits_ident)
qed

lemma bm_test_set [simp]: "bm_test (bm_set p f) g \<longleftrightarrow> g = f \<or> bm_test p g"
proof (cases "drop_bit 3 g = drop_bit 3 f")
  case True
  then have "unat (g AND 7) = unat (f AND 7) \<longleftrightarrow> g = f"
    using frame_split [of g f] by auto
  with True show ?thesis
    by (simp add: bm_test_bit bm_set_def bit_or_iff bit_bm_mask low3_less disj_commute)
next
  case False
  then have "g \<noteq> f" by auto
  with False show ?thesis by (simp add: bm_test_bit bm_set_def)
qed

lemma bm_test_clear [simp]: "bm_test (bm_clear p f) g \<longleftrightarrow> g \<noteq> f \<and> bm_test p g"
proof (cases "drop_bit 3 g = drop_bit 3 f")
  case True
  then have "unat (g AND 7) = unat (f AND 7) \<longleftrightarrow> g = f"
    using frame_split [of g f] by auto
  with True low3_less [of g] show ?thesis
    by (simp add: bm_test_bit bm_clear_def bit_and_iff bit_not_iff bit_bm_mask conj_commute)
next
  case False
  then have "g \<noteq> f" by auto
  with False show ?thesis by (simp add: bm_test_bit bm_clear_def)
qed

lemma bm_simps [simp]:
  "total_frames (bm_set p f) = total_frames p" "total_frames (bm_clear p f) = total_frames p"
  "free_frames (bm_set p f) = free_frames p" "free_frames (bm_clear p f) = free_frames p"
  "alloc_hint (bm_set p f) = alloc_hint p" "alloc_hint (bm_clear p f) = alloc_hint p"
  by (simp_all add: bm_set_def bm_clear_def)

lemma bm_test_update [simp]:
  "bm_test (p\<lparr>free_frames := n\<rparr>) = bm_test p" "bm_test (p\<lparr>alloc_hint := h\<rparr>) = bm_test p"
  by (auto simp: bm_test_def fun_eq_iff)

lemma finite_free_set [simp]: "finite (free_set p)"
  by simp

lemma free_set_mark_used: "free_set (mark_used p f) = free_set p - {f}"
  by (auto simp: free_set_def mark_used_def)

lemma free_set_mark_free: "free_set (mark_free p f) = (if f < total_frames p then insert f (free_set p) else free_set p)"
  by (auto simp: free_set_def mark_free_def)

lemma mark_simps [simp]:
  "total_frames (mark_used p f) = total_frames p" "total_frames (mark_free p f) = total_frames p"
  "alloc_hint (mark_used p f) = alloc_hint p" "alloc_hint (mark_free p f) = alloc_hint p"
  by (simp_all add: mark_used_def mark_free_def)

section \<open>The invariant\<close>

text \<open>
  The count agrees with the bitmap; the cursor and the number of frames are small enough
  (a 64-bit address has at most \<open>2^52\<close> frames) that the scan never wraps around.
\<close>

definition count_ok :: "pmm \<Rightarrow> bool" where
  "count_ok p \<longleftrightarrow> unat (free_frames p) = card (free_set p)"

definition pmm_wf :: "pmm \<Rightarrow> bool" where
  "pmm_wf p \<longleftrightarrow> count_ok p \<and> total_frames p < 2 ^ 52 \<and> alloc_hint p \<le> 2 ^ 52"

lemma card_free_set: "card (free_set p) \<le> unat (total_frames p)"
proof -
  have "card (free_set p) = card ((unat :: u64 \<Rightarrow> nat) ` free_set p)"
    by (rule card_image [symmetric]) (auto intro: inj_onI unsigned_word_eqI)
  also have "\<dots> \<le> card {..<unat (total_frames p)}"
    by (rule card_mono) (auto simp: free_set_def word_less_nat_alt)
  finally show ?thesis by simp
qed

lemma card_free_set_less: "card (free_set p) < 2 ^ 64"
  using card_free_set [of p] unsigned_less [of "total_frames p", where 'a = nat] by simp

lemma count_ok_mark_used: "count_ok p \<Longrightarrow> count_ok (mark_used p f)"
proof (cases "f \<in> free_set p")
  case True
  assume c: "count_ok p"
  from True have "card (free_set p) > 0" by (auto simp: card_gt_0_iff)
  with c have "1 \<le> free_frames p" by (simp add: count_ok_def word_le_nat_alt)
  then have "unat (free_frames p - 1) = unat (free_frames p) - 1" by (simp add: unat_sub)
  with True c show ?thesis
    by (simp add: count_ok_def free_set_mark_used card_Diff_singleton) (simp add: mark_used_def free_set_def)
next
  case False
  assume c: "count_ok p"
  from False have "mark_used p f = p" by (auto simp: mark_used_def free_set_def)
  with c show ?thesis by simp
qed

lemma count_ok_mark_free: "count_ok p \<Longrightarrow> count_ok (mark_free p f)"
proof (cases "f < total_frames p \<and> bm_test p f")
  case True
  assume c: "count_ok p"
  from True have "f \<notin> free_set p" by (simp add: free_set_def)
  then have "card (free_set (mark_free p f)) = card (free_set p) + 1"
    using True by (simp add: free_set_mark_free)
  moreover have "card (free_set (mark_free p f)) < 2 ^ 64"
    by (rule card_free_set_less)
  ultimately show ?thesis
    using True c by (simp add: count_ok_def) (simp add: mark_free_def unat_word_ariths)
next
  case False
  assume c: "count_ok p"
  from False have "mark_free p f = p" by (auto simp: mark_free_def)
  with c show ?thesis by simp
qed

section \<open>Allocation and release\<close>

lemma drop_bit_page_less: "drop_bit PAGE_SHIFT (x :: u64) < 2 ^ 52"
proof -
  have "unat (drop_bit 12 x) = unat x div 2 ^ 12"
    by (simp only: unat_drop_bit_eq) (simp only: drop_bit_eq_div)
  also have "\<dots> < 2 ^ 52"
    using unsigned_less [of x, where 'a = nat] by (simp add: div_less_iff_less_mult)
  finally show ?thesis by (simp add: word_less_nat_alt)
qed

lemma frame_addr_inverse: "f < 2 ^ 52 \<Longrightarrow> drop_bit PAGE_SHIFT (push_bit PAGE_SHIFT f) = f" for f :: u64
proof -
  assume "f < 2 ^ 52"
  then have "unat (take_bit 52 f) = unat f"
    by (simp add: word_less_nat_alt unsigned_take_bit_eq take_bit_nat_eq_self)
  then have "take_bit 52 f = f" by (rule unsigned_word_eqI)
  moreover have "drop_bit 12 (push_bit 12 f) = take_bit 52 f"
    by (rule bit_word_eqI) (auto simp: bit_drop_bit_eq bit_push_bit_iff bit_take_bit_iff)
  ultimately show ?thesis by simp
qed

lemma push_bit_frame_eq_0: "f < 2 ^ 52 \<Longrightarrow> push_bit PAGE_SHIFT f = 0 \<longleftrightarrow> f = 0" for f :: u64
  by (metis frame_addr_inverse drop_bit_of_0 push_bit_of_0)

lemma push_bit_frame_inj: "f < 2 ^ 52 \<Longrightarrow> g < 2 ^ 52 \<Longrightarrow> push_bit PAGE_SHIFT f = push_bit PAGE_SHIFT g \<longleftrightarrow> f = g"
  for f g :: u64
  by (metis frame_addr_inverse)

lemma unat_scan_frame:
  assumes "pmm_wf p" and "i < unat (total_frames p)"
  shows "unat (scan_frame p i) = (unat (alloc_hint p) + i) mod unat (total_frames p)"
proof -
  have "unat (total_frames p) < 2 ^ 52" and "unat (alloc_hint p) \<le> 2 ^ 52"
    using assms(1) by (simp_all add: pmm_wf_def word_less_nat_alt word_le_nat_alt)
  with assms(2) have "unat (alloc_hint p + of_nat i) = unat (alloc_hint p) + i"
    by (simp add: unat_word_ariths unat_of_nat take_bit_nat_eq_self)
  then show ?thesis by (simp add: scan_frame_def unat_mod_distrib)
qed

lemma scan_frame_less:
  "pmm_wf p \<Longrightarrow> i < unat (total_frames p) \<Longrightarrow> scan_frame p i < total_frames p"
  by (simp add: word_less_nat_alt unat_scan_frame)

lemma scan_frame_covers:
  assumes "pmm_wf p" and f: "f < total_frames p"
  shows "\<exists>i<unat (total_frames p). scan_frame p i = f"
proof -
  define T where "T = unat (total_frames p)"
  define h where "h = unat (alloc_hint p)"
  have F: "unat f < T" using f by (simp add: T_def word_less_nat_alt)
  define i where "i = (unat f + (T - h mod T)) mod T"
  have i: "i < T" using F by (simp add: i_def)
  have "(h + i) mod T = (h mod T + (unat f + (T - h mod T))) mod T"
    by (simp add: i_def mod_simps)
  also have "h mod T + (unat f + (T - h mod T)) = unat f + T"
  proof -
    have "h mod T < T" using F by (intro mod_less_divisor) simp
    then show ?thesis by linarith
  qed
  also have "(unat f + T) mod T = unat f" using F by simp
  finally have "unat (scan_frame p i) = unat f"
    using unat_scan_frame [OF assms(1), of i] i by (simp add: T_def h_def)
  with i show ?thesis by (auto simp: T_def intro: unsigned_word_eqI)
qed

lemma pmm_alloc_cases:
  assumes wf: "pmm_wf p"
  obtains (empty) "free_set p = {}" "pmm_alloc_frame p = (p, 0)"
    | (frame) f p' where "f \<in> free_set p" "pmm_alloc_frame p = (p', push_bit PAGE_SHIFT f)"
        "free_set p' = free_set p - {f}" "pmm_wf p'" "total_frames p' = total_frames p"
        "free_frames p' = free_frames p - 1"
proof (cases "first_fit (\<lambda>i. \<not> bm_test p (scan_frame p i)) (unat (total_frames p))")
  case None
  then have "free_set p = {}"
    using scan_frame_covers [OF wf] by (force simp: free_set_def first_fit_None_iff)
  with None show thesis by (intro empty) (simp_all add: pmm_alloc_frame_def)
next
  case (Some i)
  define f where "f = scan_frame p i"
  define q where "q = (mark_used p f)\<lparr>alloc_hint := f + 1\<rparr>"
  have f: "f < total_frames p" "\<not> bm_test p f"
    using Some wf by (auto simp: f_def first_fit_Some_iff scan_frame_less)
  have q: "q = (bm_set p f)\<lparr>free_frames := free_frames p - 1, alloc_hint := f + 1\<rparr>"
    using f by (simp add: q_def mark_used_def)
  have fs: "free_set q = free_set (mark_used p f)"
    by (simp add: q_def free_set_def)
  have "f < 2 ^ 52" using f(1) wf by (simp add: pmm_wf_def order_less_trans)
  then have "f + 1 \<le> 2 ^ 52" by (rule inc_le)
  moreover have "count_ok (mark_used p f)"
    using wf by (simp add: pmm_wf_def count_ok_mark_used)
  ultimately have "pmm_wf q"
    using wf fs by (simp add: pmm_wf_def count_ok_def q_def)
  with Some f fs q show thesis
    by (intro frame [of f q])
       (simp_all add: pmm_alloc_frame_def f_def [symmetric] Let_def free_set_mark_used, simp add: free_set_def)
qed

text \<open>The abstraction: the addresses of the free frames.\<close>

definition avail :: "pmm \<Rightarrow> u64 set" where
  "avail p = push_bit PAGE_SHIFT ` free_set p"

definition managed :: "pmm \<Rightarrow> u64 \<Rightarrow> bool" where
  "managed p a \<longleftrightarrow> a \<noteq> 0 \<and> (\<exists>f<total_frames p. a = push_bit PAGE_SHIFT f)"

definition pmm_inv :: "pmm \<Rightarrow> bool" where
  "pmm_inv p \<longleftrightarrow> pmm_wf p \<and> 0 \<notin> free_set p"

lemma free_set_small: "pmm_wf p \<Longrightarrow> f \<in> free_set p \<Longrightarrow> f < 2 ^ 52"
  by (auto simp: free_set_def pmm_wf_def intro: order_less_trans)

lemma push_bit_image_Diff:
  "A \<subseteq> {f. f < 2 ^ 52} \<Longrightarrow> f < 2 ^ 52 \<Longrightarrow>
   push_bit PAGE_SHIFT ` (A - {f}) = push_bit PAGE_SHIFT ` A - {push_bit PAGE_SHIFT (f :: u64)}"
  by (auto simp: push_bit_frame_inj)

lemma avail_nonzero:
  assumes "pmm_inv p" and "a \<in> avail p"
  shows "managed p a"
proof -
  from assms obtain f where f: "f \<in> free_set p" "a = push_bit PAGE_SHIFT f" and wf: "pmm_wf p" "0 \<notin> free_set p"
    by (auto simp: pmm_inv_def avail_def)
  then have "f \<noteq> 0" by auto
  then have "a \<noteq> 0"
    using push_bit_frame_eq_0 [OF free_set_small [OF wf(1) f(1)]] f(2) by simp
  with f show ?thesis by (auto simp: managed_def free_set_def)
qed

section \<open>The interface: a pool of frames\<close>

locale frame_pool =
  fixes alloc :: "'p \<Rightarrow> 'p \<times> 'f"
    and release :: "'p \<Rightarrow> 'f \<Rightarrow> 'p"
    and pool :: "'p \<Rightarrow> 'f set"
    and owned :: "'p \<Rightarrow> 'f \<Rightarrow> bool"
    and inv :: "'p \<Rightarrow> bool"
    and none :: 'f
  assumes alloc_none: "inv p \<Longrightarrow> snd (alloc p) = none \<Longrightarrow> pool p = {} \<and> fst (alloc p) = p"
    and alloc_some: "inv p \<Longrightarrow> snd (alloc p) \<noteq> none \<Longrightarrow>
      snd (alloc p) \<in> pool p \<and> pool (fst (alloc p)) = pool p - {snd (alloc p)}"
    and inv_alloc: "inv p \<Longrightarrow> inv (fst (alloc p))"
    and pool_owned: "inv p \<Longrightarrow> f \<in> pool p \<Longrightarrow> owned p f"
    and owned_some: "owned p f \<Longrightarrow> f \<noteq> none"
    and owned_alloc: "inv p \<Longrightarrow> owned (fst (alloc p)) f \<longleftrightarrow> owned p f"
    and release_pool: "inv p \<Longrightarrow> owned p f \<Longrightarrow> pool (release p f) = insert f (pool p)"
    and inv_release: "inv p \<Longrightarrow> owned p f \<Longrightarrow> inv (release p f)"
begin

lemma alloc_iff: "inv p \<Longrightarrow> snd (alloc p) = none \<longleftrightarrow> pool p = {}"
  using alloc_none alloc_some by blast

lemma alloc_shrinks: "inv p \<Longrightarrow> pool (fst (alloc p)) \<subseteq> pool p"
  using alloc_none alloc_some by (cases "snd (alloc p) = none") auto

text \<open>A frame that was handed out can be given back, and the pool is as it was.\<close>

lemma alloc_release:
  assumes "inv p" and "snd (alloc p) \<noteq> none"
  shows "pool (release (fst (alloc p)) (snd (alloc p))) = pool p"
proof -
  have f: "snd (alloc p) \<in> pool p" and rest: "pool (fst (alloc p)) = pool p - {snd (alloc p)}"
    using alloc_some [OF assms] by auto
  have "owned (fst (alloc p)) (snd (alloc p))"
    using assms(1) f by (simp add: owned_alloc pool_owned)
  then show ?thesis
    using release_pool [OF inv_alloc [OF assms(1)]] f rest by auto
qed

primrec alloc_many :: "nat \<Rightarrow> 'p \<Rightarrow> 'p \<times> 'f list" where
  "alloc_many 0 p = (p, [])"
| "alloc_many (Suc n) p = (case alloc_many n (fst (alloc p)) of (q, fs) \<Rightarrow> (q, snd (alloc p) # fs))"

text \<open>No frame is handed out twice.\<close>

lemma alloc_many_distinct:
  assumes "inv p" and "none \<notin> set (snd (alloc_many n p))"
  shows "distinct (snd (alloc_many n p)) \<and> set (snd (alloc_many n p)) \<subseteq> pool p \<and>
    pool (fst (alloc_many n p)) = pool p - set (snd (alloc_many n p))"
  using assms
proof (induction n arbitrary: p)
  case 0
  then show ?case by simp
next
  case (Suc n)
  let ?r = "alloc_many n (fst (alloc p))"
  have "snd (alloc p) \<noteq> none" and "none \<notin> set (snd ?r)"
    using Suc.prems(2) by (auto split: prod.splits)
  with Suc.IH [OF inv_alloc [OF Suc.prems(1)]] alloc_some [OF Suc.prems(1)]
  show ?case by (auto split: prod.splits)
qed

end

lemma pmm_free_frame_managed:
  assumes "pmm_inv p" and "managed p a"
  obtains f where "f < total_frames p" "f \<noteq> 0" "a = push_bit PAGE_SHIFT f" "f < 2 ^ 52"
    "pmm_free_frame p a = mark_free p f"
proof -
  obtain f where f: "f < total_frames p" "a = push_bit PAGE_SHIFT f" "a \<noteq> 0"
    using assms(2) by (auto simp: managed_def)
  have "f < 2 ^ 52" using f(1) assms(1) by (auto simp: pmm_inv_def pmm_wf_def intro: order_less_trans)
  moreover from this have "pmm_free_frame p a = mark_free p f"
    using f(2) by (simp only: pmm_free_frame_def frame_addr_inverse)
  moreover have "f \<noteq> 0" using f(2,3) by auto
  ultimately show thesis using f that by blast
qed

interpretation pool: frame_pool pmm_alloc_frame pmm_free_frame avail managed pmm_inv 0
proof
  fix p :: pmm and f assume inv: "pmm_inv p"
  then have wf: "pmm_wf p" "0 \<notin> free_set p" by (simp_all add: pmm_inv_def)
  have nz: "push_bit PAGE_SHIFT g \<noteq> 0" if "g \<in> free_set p" for g
    using avail_nonzero [OF inv] that by (auto simp: managed_def avail_def)
  show "snd (pmm_alloc_frame p) = 0 \<Longrightarrow> avail p = {} \<and> fst (pmm_alloc_frame p) = p"
    by (rule pmm_alloc_cases [OF wf(1)]) (auto simp: avail_def dest: nz)
  show "snd (pmm_alloc_frame p) \<noteq> 0 \<Longrightarrow>
      snd (pmm_alloc_frame p) \<in> avail p \<and> avail (fst (pmm_alloc_frame p)) = avail p - {snd (pmm_alloc_frame p)}"
  proof (rule pmm_alloc_cases [OF wf(1)])
    fix g p'
    assume g: "g \<in> free_set p" "pmm_alloc_frame p = (p', push_bit PAGE_SHIFT g)"
      "free_set p' = free_set p - {g}"
    have "free_set p \<subseteq> {f. f < 2 ^ 52}" using free_set_small [OF wf(1)] by blast
    then have "avail p' = avail p - {push_bit PAGE_SHIFT g}"
      unfolding avail_def g(3) using g(1) by (intro push_bit_image_Diff) auto
    then show ?thesis using g(1,2) by (simp add: avail_def)
  qed simp
  show "pmm_inv (fst (pmm_alloc_frame p))"
    by (rule pmm_alloc_cases [OF wf(1)]) (use inv wf in \<open>auto simp: pmm_inv_def\<close>)
  show "f \<in> avail p \<Longrightarrow> managed p f"
    using inv by (rule avail_nonzero)
  show "managed (fst (pmm_alloc_frame p)) f \<longleftrightarrow> managed p f"
    by (rule pmm_alloc_cases [OF wf(1)]) (auto simp: managed_def)
  assume m: "managed p f"
  obtain g where g: "g < total_frames p" "g \<noteq> 0" "f = push_bit PAGE_SHIFT g" "pmm_free_frame p f = mark_free p g"
    using pmm_free_frame_managed [OF inv m] by metis
  show "avail (pmm_free_frame p f) = insert f (avail p)"
    unfolding g(4) avail_def free_set_mark_free using g by simp
  show "pmm_inv (pmm_free_frame p f)"
    unfolding g(4) using wf g by (simp add: pmm_inv_def pmm_wf_def count_ok_mark_free free_set_mark_free)
qed (simp add: managed_def)

section \<open>Initialisation\<close>

lemma for_frames_induct:
  assumes "I p" and "\<And>q f. I q \<Longrightarrow> I (g q f)"
  shows "I (for_frames g start stop p)"
proof -
  have "I (foldl (\<lambda>q n. g q (of_nat n)) p ns)" for ns
    using assms by (induction ns rule: rev_induct) auto
  then show ?thesis by (simp add: for_frames_def)
qed

lemma of_nat_range:
  "of_nat ` {unat (a :: u64)..<unat b} = {f :: u64. a \<le> f \<and> f < b}"
proof (intro equalityI subsetI)
  fix f :: u64 assume "f \<in> of_nat ` {unat a..<unat b}"
  then obtain x where x: "f = of_nat x" "unat a \<le> x" "x < unat b" by auto
  have "x < 2 ^ 64" using x(3) unsigned_less [of b, where 'a = nat] by simp
  then have "unat f = x" by (simp add: x(1) unat_of_nat take_bit_nat_eq_self)
  with x show "f \<in> {f. a \<le> f \<and> f < b}" by (simp add: word_le_nat_alt word_less_nat_alt)
next
  fix f :: u64 assume "f \<in> {f. a \<le> f \<and> f < b}"
  then have "f = of_nat (unat f) \<and> unat f \<in> {unat a..<unat b}"
    by (simp add: word_le_nat_alt word_less_nat_alt)
  then show "f \<in> of_nat ` {unat a..<unat b}" by blast
qed

lemma free_set_for_used:
  "free_set (for_frames mark_used start stop p) = free_set p - {f. start \<le> f \<and> f < stop}"
proof -
  have "free_set (foldl (\<lambda>q n. mark_used q (of_nat n)) p ns) = free_set p - of_nat ` set ns" for ns
    by (induction ns rule: rev_induct) (auto simp: free_set_mark_used)
  then show ?thesis by (simp add: for_frames_def of_nat_range)
qed

lemma total_for_frames [simp]:
  "total_frames (for_frames mark_used start stop p) = total_frames p"
  "total_frames (for_frames mark_free start stop p) = total_frames p"
  by (rule for_frames_induct; simp)+

lemma free_set_for_free:
  "free_set (for_frames mark_free start stop p) =
     free_set p \<union> {f. start \<le> f \<and> f < stop \<and> f < total_frames p}"
proof -
  have "free_set (foldl (\<lambda>q n. mark_free q (of_nat n)) p ns) =
      free_set p \<union> {f \<in> of_nat ` set ns. f < total_frames p} \<and>
      total_frames (foldl (\<lambda>q n. mark_free q (of_nat n)) p ns) = total_frames p" for ns
    by (induction ns rule: rev_induct) (auto simp: free_set_mark_free)
  then show ?thesis by (auto simp: for_frames_def of_nat_range)
qed

text \<open>The frames that lie wholly inside a region.\<close>

definition region_frames :: "mem_region \<Rightarrow> u64 set" where
  "region_frames r = {f. drop_bit PAGE_SHIFT (page_align_up (r_base r)) \<le> f \<and>
     f < drop_bit PAGE_SHIFT (r_base r + r_len r)}"

lemma free_regions:
  "free_set (foldl free_region p rs) =
     free_set p \<union> {f. f < total_frames p \<and> (\<exists>r\<in>set rs. f \<in> region_frames r)} \<and>
   total_frames (foldl free_region p rs) = total_frames p"
  by (induction rs rule: rev_induct)
     (auto simp: free_region_def free_set_for_free region_frames_def)

lemma pmm_all_used_free: "free_set (pmm_all_used ram_top p) = {}"
proof -
  have "bm_test (pmm_all_used ram_top p) f" if f: "f < drop_bit PAGE_SHIFT ram_top" for f
  proof -
    define T where "T = drop_bit PAGE_SHIFT ram_top"
    have T: "unat T < 2 ^ 52" using drop_bit_page_less [of ram_top] by (simp add: T_def word_less_nat_alt)
    then have "unat (T + 7) = unat T + 7" by (simp add: unat_word_ariths)
    then have "unat ((T + 7) div 8) = (unat T + 7) div 8" by (simp add: unat_div_distrib)
    moreover have "unat (drop_bit 3 f) = unat f div 8"
      by (simp only: unat_drop_bit_eq) (simp add: drop_bit_eq_div)
    moreover have "unat f < unat T" using f by (simp add: T_def word_less_nat_alt)
    ultimately have "drop_bit 3 f < (T + 7) div 8" by (simp add: word_less_nat_alt)
    moreover have "bit (0xFF :: u8) n" if "n < 8" for n
    proof -
      have "(0xFF :: u8) = - 1" by simp
      with that show ?thesis by (simp only: bit_minus_1_iff) simp
    qed
    ultimately show ?thesis
      using low3_less [of f] by (simp add: bm_test_bit pmm_all_used_def Let_def T_def)
  qed
  then show ?thesis by (auto simp: free_set_def pmm_all_used_def Let_def)
qed

lemma count_ok_all_used: "count_ok (pmm_all_used ram_top p)"
  by (simp add: count_ok_def pmm_all_used_free) (simp add: pmm_all_used_def Let_def)

lemma total_all_used [simp]: "total_frames (pmm_all_used ram_top p) = drop_bit PAGE_SHIFT ram_top"
  by (simp add: pmm_all_used_def Let_def)

lemma free_set_pmm_init:
  "free_set (pmm_init ke rs ram_top p) =
     {f. f < drop_bit PAGE_SHIFT ram_top \<and> reserved_frames ke ram_top \<le> f \<and> (\<exists>r\<in>set rs. f \<in> region_frames r)}"
proof -
  have upd: "free_set (q\<lparr>alloc_hint := h\<rparr>) = free_set q" for q h by (simp add: free_set_def)
  show ?thesis
    unfolding pmm_init_def Let_def upd free_set_for_used
    using free_regions [of "pmm_all_used ram_top p" rs]
    by (auto simp: pmm_all_used_free)
qed

lemma total_pmm_init: "total_frames (pmm_init ke rs ram_top p) = drop_bit PAGE_SHIFT ram_top"
  using free_regions [of "pmm_all_used ram_top p" rs] by (simp add: pmm_init_def Let_def)

lemma count_ok_pmm_init: "count_ok (pmm_init ke rs ram_top p)"
proof -
  have "count_ok (foldl free_region (pmm_all_used ram_top p) rs)"
    by (induction rs rule: rev_induct)
       (auto simp: count_ok_all_used free_region_def intro!: for_frames_induct count_ok_mark_free)
  then have "count_ok (for_frames mark_used 0 (reserved_frames ke ram_top)
      (foldl free_region (pmm_all_used ram_top p) rs))"
    by (rule for_frames_induct) (rule count_ok_mark_used)
  then show ?thesis
    by (simp add: pmm_init_def Let_def count_ok_def free_set_def)
qed

lemma pmm_init_inv:
  assumes "0 < reserved_frames ke ram_top"
  shows "pmm_inv (pmm_init ke rs ram_top p)"
proof -
  have "reserved_frames ke ram_top < 2 ^ 52"
    unfolding reserved_frames_def by (rule drop_bit_page_less)
  then have "alloc_hint (pmm_init ke rs ram_top p) \<le> 2 ^ 52"
    by (simp add: pmm_init_def Let_def order_less_imp_le)
  then show ?thesis
    using assms drop_bit_page_less [of ram_top]
    by (simp add: pmm_inv_def pmm_wf_def count_ok_pmm_init total_pmm_init free_set_pmm_init)
qed

section \<open>Properties\<close>

primrec alloc_frames :: "nat \<Rightarrow> pmm \<Rightarrow> pmm \<times> u64 list" where
  "alloc_frames 0 p = (p, [])"
| "alloc_frames (Suc n) p =
     (case pmm_alloc_frame p of (p1, f) \<Rightarrow> case alloc_frames n p1 of (q, fs) \<Rightarrow> (q, f # fs))"

lemma alloc_frames_pool: "alloc_frames n p = pool.alloc_many n p"
  by (induction n arbitrary: p) (simp_all add: split_beta)

definition small_pmm :: pmm where
  "small_pmm = pmm_init 0x1000 [\<lparr>r_base = 0, r_len = 0x5000\<rparr>] 0x5000
     \<lparr>bitmap = (\<lambda>_. 0), total_frames = 0, free_frames = 0, alloc_hint = 0\<rparr>"

lemma small_pmm_reserved: "reserved_frames 0x1000 0x5000 = 2"
  by (simp add: reserved_frames_def page_align_up_def)

lemma small_pmm_inv: "pmm_inv small_pmm"
  unfolding small_pmm_def by (rule pmm_init_inv) (simp add: small_pmm_reserved)

text \<open>C31: After \<open>pmm_init\<close> exactly the frames of the reported regions that lie below the top
  of RAM and above the kernel image and the bitmap are free, the free count is their number,
  and the allocator's invariant holds.\<close>

theorem pmm_init_exact:
  assumes "0 < reserved_frames ke ram_top"
  shows "free_set (pmm_init ke rs ram_top p) =
      {f. f < drop_bit PAGE_SHIFT ram_top \<and> reserved_frames ke ram_top \<le> f \<and> (\<exists>r\<in>set rs. f \<in> region_frames r)} \<and>
    unat (free_frames (pmm_init ke rs ram_top p)) = card (free_set (pmm_init ke rs ram_top p)) \<and>
    pmm_inv (pmm_init ke rs ram_top p)"
  using free_set_pmm_init count_ok_pmm_init pmm_init_inv [OF assms] by (simp add: count_ok_def)

theorem pmm_init_exact_witness: "2 \<in> free_set small_pmm"
  unfolding small_pmm_def
  by (subst pmm_init_exact [THEN conjunct1])
     (simp_all add: small_pmm_reserved region_frames_def page_align_up_def)

text \<open>C29: A series of allocations that all succeed hands out pairwise different frames, all of
  them free before, and afterwards exactly these have left the pool.\<close>

theorem alloc_frames_distinct:
  assumes "pmm_inv p" and "alloc_frames n p = (q, fs)" and "0 \<notin> set fs"
  shows "distinct fs \<and> set fs \<subseteq> avail p \<and> avail q = avail p - set fs"
  using pool.alloc_many_distinct [of p n] assms by (simp add: alloc_frames_pool)

lemma small_pmm_allocs: "snd (alloc_frames 2 small_pmm) = [0x2000, 0x3000]"
  by code_simp

theorem alloc_frames_distinct_witness: "{0x2000, 0x3000} \<subseteq> avail small_pmm"
  using alloc_frames_distinct [OF small_pmm_inv prod.collapse [symmetric], of 2] small_pmm_allocs by simp

text \<open>An allocation fails only when no frame is free, and a frame given back right after it
  was handed out restores the pool.\<close>

theorem alloc_fails_iff_empty:
  assumes "pmm_inv p" and "pmm_alloc_frame p = (q, f)"
  shows "(f = 0 \<longleftrightarrow> avail p = {}) \<and> (f \<noteq> 0 \<longrightarrow> avail (pmm_free_frame q f) = avail p)"
  using pool.alloc_iff [of p] pool.alloc_release [of p] assms by simp

theorem alloc_fails_iff_empty_witness: "avail small_pmm \<noteq> {}"
proof -
  have "snd (pmm_alloc_frame small_pmm) = 0x2000" by code_simp
  then show ?thesis
    using alloc_fails_iff_empty [OF small_pmm_inv prod.collapse [symmetric]] by simp
qed

end
