(* ===== verification/Paging.thy ===== *)
theory Paging
  imports Pmm
begin

text \<open>
  x86\_64 four-level paging (\<^verbatim>\<open>arch/x86_64/mm/paging.c\<close>).  Page tables
  live in physical memory, which this code only reads and writes as aligned 64-bit words:
  \<open>pmem a\<close> is the word at address \<open>a\<close>.  A NULL table pointer is the address 0.  The
  specification is \<open>xlate\<close>, the walk the processor makes for a 4 KiB page.
\<close>

section \<open>State and operations\<close>

text \<open>
  The memory from \<open>KERNEL_BASE\<close>, where the linker puts the kernel, to \<open>kmem_top\<close>, the end of the
  frame bitmap, holds the code, the variables and the stacks of the kernel, which the model keeps in
  records of their own.  \<open>clobbered\<close> records that a store through a pointer has hit it.
\<close>

record paging =
  pg_pmm :: pmm
  pmem :: "u64 \<Rightarrow> u64"
  cr3 :: u64
  tlb_flushes :: "u64 list"
  kmem_top :: u64
  clobbered :: bool

abbreviation KERNEL_BASE :: u64 where "KERNEL_BASE \<equiv> 0x100000"

definition in_kernel :: "paging \<Rightarrow> u64 \<Rightarrow> bool" where
  "in_kernel s pa \<longleftrightarrow> KERNEL_BASE \<le> pa \<and> pa < kmem_top s"

abbreviation PTE_PRESENT :: u64 where "PTE_PRESENT \<equiv> 1"
abbreviation PTE_WRITE :: u64 where "PTE_WRITE \<equiv> 2"
abbreviation PTE_USER :: u64 where "PTE_USER \<equiv> 4"
abbreviation PTE_PS :: u64 where "PTE_PS \<equiv> 0x80"
abbreviation ADDR_MASK :: u64 where "ADDR_MASK \<equiv> 0x000FFFFFFFFFF000"

abbreviation VM_PRESENT :: u64 where "VM_PRESENT \<equiv> 1"
abbreviation VM_WRITE :: u64 where "VM_WRITE \<equiv> 2"
abbreviation VM_USER :: u64 where "VM_USER \<equiv> 4"

definition flags_to_pte :: "u64 \<Rightarrow> u64" where
  "flags_to_pte f =
     (let p = PTE_PRESENT;
          p = (if f AND VM_WRITE \<noteq> 0 then p OR PTE_WRITE else p);
          p = (if f AND VM_USER \<noteq> 0 then p OR PTE_USER else p)
      in p)"

definition read_cr3 :: "paging \<Rightarrow> u64" where
  "read_cr3 s = cr3 s AND ADDR_MASK"

definition entry_addr :: "u64 \<Rightarrow> nat \<Rightarrow> u64" where
  "entry_addr t i = t + of_nat (8 * i)"

definition zero_table :: "(u64 \<Rightarrow> u64) \<Rightarrow> u64 \<Rightarrow> (u64 \<Rightarrow> u64)" where
  "zero_table m f = (\<lambda>a. if a - f < PAGE_SIZE then 0 else m a)"

definition next_table :: "paging \<Rightarrow> u64 \<Rightarrow> nat \<Rightarrow> bool \<Rightarrow> paging \<times> u64" where
  "next_table s t i create =
     (let e = pmem s (entry_addr t i) in
      if e AND PTE_PRESENT = 0 then
        (if \<not> create then (s, 0)
         else case pmm_alloc_frame (pg_pmm s) of (p, f) \<Rightarrow>
           if f = 0 then (s\<lparr>pg_pmm := p\<rparr>, 0)
           else (s\<lparr>pg_pmm := p,
                   pmem := (zero_table (pmem s) f)
                     (entry_addr t i := f OR PTE_PRESENT OR PTE_WRITE OR PTE_USER)\<rparr>, f))
      else if e AND PTE_PS \<noteq> 0 then (s, 0)
      else (s, e AND ADDR_MASK))"

definition va_index :: "nat \<Rightarrow> u64 \<Rightarrow> nat" where
  "va_index k va = unat (drop_bit k va AND 0x1FF)"

definition arch_tlb_flush :: "u64 \<Rightarrow> paging \<Rightarrow> paging" where
  "arch_tlb_flush va s = s\<lparr>tlb_flushes := va # tlb_flushes s\<rparr>"

definition set_leaf :: "u64 \<Rightarrow> u64 \<Rightarrow> nat \<Rightarrow> u64 \<Rightarrow> paging \<Rightarrow> paging" where
  "set_leaf va pt i e s = arch_tlb_flush va (s\<lparr>pmem := (pmem s)(entry_addr pt i := e)\<rparr>)"

definition vmm_map :: "paging \<Rightarrow> u64 \<Rightarrow> u64 \<Rightarrow> u64 \<Rightarrow> paging \<times> int" where
  "vmm_map s va pa flags =
     (case next_table s (read_cr3 s) (va_index 39 va) True of (s1, pdpt) \<Rightarrow>
      if pdpt = 0 then (s1, - 1) else
      case next_table s1 pdpt (va_index 30 va) True of (s2, pd) \<Rightarrow>
      if pd = 0 then (s2, - 1) else
      case next_table s2 pd (va_index 21 va) True of (s3, pt) \<Rightarrow>
      if pt = 0 then (s3, - 1) else
      (set_leaf va pt (va_index 12 va) ((pa AND ADDR_MASK) OR flags_to_pte flags) s3, 0))"

definition vmm_unmap :: "paging \<Rightarrow> u64 \<Rightarrow> paging" where
  "vmm_unmap s va =
     (case next_table s (read_cr3 s) (va_index 39 va) False of (s1, pdpt) \<Rightarrow>
      if pdpt = 0 then s1 else
      case next_table s1 pdpt (va_index 30 va) False of (s2, pd) \<Rightarrow>
      if pd = 0 then s2 else
      case next_table s2 pd (va_index 21 va) False of (s3, pt) \<Rightarrow>
      if pt = 0 then s3 else set_leaf va pt (va_index 12 va) 0 s3)"

lemma next_table_flags:
  "next_table s t i c = (s', u) \<Longrightarrow> kmem_top s' = kmem_top s \<and> clobbered s' = clobbered s"
  by (auto simp: next_table_def Let_def split: if_splits prod.splits)

lemma vmm_map_flags:
  "vmm_map s va pa fl = (s', r) \<Longrightarrow> kmem_top s' = kmem_top s \<and> clobbered s' = clobbered s"
  by (auto simp: vmm_map_def set_leaf_def arch_tlb_flush_def split: if_splits prod.splits dest!: next_table_flags)

section \<open>The specification: the processor's walk\<close>

definition present :: "u64 \<Rightarrow> bool" where
  "present e \<longleftrightarrow> e AND PTE_PRESENT \<noteq> 0"

definition links :: "u64 \<Rightarrow> bool" where
  "links e \<longleftrightarrow> present e \<and> e AND PTE_PS = 0"

definition child :: "u64 \<Rightarrow> u64" where
  "child e = e AND ADDR_MASK"

fun xlate :: "(u64 \<Rightarrow> u64) \<Rightarrow> u64 \<Rightarrow> nat list \<Rightarrow> u64 option" where
  "xlate m t [] = None"
| "xlate m t [i] = (let e = m (entry_addr t i) in if present e then Some e else None)"
| "xlate m t (i # j # js) =
     (let e = m (entry_addr t i) in if links e then xlate m (child e) (j # js) else None)"

definition va_path :: "u64 \<Rightarrow> nat list" where
  "va_path va = [va_index 39 va, va_index 30 va, va_index 21 va, va_index 12 va]"

text \<open>The page-table entry that maps the page of \<open>va\<close>, if there is one.\<close>

definition mapping :: "paging \<Rightarrow> u64 \<Rightarrow> u64 option" where
  "mapping s va = xlate (pmem s) (read_cr3 s) (va_path va)"

text \<open>The physical address a 4 KiB mapping gives.\<close>

definition translate :: "paging \<Rightarrow> u64 \<Rightarrow> u64 option" where
  "translate s va = map_option (\<lambda>e. child e OR (va AND 0xFFF)) (mapping s va)"

section \<open>Addresses of table entries\<close>

definition aligned :: "u64 \<Rightarrow> bool" where
  "aligned t \<longleftrightarrow> unat t mod 4096 = 0"

lemma aligned_small: "aligned t \<Longrightarrow> k < 4096 \<Longrightarrow> unat (t + of_nat k) = unat t + k"
proof -
  assume a: "aligned t" and k: "k < 4096"
  obtain q where q: "unat t = 4096 * q" using a by (auto simp: aligned_def)
  have "4096 * q < 4096 * 2 ^ 52" using unsigned_less [of t, where 'a = nat] q by simp
  then have "q < 2 ^ 52" by simp
  then have "unat t + k < 2 ^ 64" using q k by simp
  then show ?thesis using k by (simp add: unat_word_ariths unat_of_nat take_bit_nat_eq_self)
qed

lemma entry_addr_inj:
  assumes "aligned t" "aligned t'" "i < 512" "i' < 512"
  shows "entry_addr t i = entry_addr t' i' \<longleftrightarrow> t = t' \<and> i = i'"
proof
  assume eq: "entry_addr t i = entry_addr t' i'"
  have "unat t + 8 * i = unat t' + 8 * i'"
    using aligned_small [of t "8 * i"] aligned_small [of t' "8 * i'"] assms
      arg_cong [OF eq, of unat] by (simp add: entry_addr_def)
  moreover have "unat t mod 4096 = 0" "unat t' mod 4096 = 0"
    using assms(1,2) unfolding aligned_def .
  ultimately have "unat t = unat t' \<and> 8 * i = 8 * i'"
    using assms(3,4) by (intro page_offset_unique [of _ 4096]) simp_all
  then show "t = t' \<and> i = i'" by (auto intro: unsigned_word_eqI)
qed simp

lemma entry_in_table:
  assumes "aligned t" "aligned f" "i < 512"
  shows "entry_addr t i - f < PAGE_SIZE \<longleftrightarrow> t = f"
proof
  assume lt: "entry_addr t i - f < PAGE_SIZE"
  define k where "k = unat (entry_addr t i - f)"
  have k: "k < 4096" using lt by (simp add: k_def word_less_nat_alt)
  have "entry_addr t i = f + of_nat k" by (simp add: k_def)
  then have "unat t + 8 * i = unat f + k"
    using aligned_small [of t "8 * i"] aligned_small [of f k] assms k by (simp add: entry_addr_def)
  moreover have "unat t mod 4096 = 0" "unat f mod 4096 = 0"
    using assms(1,2) unfolding aligned_def .
  ultimately have "unat t = unat f \<and> 8 * i = k"
    using assms(3) k by (intro page_offset_unique [of _ 4096]) simp_all
  then have "unat t = unat f" by simp
  then show "t = f" by (rule unsigned_word_eqI)
next
  assume "t = f"
  then have "entry_addr t i - f = of_nat (8 * i)" by (simp add: entry_addr_def)
  then show "entry_addr t i - f < PAGE_SIZE"
    using assms(3) by (simp add: word_less_nat_alt unat_of_nat take_bit_nat_eq_self del: of_nat_mult)
qed

lemma va_index_less: "va_index k va < 512"
proof -
  have "drop_bit k va AND 0x1FF = take_bit 9 (drop_bit k va)"
    by (simp add: take_bit_eq_mask mask_eq_exp_minus_1)
  moreover have "unat (take_bit 9 (drop_bit k va)) = take_bit 9 (unat (drop_bit k va))"
    by (simp add: unsigned_take_bit_eq)
  moreover have "take_bit 9 (unat (drop_bit k va)) < 2 ^ 9"
    by (rule take_bit_nat_less_exp)
  ultimately show ?thesis by (simp add: va_index_def)
qed

section \<open>Well-formed page tables\<close>

text \<open>
  \<open>lvl\<close> labels the frames that are page tables with their level (0: not a table).  Links
  lead one level down, no two entries link to the same table, and tables are not free
  frames.  The processor's physical addresses have at most 52 bits.
\<close>

definition tree_wf :: "(u64 \<Rightarrow> nat) \<Rightarrow> paging \<Rightarrow> bool" where
  "tree_wf lvl s \<longleftrightarrow>
     lvl (read_cr3 s) = 4 \<and>
     (\<forall>t. lvl t \<noteq> 0 \<longrightarrow> aligned t \<and> t \<noteq> 0 \<and> t \<notin> avail (pg_pmm s)) \<and>
     (\<forall>t i. 2 \<le> lvl t \<and> i < 512 \<and> links (pmem s (entry_addr t i)) \<longrightarrow>
        lvl (child (pmem s (entry_addr t i))) = lvl t - 1) \<and>
     (\<forall>t i t' i'. 2 \<le> lvl t \<and> 2 \<le> lvl t' \<and> i < 512 \<and> i' < 512 \<and>
        links (pmem s (entry_addr t i)) \<and> links (pmem s (entry_addr t' i')) \<and>
        child (pmem s (entry_addr t i)) = child (pmem s (entry_addr t' i')) \<longrightarrow> t = t' \<and> i = i')"

definition paging_inv :: "paging \<Rightarrow> bool" where
  "paging_inv s \<longleftrightarrow> pmm_inv (pg_pmm s) \<and> total_frames (pg_pmm s) \<le> 2 ^ 40 \<and> (\<exists>lvl. tree_wf lvl s)"

lemma tree_wfD:
  assumes "tree_wf lvl s"
  shows "lvl (read_cr3 s) = 4"
    and "lvl t \<noteq> 0 \<Longrightarrow> aligned t" and "lvl t \<noteq> 0 \<Longrightarrow> t \<noteq> 0"
    and "lvl t \<noteq> 0 \<Longrightarrow> t \<notin> avail (pg_pmm s)"
    and "2 \<le> lvl t \<Longrightarrow> i < 512 \<Longrightarrow> links (pmem s (entry_addr t i)) \<Longrightarrow>
      lvl (child (pmem s (entry_addr t i))) = lvl t - 1"
    and "2 \<le> lvl t \<Longrightarrow> 2 \<le> lvl t' \<Longrightarrow> i < 512 \<Longrightarrow> i' < 512 \<Longrightarrow>
      links (pmem s (entry_addr t i)) \<Longrightarrow> links (pmem s (entry_addr t' i')) \<Longrightarrow>
      child (pmem s (entry_addr t i)) = child (pmem s (entry_addr t' i')) \<Longrightarrow> t = t' \<and> i = i'"
  using assms unfolding tree_wf_def by blast+

text \<open>What the walk reads: the entries of labelled tables.\<close>

lemma xlate_cong:
  assumes wf: "tree_wf lvl s"
    and same: "\<And>t i. lvl t \<noteq> 0 \<Longrightarrow> i < 512 \<Longrightarrow> m (entry_addr t i) = pmem s (entry_addr t i)"
  shows "lvl t = length is \<Longrightarrow> \<forall>i\<in>set is. i < 512 \<Longrightarrow> xlate m t is = xlate (pmem s) t is"
proof (induction "pmem s" t "is" rule: xlate.induct)
  case (3 t i j js)
  then have "m (entry_addr t i) = pmem s (entry_addr t i)" by (intro same) auto
  moreover have "lvl (child (pmem s (entry_addr t i))) = length (j # js)"
    if "links (pmem s (entry_addr t i))"
    using tree_wfD(5) [OF wf, of t i] 3 that by simp
  ultimately show ?case using 3 by (simp add: Let_def)
qed (simp_all add: Let_def same)

text \<open>
  Linking a fresh zeroed table \<open>c\<close> into an absent entry of \<open>t0\<close> changes no translation.
\<close>

lemma xlate_zero_table:
  assumes "\<And>i. i < 512 \<Longrightarrow> m (entry_addr c i) = 0" and "\<forall>i\<in>set is. i < 512"
  shows "xlate m c is = None"
  using assms by (cases "(m, c, is)" rule: xlate.cases) (auto simp: Let_def present_def links_def)

lemma xlate_link:
  assumes wf: "tree_wf lvl s"
    and same: "\<And>t i. lvl t \<noteq> 0 \<Longrightarrow> i < 512 \<Longrightarrow> (t, i) \<noteq> (t0, i0) \<Longrightarrow>
      m (entry_addr t i) = pmem s (entry_addr t i)"
    and absent: "\<not> present (pmem s (entry_addr t0 i0))"
    and link: "child (m (entry_addr t0 i0)) = c" and zero: "\<And>i. i < 512 \<Longrightarrow> m (entry_addr c i) = 0"
    and lvl0: "2 \<le> lvl t0"
  shows "lvl t = length is \<Longrightarrow> \<forall>i\<in>set is. i < 512 \<Longrightarrow> xlate m t is = xlate (pmem s) t is"
proof (induction "pmem s" t "is" rule: xlate.induct)
  case (2 t i)
  then have "(t, i) \<noteq> (t0, i0)" using lvl0 by auto
  with 2 show ?case by (simp add: Let_def same)
next
  case (3 t i j js)
  show ?case
  proof (cases "(t, i) = (t0, i0)")
    case True
    then have "xlate m (child (m (entry_addr t i))) (j # js) = None"
      using link zero 3 by (intro xlate_zero_table) auto
    with True absent show ?thesis by (simp add: Let_def links_def)
  next
    case False
    then have "m (entry_addr t i) = pmem s (entry_addr t i)" using 3 by (intro same) auto
    moreover have "lvl (child (pmem s (entry_addr t i))) = length (j # js)"
      if "links (pmem s (entry_addr t i))"
      using tree_wfD(5) [OF wf, of t i] 3 that by simp
    ultimately show ?thesis using 3 by (simp add: Let_def)
  qed
qed simp

text \<open>The leaf entry a path ends at; different paths end at different entries.\<close>

fun leaf :: "(u64 \<Rightarrow> u64) \<Rightarrow> u64 \<Rightarrow> nat list \<Rightarrow> (u64 \<times> nat) option" where
  "leaf m t [] = None"
| "leaf m t [i] = Some (t, i)"
| "leaf m t (i # j # js) =
     (let e = m (entry_addr t i) in if links e then leaf m (child e) (j # js) else None)"

lemma leaf_unique:
  assumes wf: "tree_wf lvl s"
  shows "leaf (pmem s) t is = Some x \<Longrightarrow> leaf (pmem s) t' is' = Some x \<Longrightarrow>
    lvl t = length is \<Longrightarrow> lvl t' = length is' \<Longrightarrow> length is = length is' \<Longrightarrow>
    \<forall>i\<in>set is \<union> set is'. i < 512 \<Longrightarrow> t = t' \<and> is = is'"
proof (induction "pmem s" t "is" arbitrary: t' is' rule: leaf.induct)
  case (3 t i j js)
  then obtain i' j' js' where is': "is' = i' # j' # js'"
    by (cases is'; cases "tl is'") auto
  let ?e = "pmem s (entry_addr t i)" and ?e' = "pmem s (entry_addr t' i')"
  have l: "links ?e" "links ?e'"
    using 3(2,3) is' by (auto simp: Let_def split: if_splits)
  have "lvl (child ?e) = length (j # js)" "lvl (child ?e') = length (j' # js')"
    using tree_wfD(5) [OF wf, of t i] tree_wfD(5) [OF wf, of t' i'] 3(4-7) is' l by simp_all
  then have "child ?e = child ?e' \<and> j # js = j' # js'"
    using 3(2-7) is' l by (intro 3(1) [OF refl]) (simp_all add: Let_def)
  moreover have "t = t' \<and> i = i'"
    using tree_wfD(6) [OF wf, of t t' i i'] 3(4-7) is' l calculation by simp
  ultimately show ?case using is' by simp
next
  case (2 t i)
  then show ?case by (cases is') auto
qed simp

lemma xlate_set_leaf:
  assumes wf: "tree_wf lvl s" and pt: "lvl pt = 1"
    and m: "m (entry_addr pt i1) = e"
    and same: "\<And>t i. lvl t \<noteq> 0 \<Longrightarrow> i < 512 \<Longrightarrow> (t, i) \<noteq> (pt, i1) \<Longrightarrow>
      m (entry_addr t i) = pmem s (entry_addr t i)"
  shows "lvl t = length is \<Longrightarrow> \<forall>i\<in>set is. i < 512 \<Longrightarrow>
    xlate m t is = (if leaf (pmem s) t is = Some (pt, i1) then (if present e then Some e else None)
                    else xlate (pmem s) t is)"
proof (induction "pmem s" t "is" rule: xlate.induct)
  case (2 t i)
  then show ?case
    using m same [of t i] by (auto simp: Let_def)
next
  case (3 t i j js)
  then have "(t, i) \<noteq> (pt, i1)" using pt by auto
  then have "m (entry_addr t i) = pmem s (entry_addr t i)" using 3 by (intro same) auto
  moreover have "lvl (child (pmem s (entry_addr t i))) = length (j # js)"
    if "links (pmem s (entry_addr t i))"
    using tree_wfD(5) [OF wf, of t i] 3 that by simp
  ultimately show ?case using 3 by (simp add: Let_def)
qed simp

section \<open>The entry that links a fresh table\<close>

lemma ADDR_MASK_mask: "ADDR_MASK = push_bit 12 (mask 40)"
  by (simp add: mask_eq_exp_minus_1)

lemma bit_ADDR_MASK: "bit ADDR_MASK n \<longleftrightarrow> 12 \<le> n \<and> n < 52"
  unfolding ADDR_MASK_mask by (auto simp: bit_push_bit_iff bit_mask_iff)

lemma bit_child: "bit (child e) n \<longleftrightarrow> bit e n \<and> 12 \<le> n \<and> n < 52"
  by (simp only: child_def bit_and_iff bit_ADDR_MASK)

lemma bit_small_word:
  fixes g :: u64
  assumes "unat g < 2 ^ k" and "bit g n"
  shows "n < k"
proof (rule ccontr)
  assume "\<not> n < k"
  then have "(2 :: nat) ^ k \<le> 2 ^ n" by (intro power_increasing) auto
  with assms(1) have "unat g < 2 ^ n" by (rule order_less_le_trans)
  then have "drop_bit n (unat g) = 0" by (simp add: drop_bit_eq_div)
  then have "drop_bit n g = 0"
    by (simp only: unat_drop_bit_eq [symmetric] unsigned_eq_0_iff)
  with assms(2) show False by (simp add: bit_iff_odd_drop_bit)
qed

lemma frame_bits:
  fixes g :: u64
  assumes "g < 2 ^ 40" and "bit (push_bit 12 g) n"
  shows "12 \<le> n" "n < 52"
proof -
  from assms(2) show "12 \<le> n" by (simp add: bit_push_bit_iff)
  have "unat g < 2 ^ 40" using assms(1) by (simp add: word_less_nat_alt)
  moreover have "bit g (n - 12)" using assms(2) by (simp add: bit_push_bit_iff)
  ultimately have "n - 12 < 40" by (rule bit_small_word)
  then show "n < 52" by simp
qed

lemma aligned_bits: "aligned t \<longleftrightarrow> (\<forall>n<12. \<not> bit t n)"
proof -
  have "unat t mod 4096 = 0 \<longleftrightarrow> take_bit 12 t = 0"
    by (simp add: take_bit_eq_mod word_unat_eq_iff unat_mod_distrib)
  also have "\<dots> \<longleftrightarrow> (\<forall>n<12. \<not> bit t n)"
    by (auto simp: bit_eq_iff bit_take_bit_iff)
  finally show ?thesis by (simp add: aligned_def)
qed

lemma present_bit: "present e \<longleftrightarrow> bit e 0"
  unfolding present_def using bit_iff_and_push_bit_not_eq_0 [of e 0] by (simp only: push_bit_0_id id_apply)

lemma link_entry:
  fixes f g :: u64
  assumes "g < 2 ^ 40" and f: "f = push_bit 12 g"
  shows "links (f OR PTE_PRESENT OR PTE_WRITE OR PTE_USER)"
    and "child (f OR PTE_PRESENT OR PTE_WRITE OR PTE_USER) = f" and "aligned f"
proof -
  have low: "\<not> bit f n" if "n < 12" for n
    using frame_bits(1) [OF assms(1), of n] that f by auto
  have seven: "bit (7 :: u64) n \<longleftrightarrow> n < 3" for n
  proof -
    have "(7 :: u64) = mask 3" by (simp add: mask_eq_exp_minus_1)
    then show ?thesis by (simp only: bit_mask_iff) auto
  qed
  have e: "f OR PTE_PRESENT OR PTE_WRITE OR PTE_USER = f OR 7" by (simp add: or.assoc)
  have "PTE_PS = 2 ^ 7" by simp
  then have "(f OR 7) AND PTE_PS = 0"
    using low by (simp only: and_exp_eq_0_iff_not_bit) (simp add: bit_or_iff seven)
  moreover have "present (f OR 7)"
    unfolding present_bit bit_or_iff seven by simp
  ultimately show "links (f OR PTE_PRESENT OR PTE_WRITE OR PTE_USER)"
    unfolding e links_def by simp
  show "child (f OR PTE_PRESENT OR PTE_WRITE OR PTE_USER) = f"
    unfolding e
  proof (rule bit_word_eqI)
    fix n
    have "bit f n \<Longrightarrow> 12 \<le> n \<and> n < 52" using frame_bits [OF assms(1)] f by blast
    moreover have "12 \<le> n \<Longrightarrow> \<not> bit (7 :: u64) n" by (simp only: seven)
    ultimately show "bit (child (f OR 7)) n = bit f n" by (auto simp: bit_child bit_or_iff)
  qed
  show "aligned f" using low by (simp add: aligned_bits)
qed

section \<open>One level of the walk\<close>

text \<open>
  \<open>extends\<close>: later page tables contain the earlier ones (labels and links are kept) and
  translate every path the earlier ones translate in the same way.
\<close>

definition extends :: "(u64 \<Rightarrow> nat) \<Rightarrow> paging \<Rightarrow> (u64 \<Rightarrow> nat) \<Rightarrow> paging \<Rightarrow> bool" where
  "extends lvl s lvl' s' \<longleftrightarrow>
     (\<forall>t. lvl t \<noteq> 0 \<longrightarrow> lvl' t = lvl t) \<and> read_cr3 s' = read_cr3 s \<and>
     (\<forall>t i. lvl t \<noteq> 0 \<and> i < 512 \<and> links (pmem s (entry_addr t i)) \<longrightarrow>
        pmem s' (entry_addr t i) = pmem s (entry_addr t i)) \<and>
     (\<forall>t is. lvl t = length is \<and> lvl t \<noteq> 0 \<and> (\<forall>i\<in>set is. i < 512) \<longrightarrow>
        xlate (pmem s') t is = xlate (pmem s) t is)"

definition tables_ok :: "(u64 \<Rightarrow> nat) \<Rightarrow> paging \<Rightarrow> bool" where
  "tables_ok lvl s \<longleftrightarrow> pmm_inv (pg_pmm s) \<and> total_frames (pg_pmm s) \<le> 2 ^ 40 \<and> tree_wf lvl s"

lemma paging_inv_iff: "paging_inv s \<longleftrightarrow> (\<exists>lvl. tables_ok lvl s)"
  by (auto simp: paging_inv_def tables_ok_def)

text \<open>
  \<open>walk_open\<close>: no large page lies on the way to the page of \<open>va\<close>, so that \<open>vmm_map\<close> can
  complete the way.  \<open>grows\<close>: at most \<open>n\<close> frames were taken, new tables are frames that were
  free, no other memory was written, every open way is still open and every link stays as it is.
\<close>

fun open_walk :: "(u64 \<Rightarrow> u64) \<Rightarrow> u64 \<Rightarrow> nat list \<Rightarrow> bool" where
  "open_walk m t [] \<longleftrightarrow> True"
| "open_walk m t [i] \<longleftrightarrow> True"
| "open_walk m t (i # j # js) \<longleftrightarrow>
     (let e = m (entry_addr t i) in \<not> present e \<or> links e \<and> open_walk m (child e) (j # js))"

definition walk_open :: "paging \<Rightarrow> u64 \<Rightarrow> bool" where
  "walk_open s va \<longleftrightarrow> open_walk (pmem s) (read_cr3 s) (va_path va)"

definition links_kept :: "(u64 \<Rightarrow> nat) \<Rightarrow> paging \<Rightarrow> (u64 \<Rightarrow> nat) \<Rightarrow> paging \<Rightarrow> bool" where
  "links_kept lvl s lvl' s' \<longleftrightarrow> read_cr3 s' = read_cr3 s \<and> (\<forall>t. 2 \<le> lvl t \<longrightarrow> lvl' t = lvl t) \<and>
     (\<forall>t i. 2 \<le> lvl t \<and> i < 512 \<and> links (pmem s (entry_addr t i)) \<longrightarrow>
        pmem s' (entry_addr t i) = pmem s (entry_addr t i))"

lemma links_kept_trans: "links_kept l1 s1 l2 s2 \<Longrightarrow> links_kept l2 s2 l3 s3 \<Longrightarrow> links_kept l1 s1 l3 s3"
  unfolding links_kept_def by metis

definition grows :: "nat \<Rightarrow> (u64 \<Rightarrow> nat) \<Rightarrow> paging \<Rightarrow> (u64 \<Rightarrow> nat) \<Rightarrow> paging \<Rightarrow> bool" where
  "grows n lvl s lvl' s' \<longleftrightarrow>
     (\<forall>t. lvl t \<noteq> 0 \<longrightarrow> lvl' t \<noteq> 0) \<and>
     (\<forall>t. lvl' t \<noteq> 0 \<longrightarrow> lvl t \<noteq> 0 \<or> t \<in> avail (pg_pmm s)) \<and>
     avail (pg_pmm s') \<subseteq> avail (pg_pmm s) \<and>
     card (avail (pg_pmm s)) \<le> card (avail (pg_pmm s')) + n \<and>
     (\<forall>va. walk_open s' va = walk_open s va) \<and> links_kept lvl s lvl' s' \<and>
     (\<forall>a. (\<forall>t. lvl' t \<noteq> 0 \<longrightarrow> \<not> a - t < PAGE_SIZE) \<longrightarrow> pmem s' a = pmem s a)"

lemma grows_refl: "grows 0 lvl s lvl s"
  by (simp add: grows_def links_kept_def)

lemma grows_trans:
  assumes a: "grows n l1 s1 l2 s2" and b: "grows k l2 s2 l3 s3"
  shows "grows (n + k) l1 s1 l3 s3"
proof -
  have "l1 t \<noteq> 0 \<or> t \<in> avail (pg_pmm s1)" if "l3 t \<noteq> 0" for t
    using a b that unfolding grows_def by blast
  moreover have "pmem s3 x = pmem s1 x" if "\<forall>t. l3 t \<noteq> 0 \<longrightarrow> \<not> x - t < PAGE_SIZE" for x
  proof -
    have "\<forall>t. l2 t \<noteq> 0 \<longrightarrow> \<not> x - t < PAGE_SIZE" using b that unfolding grows_def by blast
    then show ?thesis using a b that by (simp add: grows_def)
  qed
  moreover have "card (avail (pg_pmm s1)) \<le> card (avail (pg_pmm s3)) + (n + k)"
    using a b unfolding grows_def by linarith
  moreover have "avail (pg_pmm s3) \<subseteq> avail (pg_pmm s1)" "\<forall>va. walk_open s3 va = walk_open s1 va"
    "\<forall>t. l1 t \<noteq> 0 \<longrightarrow> l3 t \<noteq> 0"
    using a b by (auto simp: grows_def)
  moreover have "links_kept l1 s1 l3 s3"
    by (rule links_kept_trans [of l1 s1 l2 s2]) (use a b in \<open>simp_all only: grows_def\<close>)
  ultimately show ?thesis unfolding grows_def by blast
qed

lemma grows_mono: "grows n lvl s lvl' s' \<Longrightarrow> n \<le> k \<Longrightarrow> grows k lvl s lvl' s'"
  by (auto simp: grows_def)

text \<open>Ways stay open when the only new entries link to zeroed tables.\<close>

lemma open_zero_table:
  assumes "\<And>i. i < 512 \<Longrightarrow> m (entry_addr c i) = 0" and "\<forall>i\<in>set is. i < 512"
  shows "open_walk m c is"
  using assms by (cases "(m, c, is)" rule: open_walk.cases) (auto simp: Let_def present_def)

lemma open_walk_cong:
  assumes wf: "tree_wf lvl s"
    and same: "\<And>t i. 2 \<le> lvl t \<Longrightarrow> i < 512 \<Longrightarrow> m (entry_addr t i) = pmem s (entry_addr t i) \<or>
      \<not> present (pmem s (entry_addr t i)) \<and> links (m (entry_addr t i)) \<and>
      (\<forall>k<512. m (entry_addr (child (m (entry_addr t i))) k) = 0)"
  shows "lvl t = length is \<Longrightarrow> \<forall>i\<in>set is. i < 512 \<Longrightarrow> open_walk m t is = open_walk (pmem s) t is"
proof (induction "pmem s" t "is" rule: open_walk.induct)
  case (3 t i j js)
  then have "2 \<le> lvl t" "i < 512" by auto
  from same [OF this] show ?case
  proof (elim disjE conjE)
    assume e: "m (entry_addr t i) = pmem s (entry_addr t i)"
    have "lvl (child (pmem s (entry_addr t i))) = length (j # js)"
      if "links (pmem s (entry_addr t i))"
      using tree_wfD(5) [OF wf, of t i] 3 that by simp
    with 3 e show ?thesis by (auto simp: Let_def)
  next
    assume e: "\<not> present (pmem s (entry_addr t i))" "links (m (entry_addr t i))"
      "\<forall>k<512. m (entry_addr (child (m (entry_addr t i))) k) = 0"
    then have "open_walk m (child (m (entry_addr t i))) (j # js)"
      using 3 by (intro open_zero_table) auto
    with e show ?thesis by (simp add: Let_def)
  qed
qed simp_all

lemma walk_open_cong:
  assumes wf: "tree_wf lvl s" and "read_cr3 s' = read_cr3 s"
    and "\<And>t i. 2 \<le> lvl t \<Longrightarrow> i < 512 \<Longrightarrow> pmem s' (entry_addr t i) = pmem s (entry_addr t i) \<or>
      \<not> present (pmem s (entry_addr t i)) \<and> links (pmem s' (entry_addr t i)) \<and>
      (\<forall>k<512. pmem s' (entry_addr (child (pmem s' (entry_addr t i))) k) = 0)"
  shows "walk_open s' va = walk_open s va"
  unfolding walk_open_def assms(2)
  by (rule open_walk_cong [OF wf assms(3)])
     (simp_all add: tree_wfD(1) [OF wf] va_path_def va_index_less)

lemma extends_refl: "extends lvl s lvl s"
  by (simp add: extends_def)

lemma extends_trans: "extends l1 s1 l2 s2 \<Longrightarrow> extends l2 s2 l3 s3 \<Longrightarrow> extends l1 s1 l3 s3"
proof -
  assume a: "extends l1 s1 l2 s2" and b: "extends l2 s2 l3 s3"
  from a have keep: "l2 t = l1 t" if "l1 t \<noteq> 0" for t
    using that by (simp add: extends_def)
  have x1: "xlate (pmem s2) t is = xlate (pmem s1) t is"
    if "l1 t = length is" "l1 t \<noteq> 0" "\<forall>i\<in>set is. i < 512" for t "is"
    using a that unfolding extends_def by blast
  have x2: "xlate (pmem s3) t is = xlate (pmem s2) t is"
    if "l2 t = length is" "l2 t \<noteq> 0" "\<forall>i\<in>set is. i < 512" for t "is"
    using b that unfolding extends_def by blast
  have xl: "xlate (pmem s3) t is = xlate (pmem s1) t is"
    if "l1 t = length is" "l1 t \<noteq> 0" "\<forall>i\<in>set is. i < 512" for t "is"
    using x1 [OF that] x2 [of t "is"] keep [OF that(2)] that by simp
  have en: "pmem s3 (entry_addr t i) = pmem s1 (entry_addr t i)"
    if "l1 t \<noteq> 0" "i < 512" "links (pmem s1 (entry_addr t i))" for t i
    using a b that keep [OF that(1)] by (simp add: extends_def)
  have "read_cr3 s3 = read_cr3 s1" using a b by (simp add: extends_def)
  moreover have "l3 t = l1 t" if "l1 t \<noteq> 0" for t
    using b keep [OF that] that by (simp add: extends_def)
  ultimately show ?thesis
    unfolding extends_def using en xl by blast
qed

lemma extends_links_kept: "extends lvl s lvl' s' \<Longrightarrow> links_kept lvl s lvl' s'"
  by (simp add: extends_def links_kept_def)

lemma extends_link:
  "extends lvl s lvl' s' \<Longrightarrow> lvl t \<noteq> 0 \<Longrightarrow> i < 512 \<Longrightarrow> links (pmem s (entry_addr t i)) \<Longrightarrow>
   links (pmem s' (entry_addr t i)) \<and> child (pmem s' (entry_addr t i)) = child (pmem s (entry_addr t i))"
  by (simp add: extends_def)

lemma alloc_frame_spec:
  assumes "tables_ok lvl s" and al: "pmm_alloc_frame (pg_pmm s) = (p, f)"
  shows "pmm_inv p" "total_frames p \<le> 2 ^ 40" "avail p \<subseteq> avail (pg_pmm s)"
    and "f \<noteq> 0 \<Longrightarrow> f \<in> avail (pg_pmm s) \<and> avail p = avail (pg_pmm s) - {f}"
    and "f \<noteq> 0 \<Longrightarrow> \<exists>g < 2 ^ 40. f = push_bit 12 g"
proof -
  have inv: "pmm_inv (pg_pmm s)" and tot: "total_frames (pg_pmm s) \<le> 2 ^ 40"
    using assms(1) by (simp_all add: tables_ok_def)
  show "pmm_inv p" using pool.inv_alloc [OF inv] al by simp
  show "total_frames p \<le> 2 ^ 40"
  proof -
    have wf: "pmm_wf (pg_pmm s)" using inv by (simp add: pmm_inv_def)
    show ?thesis by (rule pmm_alloc_cases [OF wf]) (use al tot in auto)
  qed
  show "avail p \<subseteq> avail (pg_pmm s)" using pool.alloc_shrinks [OF inv] al by simp
  assume f: "f \<noteq> 0"
  then show fa: "f \<in> avail (pg_pmm s) \<and> avail p = avail (pg_pmm s) - {f}"
    using pool.alloc_some [OF inv] al by simp
  obtain g where "g < total_frames (pg_pmm s)" "f = push_bit 12 g"
    using fa by (auto simp: avail_def free_set_def)
  moreover from this(1) tot have "g < 2 ^ 40" by (rule order_less_le_trans)
  ultimately show "\<exists>g < 2 ^ 40. f = push_bit 12 g" by blast
qed

text \<open>The case where the table is missing and a fresh one is linked in.\<close>

lemma link_fresh:
  assumes ok: "tables_ok lvl s" and t: "2 \<le> lvl t" and i: "i < 512"
    and absent: "\<not> present (pmem s (entry_addr t i))"
    and al: "pmm_alloc_frame (pg_pmm s) = (p, f)" and f: "f \<noteq> 0"
    and s': "s' = s\<lparr>pg_pmm := p, pmem := (zero_table (pmem s) f)
                     (entry_addr t i := f OR PTE_PRESENT OR PTE_WRITE OR PTE_USER)\<rparr>"
    and lvl': "lvl' = lvl(f := lvl t - 1)"
  shows "tables_ok lvl' s'" "extends lvl s lvl' s'" "lvl' f = lvl t - 1" "lvl' t = lvl t"
    "links (pmem s' (entry_addr t i))" "child (pmem s' (entry_addr t i)) = f" "grows 1 lvl s lvl' s'"
proof -
  note spec = alloc_frame_spec [OF ok al]
  have wf: "tree_wf lvl s" using ok by (simp add: tables_ok_def)
  obtain g where g: "g < 2 ^ 40" "f = push_bit 12 g" using spec(5) f by blast
  note le = link_entry [OF g]
  let ?e = "f OR PTE_PRESENT OR PTE_WRITE OR PTE_USER"
  have f0: "lvl f = 0" using tree_wfD(4) [OF wf, of f] spec(4) f by blast
  then have tf: "t \<noteq> f" using t by auto
  have rd: "pmem s' (entry_addr t' i') =
      (if t' = t \<and> i' = i then ?e else if t' = f then 0 else pmem s (entry_addr t' i'))"
    if "lvl' t' \<noteq> 0" "i' < 512" for t' i'
  proof -
    have a: "aligned t'" "aligned t"
      using that le(3) tree_wfD(2) [OF wf] t by (auto simp: lvl' split: if_splits)
    have eq: "entry_addr t' i' = entry_addr t i \<longleftrightarrow> t' = t \<and> i' = i"
      and tab: "entry_addr t' i' - f < PAGE_SIZE \<longleftrightarrow> t' = f"
      using entry_addr_inj [OF a that(2) i] entry_in_table [OF a(1) le(3) that(2)] by auto
    show ?thesis
      using tf eq tab by (cases "t' = f") (simp_all add: s' zero_table_def)
  qed
  show l1: "lvl' f = lvl t - 1" and l2: "lvl' t = lvl t" using tf by (simp_all add: lvl')
  show "links (pmem s' (entry_addr t i))" "child (pmem s' (entry_addr t i)) = f"
    using le rd [of t i] l2 t i by simp_all
  have keep: "lvl' t' = lvl t'" if "lvl t' \<noteq> 0" for t' using that f0 by (auto simp: lvl')
  have nl0: "\<not> links 0" by (simp add: links_def present_def)
  have cr: "read_cr3 s' = read_cr3 s" by (simp add: s' read_cr3_def)
  have ent: "t' = t \<and> i' = i \<and> pmem s' (entry_addr t' i') = ?e \<or>
      lvl t' \<noteq> 0 \<and> lvl' t' = lvl t' \<and> pmem s' (entry_addr t' i') = pmem s (entry_addr t' i')"
    if "2 \<le> lvl' t'" "i' < 512" "links (pmem s' (entry_addr t' i'))" for t' i'
  proof -
    have nz: "lvl' t' \<noteq> 0" using that(1) by simp
    show ?thesis
      using rd [OF nz that(2)] that nl0 by (cases "t' = f") (auto simp: lvl' split: if_splits)
  qed
  have old: "child (pmem s (entry_addr t' i')) \<noteq> f"
    if "2 \<le> lvl t'" "i' < 512" "links (pmem s (entry_addr t' i'))" for t' i'
    using tree_wfD(5) [OF wf that] that(1) f0 by auto
  have "tree_wf lvl' s'"
    unfolding tree_wf_def cr
  proof (intro conjI allI impI)
    show "lvl' (read_cr3 s) = 4" using tree_wfD(1) [OF wf] keep by simp
  next
    fix t' assume "lvl' t' \<noteq> 0"
    then have "t' = f \<or> lvl t' \<noteq> 0" by (cases "t' = f") (auto simp: lvl')
    then show "aligned t'" "t' \<noteq> 0" "t' \<notin> avail (pg_pmm s')"
      using le(3) f spec(3,4) tree_wfD(2-4) [OF wf] by (auto simp: s')
  next
    fix t' i' assume "2 \<le> lvl' t' \<and> i' < 512 \<and> links (pmem s' (entry_addr t' i'))"
    then have a: "2 \<le> lvl' t'" "i' < 512" "links (pmem s' (entry_addr t' i'))" by auto
    from ent [OF a] show "lvl' (child (pmem s' (entry_addr t' i'))) = lvl' t' - 1"
    proof (elim disjE conjE)
      assume "t' = t" "i' = i" "pmem s' (entry_addr t' i') = ?e"
      then show ?thesis using le l1 l2 by simp
    next
      assume b: "lvl' t' = lvl t'" "pmem s' (entry_addr t' i') = pmem s (entry_addr t' i')"
      then have "lvl (child (pmem s (entry_addr t' i'))) = lvl t' - 1"
        using tree_wfD(5) [OF wf, of t' i'] a by simp
      with b a(1) show ?thesis using keep by simp
    qed
  next
    fix t1 i1 t2 i2
    assume "2 \<le> lvl' t1 \<and> 2 \<le> lvl' t2 \<and> i1 < 512 \<and> i2 < 512 \<and>
      links (pmem s' (entry_addr t1 i1)) \<and> links (pmem s' (entry_addr t2 i2)) \<and>
      child (pmem s' (entry_addr t1 i1)) = child (pmem s' (entry_addr t2 i2))"
    then have a: "2 \<le> lvl' t1" "i1 < 512" "links (pmem s' (entry_addr t1 i1))"
      and b: "2 \<le> lvl' t2" "i2 < 512" "links (pmem s' (entry_addr t2 i2))"
      and eq: "child (pmem s' (entry_addr t1 i1)) = child (pmem s' (entry_addr t2 i2))" by auto
    show "t1 = t2" "i1 = i2"
      using ent [OF a] ent [OF b] eq old [of t1 i1] old [of t2 i2] a b le(2)
        tree_wfD(6) [OF wf, of t1 t2 i1 i2] by auto
  qed
  then show "tables_ok lvl' s'" using spec(1,2) by (simp add: tables_ok_def s')
  have open_eq: "walk_open s' va = walk_open s va" for va
  proof (rule walk_open_cong [OF wf cr])
    fix t' i' assume a: "2 \<le> lvl t'" "i' < (512 :: nat)"
    have "pmem s' (entry_addr f k) = 0" if "k < 512" for k
      using rd [of f k] l1 t tf that by auto
    moreover have "pmem s' (entry_addr t' i') = pmem s (entry_addr t' i')" if "(t', i') \<noteq> (t, i)"
      using rd [of t' i'] keep [of t'] a f0 that by auto
    moreover have "pmem s' (entry_addr t i) = ?e" using rd [of t i] l2 t i by simp
    ultimately show "pmem s' (entry_addr t' i') = pmem s (entry_addr t' i') \<or>
      \<not> present (pmem s (entry_addr t' i')) \<and> links (pmem s' (entry_addr t' i')) \<and>
      (\<forall>k<512. pmem s' (entry_addr (child (pmem s' (entry_addr t' i'))) k) = 0)"
      using absent le by (cases "(t', i') = (t, i)") simp_all
  qed
  have at: "aligned t" using tree_wfD(2) [OF wf, of t] t by simp
  have outside: "pmem s' a = pmem s a" if a: "\<forall>t. lvl' t \<noteq> 0 \<longrightarrow> \<not> a - t < PAGE_SIZE" for a
  proof -
    have "\<not> a - f < PAGE_SIZE" "\<not> a - t < PAGE_SIZE" using a l1 l2 t by auto
    moreover have "entry_addr t i - t < PAGE_SIZE" using entry_in_table [OF at at i] by simp
    ultimately show ?thesis by (auto simp: s' zero_table_def)
  qed
  have "card (avail (pg_pmm s)) \<le> card (avail p) + 1"
    using spec(4) [OF f] by (simp add: card_Diff_singleton)
  then have small: "grows 1 lvl s lvl' s' = links_kept lvl s lvl' s'"
    unfolding grows_def using spec(3,4) f f0 open_eq outside by (auto simp: s' lvl')
  show ext: "extends lvl s lvl' s'"
    unfolding extends_def cr
  proof (intro conjI allI impI)
    fix t' i' assume "lvl t' \<noteq> 0 \<and> i' < 512 \<and> links (pmem s (entry_addr t' i'))"
    then show "pmem s' (entry_addr t' i') = pmem s (entry_addr t' i')"
      using rd [of t' i'] keep [of t'] f0 absent by (auto simp: links_def)
  next
    fix t' and "is" :: "nat list" assume a: "lvl t' = length is \<and> lvl t' \<noteq> 0 \<and> (\<forall>i\<in>set is. i < 512)"
    show "xlate (pmem s') t' is = xlate (pmem s) t' is"
    proof (rule xlate_link [OF wf, where ?t0.0 = t and ?i0.0 = i and c = f])
      fix t1 i1 assume "lvl t1 \<noteq> 0" "i1 < 512" "(t1, i1) \<noteq> (t, i)"
      then show "pmem s' (entry_addr t1 i1) = pmem s (entry_addr t1 i1)"
        using rd [of t1 i1] keep [of t1] f0 by auto
    next
      show "child (pmem s' (entry_addr t i)) = f" by fact
    next
      fix i1 :: nat assume "i1 < 512"
      then show "pmem s' (entry_addr f i1) = 0"
        using rd [of f i1] l1 t tf by auto
    qed (use a absent t in auto)
  qed (use keep in auto)
  show "grows 1 lvl s lvl' s'" using small extends_links_kept [OF ext] by simp
qed

lemma next_table_step:
  assumes ok: "tables_ok lvl s" and t: "2 \<le> lvl t" and i: "i < 512"
    and nt: "next_table s t i True = (s', c)"
  obtains lvl' where "tables_ok lvl' s'" "extends lvl s lvl' s'" "grows 1 lvl s lvl' s'"
    "c \<noteq> 0 \<Longrightarrow> lvl' c = lvl t - 1 \<and> lvl' t = lvl t \<and> links (pmem s' (entry_addr t i)) \<and>
       child (pmem s' (entry_addr t i)) = c"
    "\<not> present (pmem s (entry_addr t i)) \<and> avail (pg_pmm s) \<noteq> {} \<or> links (pmem s (entry_addr t i)) \<Longrightarrow> c \<noteq> 0"
proof -
  let ?e = "pmem s (entry_addr t i)"
  have wf: "tree_wf lvl s" and inv: "pmm_inv (pg_pmm s)" using ok by (simp_all add: tables_ok_def)
  note g0 = grows_mono [OF grows_refl, of 1]
  consider (absent) "\<not> present ?e" | (large) "present ?e" "\<not> links ?e" | (link) "links ?e"
    by (auto simp: links_def)
  then show thesis
  proof cases
    case link
    then have "s' = s" "c = child ?e"
      using nt by (auto simp: next_table_def Let_def links_def present_def child_def)
    moreover have "lvl (child ?e) = lvl t - 1" "child ?e \<noteq> 0"
      using tree_wfD(5) [OF wf t i link] tree_wfD(3) [OF wf, of "child ?e"] t by auto
    ultimately show thesis
      using ok link g0 by (intro that [of lvl]) (simp_all add: extends_refl)
  next
    case large
    then have "s' = s" "c = 0"
      using nt by (auto simp: next_table_def Let_def links_def present_def)
    with ok large g0 show thesis by (intro that [of lvl]) (simp_all add: extends_refl)
  next
    case absent
    obtain p f where al: "pmm_alloc_frame (pg_pmm s) = (p, f)" by fastforce
    show thesis
    proof (cases "f = 0")
      case True
      then have s': "s' = s\<lparr>pg_pmm := p\<rparr>" "c = 0"
        using nt absent al by (auto simp: next_table_def Let_def present_def)
      have p: "p = pg_pmm s" "avail (pg_pmm s) = {}"
        using pool.alloc_none [OF inv] al True by simp_all
      then have "s' = s" using s' by simp
      with p(2) ok s'(2) g0 absent show thesis
        by (intro that [of lvl]) (simp_all add: extends_refl links_def)
    next
      case False
      then have s': "s' = s\<lparr>pg_pmm := p, pmem := (zero_table (pmem s) f)
          (entry_addr t i := f OR PTE_PRESENT OR PTE_WRITE OR PTE_USER)\<rparr>" and c: "c = f"
        using nt absent al by (auto simp: next_table_def Let_def present_def)
      note l = link_fresh [OF ok t i absent al False s' refl]
      show thesis
        by (rule that [OF l(1,2,7)]) (use l(3-6) c False in auto)
    qed
  qed
qed

section \<open>Mapping and unmapping a page\<close>

lemma va_path_bound: "\<forall>i\<in>set (va_path va). i < 512"
  by (simp add: va_path_def va_index_less)

lemma mapping_extends:
  "tables_ok lvl s \<Longrightarrow> extends lvl s lvl' s' \<Longrightarrow> mapping s' va = mapping s va"
proof -
  assume ok: "tables_ok lvl s" and ext: "extends lvl s lvl' s'"
  have "lvl (read_cr3 s) = length (va_path va)"
    using ok tree_wfD(1) [of lvl s] by (simp add: tables_ok_def va_path_def)
  moreover from this have "lvl (read_cr3 s) \<noteq> 0" by (simp add: va_path_def)
  ultimately have "xlate (pmem s') (read_cr3 s) (va_path va) = xlate (pmem s) (read_cr3 s) (va_path va)"
    using ext va_path_bound [of va] unfolding extends_def by blast
  with ext show ?thesis by (simp add: mapping_def extends_def)
qed

text \<open>Writing a leaf entry of a level-1 table.\<close>

lemma set_leaf_spec:
  assumes ok: "tables_ok lvl s" and pt: "lvl pt = 1"
    and leaf: "leaf (pmem s) (read_cr3 s) (va_path va) = Some (pt, va_index 12 va)"
  shows "tables_ok lvl (set_leaf va pt (va_index 12 va) e s)"
    and "mapping (set_leaf va pt (va_index 12 va) e s) va = (if present e then Some e else None)"
    and "va_path va' \<noteq> va_path va \<Longrightarrow> mapping (set_leaf va pt (va_index 12 va) e s) va' = mapping s va'"
    and "grows 0 lvl s lvl (set_leaf va pt (va_index 12 va) e s)"
proof -
  let ?i = "va_index 12 va" and ?s = "set_leaf va pt (va_index 12 va) e s"
  have wf: "tree_wf lvl s" using ok by (simp add: tables_ok_def)
  have mem: "pmem ?s = (pmem s)(entry_addr pt ?i := e)" and cr: "read_cr3 ?s = read_cr3 s"
    and pm: "pg_pmm ?s = pg_pmm s"
    by (simp_all add: set_leaf_def arch_tlb_flush_def read_cr3_def)
  have same: "pmem ?s (entry_addr t i) = pmem s (entry_addr t i)"
    if "lvl t \<noteq> 0" "i < 512" "(t, i) \<noteq> (pt, ?i)" for t i
    using that entry_addr_inj [of t pt i ?i] tree_wfD(2) [OF wf] pt va_index_less mem by auto
  have same2: "pmem ?s (entry_addr t i) = pmem s (entry_addr t i)" if "2 \<le> lvl t" "i < 512" for t i
    using that pt by (intro same) auto
  have "tree_wf lvl ?s"
    unfolding tree_wf_def cr pm
  proof (intro conjI allI impI)
    fix t assume "lvl t \<noteq> 0"
    then show "aligned t" "t \<noteq> 0" "t \<notin> avail (pg_pmm s)" using tree_wfD(2-4) [OF wf] by blast+
  next
    fix t i assume "2 \<le> lvl t \<and> i < 512 \<and> links (pmem ?s (entry_addr t i))"
    then show "lvl (child (pmem ?s (entry_addr t i))) = lvl t - 1"
      using same2 [of t i] tree_wfD(5) [OF wf, of t i] by simp
  next
    fix t i t' i'
    assume "2 \<le> lvl t \<and> 2 \<le> lvl t' \<and> i < 512 \<and> i' < 512 \<and>
      links (pmem ?s (entry_addr t i)) \<and> links (pmem ?s (entry_addr t' i')) \<and>
      child (pmem ?s (entry_addr t i)) = child (pmem ?s (entry_addr t' i'))"
    then show "t = t'" "i = i'"
      using same2 [of t i] same2 [of t' i'] tree_wfD(6) [OF wf, of t t' i i'] by simp_all
  qed (rule tree_wfD(1) [OF wf])
  then show ok': "tables_ok lvl ?s" using ok by (simp add: tables_ok_def pm)
  have at: "aligned pt" using tree_wfD(2) [OF wf] pt by simp
  have "entry_addr pt ?i - pt < PAGE_SIZE" using entry_in_table [OF at at va_index_less] by simp
  then have "pmem ?s a = pmem s a" if "\<forall>t. lvl t \<noteq> 0 \<longrightarrow> \<not> a - t < PAGE_SIZE" for a
    using that [THEN spec, of pt] pt by (auto simp: mem)
  moreover have "walk_open ?s v = walk_open s v" for v
    by (rule walk_open_cong [OF wf cr]) (use same2 in blast)
  moreover have "links_kept lvl s lvl ?s" using same2 by (simp add: links_kept_def cr)
  ultimately show "grows 0 lvl s lvl ?s" by (simp add: grows_def pm)
  have lv: "lvl (read_cr3 s) = length (va_path v)" for v
    using tree_wfD(1) [OF wf] by (simp add: va_path_def)
  have new: "mapping ?s v = (if leaf (pmem s) (read_cr3 s) (va_path v) = Some (pt, ?i)
      then (if present e then Some e else None) else mapping s v)" for v
    unfolding mapping_def cr
    by (rule xlate_set_leaf [OF wf pt]) (use same in \<open>simp_all add: lv va_path_bound\<close>, simp add: mem)
  show "mapping ?s va = (if present e then Some e else None)"
    unfolding new by (simp add: leaf)
  assume ne: "va_path va' \<noteq> va_path va"
  have "leaf (pmem s) (read_cr3 s) (va_path va') \<noteq> Some (pt, ?i)"
  proof
    assume eq: "leaf (pmem s) (read_cr3 s) (va_path va') = Some (pt, ?i)"
    have len: "lvl (read_cr3 s) = 4" "length (va_path v) = 4" for v
      using tree_wfD(1) [OF wf] by (simp_all add: va_path_def)
    have "\<forall>i\<in>set (va_path va') \<union> set (va_path va). i < 512"
      using va_path_bound by blast
    with leaf_unique [OF wf eq leaf] ne show False by (simp add: len)
  qed
  then show "mapping ?s va' = mapping s va'" by (simp add: new)
qed

lemma present_flags: "present (e OR flags_to_pte flags)"
  unfolding present_bit by (auto simp: bit_or_iff flags_to_pte_def Let_def)

lemma leaf_va_path:
  assumes "links (pmem s (entry_addr (read_cr3 s) (va_index 39 va)))"
    "child (pmem s (entry_addr (read_cr3 s) (va_index 39 va))) = pdpt"
    "links (pmem s (entry_addr pdpt (va_index 30 va)))" "child (pmem s (entry_addr pdpt (va_index 30 va))) = pd"
    "links (pmem s (entry_addr pd (va_index 21 va)))" "child (pmem s (entry_addr pd (va_index 21 va))) = pt"
  shows "leaf (pmem s) (read_cr3 s) (va_path va) = Some (pt, va_index 12 va)"
  using assms by (simp add: va_path_def Let_def)

text \<open>\<open>vmm_map\<close> maps the page of \<open>va\<close> and no other page; if it fails it maps nothing, and with
  an open way and three free frames it does not fail.\<close>

lemma vmm_map_step:
  assumes ok: "tables_ok lvl s" and vm: "vmm_map s va pa flags = (s', r)"
  obtains lvl' where "tables_ok lvl' s'" "grows 3 lvl s lvl' s'"
    "if r = 0 then mapping s' va = Some ((pa AND ADDR_MASK) OR flags_to_pte flags) \<and>
        (\<forall>va'. va_path va' \<noteq> va_path va \<longrightarrow> mapping s' va' = mapping s va')
     else r = - 1 \<and> (\<forall>va'. mapping s' va' = mapping s va')"
    "walk_open s va \<Longrightarrow> 3 \<le> card (avail (pg_pmm s)) \<Longrightarrow> r = 0"
proof -
  let ?e = "(pa AND ADDR_MASK) OR flags_to_pte flags"
  obtain s1 pdpt where n1: "next_table s (read_cr3 s) (va_index 39 va) True = (s1, pdpt)" by fastforce
  obtain s2 pd where n2: "next_table s1 pdpt (va_index 30 va) True = (s2, pd)" by fastforce
  obtain s3 pt where n3: "next_table s2 pd (va_index 21 va) True = (s3, pt)" by fastforce
  have root: "lvl (read_cr3 s) = 4" using ok tree_wfD(1) by (auto simp: tables_ok_def)
  have cardI: "A \<noteq> {}" if "1 \<le> card A" for A :: "u64 set" using that by auto
  obtain l1 where a: "tables_ok l1 s1" "extends lvl s l1 s1" "grows 1 lvl s l1 s1"
    "pdpt \<noteq> 0 \<Longrightarrow> l1 pdpt = 3 \<and> l1 (read_cr3 s) = 4 \<and> links (pmem s1 (entry_addr (read_cr3 s) (va_index 39 va))) \<and>
       child (pmem s1 (entry_addr (read_cr3 s) (va_index 39 va))) = pdpt"
    and a0: "\<not> present (pmem s (entry_addr (read_cr3 s) (va_index 39 va))) \<and> avail (pg_pmm s) \<noteq> {} \<or>
       links (pmem s (entry_addr (read_cr3 s) (va_index 39 va))) \<Longrightarrow> pdpt \<noteq> 0"
    by (rule next_table_step [OF ok _ va_index_less n1]) (auto simp: root)
  note m1 = mapping_extends [OF ok a(2)]
  have ne1: "pdpt \<noteq> 0" if "walk_open s va" "3 \<le> card (avail (pg_pmm s))"
    using that a0 cardI [of "avail (pg_pmm s)"] by (auto simp: walk_open_def va_path_def Let_def)
  show thesis
  proof (cases "pdpt = 0")
    case True
    with vm n1 have "s' = s1" "r = - 1" by (auto simp: vmm_map_def)
    with a(1) m1 ne1 True grows_mono [OF a(3), of 3] show thesis by (intro that [of l1]) auto
  next
    case pdpt: False
    note a3 = a(4) [OF pdpt]
    have cr1: "read_cr3 s1 = read_cr3 s" using a(2) by (simp add: extends_def)
    obtain l2 where b: "tables_ok l2 s2" "extends l1 s1 l2 s2" "grows 1 l1 s1 l2 s2"
      "pd \<noteq> 0 \<Longrightarrow> l2 pd = 2 \<and> l2 pdpt = 3 \<and> links (pmem s2 (entry_addr pdpt (va_index 30 va))) \<and>
         child (pmem s2 (entry_addr pdpt (va_index 30 va))) = pd"
      and b0: "\<not> present (pmem s1 (entry_addr pdpt (va_index 30 va))) \<and> avail (pg_pmm s1) \<noteq> {} \<or>
         links (pmem s1 (entry_addr pdpt (va_index 30 va))) \<Longrightarrow> pd \<noteq> 0"
      by (rule next_table_step [OF a(1) _ va_index_less n2]) (auto simp: a3)
    note m2 = mapping_extends [OF a(1) b(2)]
    note g2 = grows_trans [OF a(3) b(3)]
    have o1: "walk_open s1 va" "2 \<le> card (avail (pg_pmm s1))"
      if "walk_open s va" "3 \<le> card (avail (pg_pmm s))"
      using a(3) that by (auto simp: grows_def)
    have ne2: "pd \<noteq> 0" if "walk_open s va" "3 \<le> card (avail (pg_pmm s))"
      using o1 [OF that] a3 b0 cardI [of "avail (pg_pmm s1)"]
      by (auto simp: walk_open_def va_path_def Let_def cr1 links_def)
    show thesis
    proof (cases "pd = 0")
      case True
      with vm n1 n2 pdpt have "s' = s2" "r = - 1" by (auto simp: vmm_map_def)
      with b(1) m1 m2 ne2 True grows_mono [OF g2, of 3] show thesis by (intro that [of l2]) auto
    next
      case pd: False
      note b3 = b(4) [OF pd]
      have cr2: "read_cr3 s2 = read_cr3 s" using b(2) cr1 by (simp add: extends_def)
      obtain l3 where c: "tables_ok l3 s3" "extends l2 s2 l3 s3" "grows 1 l2 s2 l3 s3"
        "pt \<noteq> 0 \<Longrightarrow> l3 pt = 1 \<and> l3 pd = 2 \<and> links (pmem s3 (entry_addr pd (va_index 21 va))) \<and>
           child (pmem s3 (entry_addr pd (va_index 21 va))) = pt"
        and c0: "\<not> present (pmem s2 (entry_addr pd (va_index 21 va))) \<and> avail (pg_pmm s2) \<noteq> {} \<or>
           links (pmem s2 (entry_addr pd (va_index 21 va))) \<Longrightarrow> pt \<noteq> 0"
        by (rule next_table_step [OF b(1) _ va_index_less n3]) (auto simp: b3)
      note m3 = mapping_extends [OF b(1) c(2)]
      note g3 = grows_trans [OF g2 c(3)]
      have e4: "links (pmem s2 (entry_addr (read_cr3 s) (va_index 39 va)))"
        "child (pmem s2 (entry_addr (read_cr3 s) (va_index 39 va))) = pdpt"
        using extends_link [OF b(2), of "read_cr3 s" "va_index 39 va"] a3 va_index_less by simp_all
      have o2: "walk_open s2 va" "1 \<le> card (avail (pg_pmm s2))"
        if "walk_open s va" "3 \<le> card (avail (pg_pmm s))"
        using g2 that by (auto simp: grows_def)
      have ne3: "pt \<noteq> 0" if "walk_open s va" "3 \<le> card (avail (pg_pmm s))"
        using o2 [OF that] e4 b3 c0 cardI [of "avail (pg_pmm s2)"]
        by (auto simp: walk_open_def va_path_def Let_def cr2 links_def)
      show thesis
      proof (cases "pt = 0")
        case True
        with vm n1 n2 n3 pdpt pd have "s' = s3" "r = - 1" by (auto simp: vmm_map_def)
        with c(1) m1 m2 m3 ne3 True grows_mono [OF g3, of 3] show thesis by (intro that [of l3]) auto
      next
        case pt: False
        note c3 = c(4) [OF pt]
        have s': "s' = set_leaf va pt (va_index 12 va) ?e s3" "r = 0"
          using vm n1 n2 n3 pdpt pd pt by (auto simp: vmm_map_def)
        have cr: "read_cr3 s3 = read_cr3 s" using c(2) cr2 by (simp add: extends_def)
        have "leaf (pmem s3) (read_cr3 s3) (va_path va) = Some (pt, va_index 12 va)"
        proof (rule leaf_va_path)
          have l2r: "l2 (read_cr3 s) \<noteq> 0" using b(2) a3 by (simp add: extends_def)
          from extends_link [OF c(2) l2r va_index_less e4(1)] e4(2)
          show "links (pmem s3 (entry_addr (read_cr3 s3) (va_index 39 va)))"
            "child (pmem s3 (entry_addr (read_cr3 s3) (va_index 39 va))) = pdpt" by (simp_all add: cr)
          from extends_link [OF c(2), of pdpt "va_index 30 va"] b3 va_index_less
          show "links (pmem s3 (entry_addr pdpt (va_index 30 va)))"
            "child (pmem s3 (entry_addr pdpt (va_index 30 va))) = pd" by simp_all
        qed (use c3 in auto)
        note leaf = set_leaf_spec [OF c(1) conjunct1 [OF c3] this, where e = ?e]
        show thesis
        proof (rule that [of l3])
          show "grows 3 lvl s l3 s'" using grows_mono [OF grows_trans [OF g3 leaf(4)], of 3] by (simp add: s')
        qed (use leaf m1 m2 m3 in \<open>auto simp: s' present_flags\<close>)
      qed
    qed
  qed
qed

lemma next_table_lookup:
  "next_table s t i False = (s', c) \<Longrightarrow> s' = s \<and> c = (if links (pmem s (entry_addr t i)) then child (pmem s (entry_addr t i)) else 0)"
  by (auto simp: next_table_def Let_def links_def present_def child_def split: if_splits)

text \<open>After \<open>vmm_unmap\<close> the page of \<open>va\<close> has no 4 KiB mapping, and no other page has changed.\<close>

theorem vmm_unmap_spec:
  assumes ok: "tables_ok lvl s"
  shows "tables_ok lvl (vmm_unmap s va) \<and> mapping (vmm_unmap s va) va = None \<and>
    (\<forall>va'. va_path va' \<noteq> va_path va \<longrightarrow> mapping (vmm_unmap s va) va' = mapping s va')"
proof -
  have wf: "tree_wf lvl s" using ok by (simp add: tables_ok_def)
  let ?t4 = "read_cr3 s" and ?m = "pmem s"
  let ?e4 = "?m (entry_addr ?t4 (va_index 39 va))"
  let ?e3 = "?m (entry_addr (child ?e4) (va_index 30 va))"
  let ?e2 = "?m (entry_addr (child ?e3) (va_index 21 va))"
  have l4: "lvl ?t4 = 4" using tree_wfD(1) [OF wf] .
  have c4: "lvl (child ?e4) = 3" if "links ?e4"
    using tree_wfD(5) [OF wf _ va_index_less that] l4 by simp
  have c3: "lvl (child ?e3) = 2" if "links ?e4" "links ?e3"
    using tree_wfD(5) [OF wf _ va_index_less that(2)] c4 that by simp
  have c2: "lvl (child ?e2) = 1" if "links ?e4" "links ?e3" "links ?e2"
    using tree_wfD(5) [OF wf _ va_index_less that(3)] c3 that by simp
  have nz: "child ?e4 \<noteq> 0" if "links ?e4" using tree_wfD(3) [OF wf] c4 [OF that] by force
  have nz3: "child ?e3 \<noteq> 0" if "links ?e4" "links ?e3" using tree_wfD(3) [OF wf] c3 [OF that] by force
  have nz2: "child ?e2 \<noteq> 0" if "links ?e4" "links ?e3" "links ?e2"
    using tree_wfD(3) [OF wf] c2 [OF that] by force
  have lk: "next_table s t i False = (s, if links (?m (entry_addr t i)) then child (?m (entry_addr t i)) else 0)" for t i
    by (auto simp: next_table_def Let_def links_def present_def child_def)
  show ?thesis
  proof (cases "links ?e4 \<and> links ?e3 \<and> links ?e2")
    case True
    then have u: "vmm_unmap s va = set_leaf va (child ?e2) (va_index 12 va) 0 s"
      using nz nz3 nz2 by (simp add: vmm_unmap_def lk)
    have "leaf ?m ?t4 (va_path va) = Some (child ?e2, va_index 12 va)"
      using True by (intro leaf_va_path) simp_all
    note l = set_leaf_spec [OF ok _ this, where e = 0]
    have np: "\<not> present 0" by (simp add: present_def)
    show ?thesis unfolding u using l True c2 np by auto
  next
    case False
    then have "vmm_unmap s va = s"
      using nz nz3 by (auto simp: vmm_unmap_def lk)
    moreover have "mapping s va = None"
      using False by (auto simp: mapping_def va_path_def Let_def)
    ultimately show ?thesis using ok by simp
  qed
qed

section \<open>A small instance\<close>

text \<open>Four tables at 0x1000 to 0x4000, linked along the path of address 0, and no free frame.\<close>

definition demo_paging :: paging where
  "demo_paging =
     \<lparr>pg_pmm = \<lparr>bitmap = (\<lambda>_. 0), total_frames = 0, free_frames = 0, alloc_hint = 1\<rparr>,
      pmem = (\<lambda>a. if a = 0x1000 then 0x2007 else if a = 0x2000 then 0x3007
                  else if a = 0x3000 then 0x4007 else if a = 0x4000 then 0x5007 else 0),
      cr3 = 0x1000, tlb_flushes = [], kmem_top = 0x200000, clobbered = False\<rparr>"

definition demo_lvl :: "u64 \<Rightarrow> nat" where
  "demo_lvl t = (if t = 0x1000 then 4 else if t = 0x2000 then 3 else if t = 0x3000 then 2
     else if t = 0x4000 then 1 else 0)"

lemma demo_lvl_pos: "demo_lvl t \<noteq> 0 \<Longrightarrow> t = 0x1000 \<or> t = 0x2000 \<or> t = 0x3000 \<or> t = 0x4000"
  by (auto simp: demo_lvl_def split: if_splits)

lemma demo_aligned: "demo_lvl t \<noteq> 0 \<Longrightarrow> aligned t"
  by (drule demo_lvl_pos) (auto simp: aligned_def)

lemma demo_entry:
  assumes "2 \<le> demo_lvl t" "i < 512" "links (pmem demo_paging (entry_addr t i))"
  shows "i = 0 \<and> demo_lvl (child (pmem demo_paging (entry_addr t i))) = demo_lvl t - 1 \<and>
    child (pmem demo_paging (entry_addr t i)) = t + 0x1000"
proof -
  have t: "t = 0x1000 \<or> t = 0x2000 \<or> t = 0x3000"
    using assms(1) by (auto simp: demo_lvl_def split: if_splits)
  have al: "aligned t" using assms(1) by (intro demo_aligned) simp
  have e: "entry_addr t i = q \<longleftrightarrow> t = q \<and> i = 0" if "aligned q" for q
    using entry_addr_inj [OF al that assms(2), of 0] by (simp add: entry_addr_def)
  have q: "aligned 0x1000" "aligned 0x2000" "aligned 0x3000" "aligned 0x4000"
    by (simp_all add: aligned_def)
  have m: "pmem demo_paging (entry_addr t i) =
      (if i = 0 then (if t = 0x1000 then 0x2007 else if t = 0x2000 then 0x3007 else 0x4007) else 0)"
  proof (cases "i = 0")
    case True
    then show ?thesis using t by (auto simp: demo_paging_def entry_addr_def)
  next
    case False
    then show ?thesis by (simp add: demo_paging_def e q)
  qed
  show ?thesis
    using assms(3) t unfolding m by (auto simp: links_def present_def child_def demo_lvl_def split: if_splits)
qed

lemma demo_tables_ok: "tables_ok demo_lvl demo_paging"
proof -
  have av: "avail (pg_pmm demo_paging) = {}" by (simp add: demo_paging_def avail_def free_set_def)
  have "tree_wf demo_lvl demo_paging"
    unfolding tree_wf_def av
  proof (intro conjI allI impI)
    show "demo_lvl (read_cr3 demo_paging) = 4" by (simp add: demo_lvl_def read_cr3_def demo_paging_def)
  next
    fix t assume "demo_lvl t \<noteq> 0"
    then show "aligned t" "t \<noteq> 0" using demo_aligned demo_lvl_pos by fastforce+
  next
    fix t i assume "2 \<le> demo_lvl t \<and> i < 512 \<and> links (pmem demo_paging (entry_addr t i))"
    then show "demo_lvl (child (pmem demo_paging (entry_addr t i))) = demo_lvl t - 1"
      using demo_entry by blast
  next
    fix t i t' i'
    assume "2 \<le> demo_lvl t \<and> 2 \<le> demo_lvl t' \<and> i < 512 \<and> i' < 512 \<and>
      links (pmem demo_paging (entry_addr t i)) \<and> links (pmem demo_paging (entry_addr t' i')) \<and>
      child (pmem demo_paging (entry_addr t i)) = child (pmem demo_paging (entry_addr t' i'))"
    then show "t = t'" "i = i'" using demo_entry [of t i] demo_entry [of t' i'] by auto
  qed simp
  moreover have "pmm_inv (pg_pmm demo_paging)"
    by (simp add: pmm_inv_def pmm_wf_def count_ok_def free_set_def demo_paging_def)
  ultimately show ?thesis by (simp add: tables_ok_def demo_paging_def)
qed

section \<open>Properties\<close>

text \<open>C28: \<open>vmm_map\<close>, when it succeeds, maps the page of the address to the given frame with the
  given rights and leaves the mapping of every other page alone; when it fails it leaves every
  mapping alone.  In both cases the page tables stay well formed.\<close>

theorem vmm_map_exact:
  assumes "tables_ok lvl s" and "vmm_map s va pa flags = (s', r)"
  shows "(\<exists>lvl'. tables_ok lvl' s') \<and>
    (if r = 0 then mapping s' va = Some ((pa AND ADDR_MASK) OR flags_to_pte flags) \<and>
        (\<forall>va'. va_path va' \<noteq> va_path va \<longrightarrow> mapping s' va' = mapping s va')
     else r = - 1 \<and> (\<forall>va'. mapping s' va' = mapping s va'))"
  by (rule vmm_map_step [OF assms]) blast

lemma demo_map: "snd (vmm_map demo_paging 0x3000 0x6000 (VM_PRESENT OR VM_WRITE OR VM_USER)) = 0"
  by (simp add: vmm_map_def next_table_def Let_def demo_paging_def entry_addr_def va_index_def read_cr3_def)

theorem vmm_map_exact_witness:
  "mapping (fst (vmm_map demo_paging 0x3000 0x6000 (VM_PRESENT OR VM_WRITE OR VM_USER))) 0x3000 = Some 0x6007"
proof -
  obtain s' where e: "vmm_map demo_paging 0x3000 0x6000 (VM_PRESENT OR VM_WRITE OR VM_USER) = (s', 0)"
    using demo_map by (metis prod.collapse)
  show ?thesis
    using vmm_map_exact [OF demo_tables_ok e] e by (simp add: flags_to_pte_def Let_def)
qed

text \<open>After \<open>vmm_unmap\<close> the page of the address has no 4 KiB mapping, every other page keeps
  its mapping, and the page tables stay well formed.\<close>

theorem vmm_unmap_exact:
  assumes "tables_ok lvl s"
  shows "tables_ok lvl (vmm_unmap s va) \<and> mapping (vmm_unmap s va) va = None \<and>
    (\<forall>va'. va_path va' \<noteq> va_path va \<longrightarrow> mapping (vmm_unmap s va) va' = mapping s va')"
  by (rule vmm_unmap_spec [OF assms])

theorem vmm_unmap_exact_witness:
  "mapping demo_paging 0 = Some 0x5007 \<and> mapping (vmm_unmap demo_paging 0) 0 = None"
proof -
  have "mapping demo_paging 0 = Some 0x5007"
    by (simp add: mapping_def va_path_def va_index_def demo_paging_def entry_addr_def read_cr3_def
        links_def present_def child_def Let_def)
  then show ?thesis using vmm_unmap_exact [OF demo_tables_ok, of 0] by simp
qed

end
