(* ===== verification/UMem.thy ===== *)
theory UMem
  imports CMem Paging
begin

text \<open>
  The memory of the programs, as the kernel reaches it when a system call gives it a pointer:
  the processor translates each byte's address through the page tables of \<open>Paging\<close>, large
  pages included, and an address without a translation is a page fault in the kernel, for
  which \<open>copy_in\<close> and \<open>copy_out\<close> return \<open>None\<close>.  The kernel runs at privilege 0 with
  write protection off, so the USER and WRITE bits of the entries do not matter to it.
\<close>

section \<open>Translation\<close>

text \<open>What the tables say does not depend on the record of stray stores.\<close>

lemma flag_frame [frame_simps, simp]:
  "tables_ok lvl (s\<lparr>clobbered := b\<rparr>) = tables_ok lvl s" "tables_ok lvl (s\<lparr>kmem_top := a\<rparr>) = tables_ok lvl s"
  "tree_wf lvl (s\<lparr>clobbered := b\<rparr>) = tree_wf lvl s" "tree_wf lvl (s\<lparr>kmem_top := a\<rparr>) = tree_wf lvl s"
  "mapping (s\<lparr>clobbered := b\<rparr>) = mapping s" "mapping (s\<lparr>kmem_top := a\<rparr>) = mapping s"
  "walk_open (s\<lparr>clobbered := b\<rparr>) = walk_open s" "walk_open (s\<lparr>kmem_top := a\<rparr>) = walk_open s"
  "read_cr3 (s\<lparr>clobbered := b\<rparr>) = read_cr3 s" "read_cr3 (s\<lparr>kmem_top := a\<rparr>) = read_cr3 s"
  by (simp_all add: tables_ok_def tree_wf_def mapping_def walk_open_def read_cr3_def fun_eq_iff)

definition canonical :: "u64 \<Rightarrow> bool" where
  "canonical va \<longleftrightarrow> drop_bit 47 va = 0 \<or> drop_bit 47 va = 0x1FFFF"

definition page_addr :: "u64 \<Rightarrow> nat \<Rightarrow> u64 \<Rightarrow> u64" where
  "page_addr e k va = (child e AND NOT (mask k)) OR (va AND mask k)"

definition phys :: "paging \<Rightarrow> u64 \<Rightarrow> u64 option" where
  "phys s va =
     (let m = pmem s; e4 = m (entry_addr (read_cr3 s) (va_index 39 va)) in
      if \<not> canonical va \<or> \<not> links e4 then None else
      let e3 = m (entry_addr (child e4) (va_index 30 va)) in
      if \<not> present e3 then None else if \<not> links e3 then Some (page_addr e3 30 va) else
      let e2 = m (entry_addr (child e3) (va_index 21 va)) in
      if \<not> present e2 then None else if \<not> links e2 then Some (page_addr e2 21 va) else
      let e1 = m (entry_addr (child e2) (va_index 12 va)) in
      if \<not> present e1 then None else Some (page_addr e1 12 va))"

text \<open>A program may store where every entry on the way lets user mode write.\<close>

definition user_entry :: "u64 \<Rightarrow> bool" where
  "user_entry e \<longleftrightarrow> present e \<and> e AND PTE_WRITE \<noteq> 0 \<and> e AND PTE_USER \<noteq> 0"

definition user_writable :: "paging \<Rightarrow> u64 \<Rightarrow> bool" where
  "user_writable s va =
     (let m = pmem s; e4 = m (entry_addr (read_cr3 s) (va_index 39 va));
          e3 = m (entry_addr (child e4) (va_index 30 va));
          e2 = m (entry_addr (child e3) (va_index 21 va));
          e1 = m (entry_addr (child e2) (va_index 12 va))
      in canonical va \<and> links e4 \<and> user_entry e4 \<and> user_entry e3 \<and>
         (links e3 \<longrightarrow> user_entry e2 \<and> (links e2 \<longrightarrow> user_entry e1)))"

section \<open>Bytes of physical memory\<close>

definition word_base :: "u64 \<Rightarrow> u64" where
  "word_base pa = pa AND NOT 7"

definition byte_at :: "(u64 \<Rightarrow> u64) \<Rightarrow> u64 \<Rightarrow> u8" where
  "byte_at m pa = ucast (drop_bit (8 * unat (pa AND 7)) (m (word_base pa)))"

definition put_byte :: "u64 \<Rightarrow> u8 \<Rightarrow> (u64 \<Rightarrow> u64) \<Rightarrow> (u64 \<Rightarrow> u64)" where
  "put_byte pa b m =
     (let k = 8 * unat (pa AND 7) in
      m(word_base pa := (m (word_base pa) AND NOT (push_bit k (mask 8))) OR push_bit k (ucast b)))"

section \<open>Messages in the memory of a program\<close>

definition msg_bytes :: "ipc_msg \<Rightarrow> nat \<Rightarrow> u8" where
  "msg_bytes x i = write_msg (\<lambda>_. 0) 0 x (of_nat i)"

definition msg_mapped :: "paging \<Rightarrow> u64 \<Rightarrow> bool" where
  "msg_mapped s p = list_all (\<lambda>i. phys s (p + of_nat i) \<noteq> None) [0..<32]"

definition user_byte :: "paging \<Rightarrow> u64 \<Rightarrow> u8" where
  "user_byte s va = (case phys s va of None \<Rightarrow> 0 | Some pa \<Rightarrow> byte_at (pmem s) pa)"

definition copy_in :: "paging \<Rightarrow> u64 \<Rightarrow> ipc_msg option" where
  "copy_in s p = (if msg_mapped s p then Some (read_msg (user_byte s) p) else None)"

definition copy_out :: "paging \<Rightarrow> u64 \<Rightarrow> ipc_msg \<Rightarrow> paging option" where
  "copy_out s p x =
     (if msg_mapped s p
      then Some (s\<lparr>pmem := fold (\<lambda>i. put_byte (the (phys s (p + of_nat i))) (msg_bytes x i)) [0..<32] (pmem s),
                    clobbered := clobbered s \<or> list_ex (\<lambda>i. in_kernel s (the (phys s (p + of_nat i)))) [0..<32]\<rparr>)
      else None)"

section \<open>Reading a byte after writing one\<close>

lemma low3_bound: "unat (pa AND 7 :: u64) < 8"
proof -
  have "pa AND 7 = take_bit 3 pa" by (simp add: take_bit_eq_mask mask_eq_exp_minus_1)
  then show ?thesis by (simp add: unsigned_take_bit_eq take_bit_nat_def)
qed

lemma split_addr: "word_base pa OR (pa AND 7) = pa"
  by (simp add: word_base_def flip: bit.conj_disj_distrib)

lemma addr_eqI: "word_base pa = word_base qa \<Longrightarrow> unat (pa AND 7) = unat (qa AND 7) \<Longrightarrow> pa = qa"
  by (metis split_addr unsigned_word_eqI)

lemma bit_byte_at:
  "bit (byte_at m pa) n \<longleftrightarrow> n < 8 \<and> bit (m (word_base pa)) (8 * unat (pa AND 7) + n)"
  by (auto simp: byte_at_def bit_ucast_iff bit_drop_bit_eq dest: bit_imp_le_length)

lemma bit_put_word:
  "bit ((w AND NOT (push_bit k (mask 8))) OR push_bit k (ucast (b :: u8)) :: u64) n \<longleftrightarrow>
     (if k \<le> n \<and> n < k + 8 then n < 64 \<and> bit b (n - k) else bit w n)"
  by (auto simp: bit_or_iff bit_and_iff bit_not_iff bit_push_bit_iff bit_ucast_iff bit_mask_iff
      dest: bit_imp_le_length)

lemma byte_at_put [simp]:
  "byte_at (put_byte pa b m) qa = (if qa = pa then b else byte_at m qa)"
proof (rule bit_word_eqI)
  fix n :: nat assume n: "n < LENGTH(8)"
  let ?k = "8 * unat (pa AND 7)" and ?j = "8 * unat (qa AND 7)"
  have kj: "?k \<le> ?j + n \<and> ?j + n < ?k + 8 \<longleftrightarrow> unat (pa AND 7) = unat (qa AND 7)"
    using n by auto
  have lt: "?j + n < 64" using low3_bound [of qa] n by simp
  show "bit (byte_at (put_byte pa b m) qa) n = bit (if qa = pa then b else byte_at m qa) n"
  proof (cases "word_base qa = word_base pa")
    case True
    then show ?thesis
      using n kj lt addr_eqI [of qa pa]
      by (auto simp: bit_byte_at put_byte_def Let_def bit_put_word)
  next
    case False
    then show ?thesis by (auto simp: bit_byte_at put_byte_def Let_def)
  qed
qed

lemma put_byte_elsewhere: "word_base pa \<noteq> a \<Longrightarrow> put_byte pa b m a = m a"
  by (simp add: put_byte_def Let_def)

lemma fold_put_byte_out:
  "(\<And>i. i \<in> set ks \<Longrightarrow> f i \<noteq> pa) \<Longrightarrow> byte_at (fold (\<lambda>i. put_byte (f i) (g i)) ks m) pa = byte_at m pa"
  by (induction ks arbitrary: m) auto

lemma fold_put_byte_in:
  "distinct (map f ks) \<Longrightarrow> i \<in> set ks \<Longrightarrow> byte_at (fold (\<lambda>i. put_byte (f i) (g i)) ks m) (f i) = g i"
proof (induction ks arbitrary: m)
  case (Cons k ks)
  show ?case
  proof (cases "i = k")
    case True
    have "f k \<notin> f ` set ks" using Cons.prems by simp
    then have "byte_at (fold (\<lambda>i. put_byte (f i) (g i)) ks (put_byte (f k) (g k) m)) (f k) =
        byte_at (put_byte (f k) (g k) m) (f k)"
      by (intro fold_put_byte_out) (metis image_eqI)
    then show ?thesis using True by simp
  next
    case False
    then show ?thesis using Cons by simp
  qed
qed simp

lemma fold_put_byte_elsewhere:
  "(\<And>i. i \<in> set ks \<Longrightarrow> word_base (f i) \<noteq> a) \<Longrightarrow> fold (\<lambda>i. put_byte (f i) (g i)) ks m a = m a"
  by (induction ks arbitrary: m) (simp_all add: put_byte_elsewhere)

section \<open>Translations keep the offset in the page\<close>

lemma bit_page_addr:
  "n < 12 \<Longrightarrow> 12 \<le> k \<Longrightarrow> bit (page_addr e k va) n \<longleftrightarrow> bit va n"
  by (auto simp: page_addr_def bit_or_iff bit_and_iff bit_not_iff bit_mask_iff dest: bit_imp_le_length)

lemma phys_offset:
  assumes "phys s va = Some pa" shows "take_bit 12 pa = take_bit 12 va"
proof (rule bit_word_eqI)
  fix n :: nat assume "n < LENGTH(64)"
  show "bit (take_bit 12 pa) n = bit (take_bit 12 va) n"
    using assms bit_page_addr [of n] by (auto simp: phys_def Let_def bit_take_bit_iff split: if_splits)
qed

lemma near_offset:
  fixes p :: u64
  assumes "i < 4096" "j < 4096" "take_bit 12 (p + of_nat i) = take_bit 12 (p + of_nat j)"
  shows "i = j"
proof -
  have r: "uint (take_bit 12 (p + of_nat k)) = (uint p + int k) mod 4096" for k
  proof -
    have "p + of_nat k = word_of_int (uint p + int k)" by simp
    then have "uint (p + of_nat k) = (uint p + int k) mod 2 ^ 64"
      by (simp only: uint_word_of_int) simp
    moreover have "(x mod 2 ^ 64) mod 4096 = x mod 4096" for x :: int
      by (rule mod_mod_cancel) simp
    moreover have "uint (take_bit 12 w) = uint w mod 4096" for w :: u64
      by (simp only: unsigned_take_bit_eq) (simp add: take_bit_eq_mod)
    ultimately show ?thesis by simp
  qed
  have "(uint p + int i) mod 4096 = (uint p + int j) mod 4096"
    using arg_cong [OF assms(3), of uint] by (simp only: r)
  then have "4096 dvd (uint p + int i) - (uint p + int j)"
    by (simp only: mod_eq_dvd_iff)
  then obtain q where q: "int i - int j = 4096 * q" by (auto elim: dvdE)
  have "\<not> 1 \<le> q" "\<not> q \<le> - 1" using q assms(1,2) by linarith+
  then show ?thesis using q by simp
qed

section \<open>A message written is read back\<close>

lemma phys_near_inj:
  assumes "phys s (p + of_nat i) = Some a" "phys s (p + of_nat j) = Some a" "i < 32" "j < 32"
  shows "i = j"
  using near_offset [of i j p] phys_offset [OF assms(1)] phys_offset [OF assms(2)] assms(3,4) by simp

lemma write_msg_off:
  "write_msg m p x (p + d) = (if d < 32 then write_msg (\<lambda>_. 0) 0 x d else m (p + d))"
proof -
  have c: "d < 32 \<longleftrightarrow> d < 8 \<or> d - 8 < 8 \<or> d - 16 < 8 \<or> d - 24 < (8 :: u64)"
    by (simp add: word_less_nat_alt unat_sub_if') auto
  have o: "p + d - p = d" "p + d - (p + k) = d - k" for k by simp_all
  show ?thesis
    unfolding write_msg_def store64_def o c by simp
qed

definition msg_frames_free :: "(u64 \<Rightarrow> nat) \<Rightarrow> paging \<Rightarrow> u64 \<Rightarrow> bool" where
  "msg_frames_free lvl s p \<longleftrightarrow> (\<forall>i<32. \<forall>pa. phys s (p + of_nat i) = Some pa \<longrightarrow> lvl (page_align_down pa) = 0)"

lemma phys_cong:
  assumes wf: "tree_wf lvl s" and cr: "cr3 s' = cr3 s"
    and same: "\<And>t i. lvl t \<noteq> 0 \<Longrightarrow> i < 512 \<Longrightarrow> pmem s' (entry_addr t i) = pmem s (entry_addr t i)"
  shows "phys s' va = phys s va"
proof -
  let ?m = "pmem s"
  let ?e4 = "?m (entry_addr (read_cr3 s) (va_index 39 va))"
  let ?e3 = "?m (entry_addr (child ?e4) (va_index 30 va))"
  let ?e2 = "?m (entry_addr (child ?e3) (va_index 21 va))"
  have cr': "read_cr3 s' = read_cr3 s" using cr by (simp add: read_cr3_def)
  have l4: "lvl (read_cr3 s) = 4" using tree_wfD(1) [OF wf] .
  have c4: "lvl (child ?e4) = 3" if "links ?e4"
    using tree_wfD(5) [OF wf _ va_index_less that] l4 by simp
  have c3: "lvl (child ?e3) = 2" if "links ?e4" "links ?e3"
    using tree_wfD(5) [OF wf _ va_index_less that(2)] c4 that by simp
  have c2: "lvl (child ?e2) = 1" if "links ?e4" "links ?e3" "links ?e2"
    using tree_wfD(5) [OF wf _ va_index_less that(3)] c3 that by simp
  have s4: "pmem s' (entry_addr (read_cr3 s) (va_index 39 va)) = ?e4"
    by (rule same) (simp_all add: l4 va_index_less)
  have s3: "links ?e4 \<Longrightarrow> pmem s' (entry_addr (child ?e4) (va_index 30 va)) = ?e3"
    by (rule same) (simp_all add: c4 va_index_less)
  have s2: "links ?e4 \<Longrightarrow> links ?e3 \<Longrightarrow> pmem s' (entry_addr (child ?e3) (va_index 21 va)) = ?e2"
    by (rule same) (simp_all add: c3 va_index_less)
  have s1: "links ?e4 \<Longrightarrow> links ?e3 \<Longrightarrow> links ?e2 \<Longrightarrow>
      pmem s' (entry_addr (child ?e2) (va_index 12 va)) = ?m (entry_addr (child ?e2) (va_index 12 va))"
    by (rule same) (simp_all add: c2 va_index_less)
  show ?thesis
    unfolding phys_def Let_def cr' s4 using s3 s2 s1
    by (cases "links ?e4"; cases "links ?e3"; cases "links ?e2") simp_all
qed

text \<open>A byte outside the page tables shares no word with an entry of one.\<close>

lemma page_mask: "PAGE_MASK = (mask 12 :: u64)"
  by (simp add: mask_eq_exp_minus_1)

lemma aligned_page_align_down: "aligned (page_align_down pa)"
proof -
  have "take_bit 12 (page_align_down pa) = 0"
    unfolding page_align_down_def page_mask
    by (rule bit_word_eqI) (auto simp: bit_simps)
  then have "take_bit 12 (unat (page_align_down pa)) = 0"
    by (simp only: unsigned_take_bit_eq [symmetric]) simp
  then show ?thesis by (simp add: aligned_def take_bit_eq_mod)
qed

lemma word_base_in_page: "word_base pa - page_align_down pa < PAGE_SIZE"
proof -
  let ?o = "take_bit 12 (word_base pa)"
  have seven: "(7 :: u64) = mask 3" by (simp add: mask_eq_exp_minus_1)
  have "page_align_down pa OR ?o = word_base pa"
    unfolding page_align_down_def page_mask word_base_def seven
    by (rule bit_word_eqI) (auto simp: bit_simps)
  moreover have "page_align_down pa AND ?o = 0"
    unfolding page_align_down_def page_mask
    by (rule bit_word_eqI) (auto simp: bit_simps)
  ultimately have "page_align_down pa + ?o = word_base pa"
    by (simp add: disjunctive_add_eq_or)
  then have "word_base pa - page_align_down pa = ?o" by (simp add: algebra_simps)
  moreover have "unat ?o < 2 ^ 12"
    by (simp only: unsigned_take_bit_eq take_bit_nat_less_exp)
  ultimately show ?thesis by (simp add: word_less_nat_alt)
qed

lemma outside_tables:
  assumes wf: "tree_wf lvl s" and t: "lvl t \<noteq> 0" "i < 512" and pa: "lvl (page_align_down pa) = 0"
  shows "word_base pa \<noteq> entry_addr t i"
proof
  assume "word_base pa = entry_addr t i"
  then have "entry_addr t i - page_align_down pa < PAGE_SIZE" using word_base_in_page [of pa] by simp
  then have "t = page_align_down pa"
    using entry_in_table [OF tree_wfD(2) [OF wf t(1)] aligned_page_align_down t(2)] by simp
  with t pa show False by simp
qed

text \<open>
  A message the kernel writes into mapped user memory outside the page tables is what the
  program reads there afterwards, and no translation changes.
\<close>

lemma msg_mappedD: "msg_mapped s p \<Longrightarrow> i < 32 \<Longrightarrow> \<exists>pa. phys s (p + of_nat i) = Some pa"
  by (auto simp: msg_mapped_def list_all_iff)

lemma copy_out_defined: "msg_mapped s p \<longleftrightarrow> copy_out s p x \<noteq> None" "msg_mapped s p \<longleftrightarrow> copy_in s p \<noteq> None"
  by (auto simp: copy_out_def copy_in_def)

lemma copy_out_frame [frame_simps]:
  "copy_out s p x = Some s' \<Longrightarrow> pg_pmm s' = pg_pmm s \<and> cr3 s' = cr3 s \<and> tlb_flushes s' = tlb_flushes s"
  by (auto simp: copy_out_def split: if_splits)

lemma copy_out_tables:
  assumes wf: "tree_wf lvl s" and free: "msg_frames_free lvl s p" and out: "copy_out s p x = Some s'"
    and t: "lvl t \<noteq> 0" "i < 512"
  shows "pmem s' (entry_addr t i) = pmem s (entry_addr t i)"
proof -
  have m: "msg_mapped s p" using out by (simp add: copy_out_def split: if_splits)
  have "word_base (the (phys s (p + of_nat j))) \<noteq> entry_addr t i" if j: "j \<in> set [0..<32]" for j
  proof -
    have j32: "j < 32" using j by simp
    then obtain pa where "phys s (p + of_nat j) = Some pa" using msg_mappedD [OF m] by blast
    then show ?thesis
      using free j32 outside_tables [OF wf t] by (simp add: msg_frames_free_def)
  qed
  then have "fold (\<lambda>j. put_byte (the (phys s (p + of_nat j))) (msg_bytes x j)) [0..<32] (pmem s) (entry_addr t i)
      = pmem s (entry_addr t i)"
    by (rule fold_put_byte_elsewhere)
  with out m show ?thesis by (auto simp: copy_out_def)
qed

lemma tree_wf_cong:
  assumes wf: "tree_wf lvl s" and cr: "read_cr3 s' = read_cr3 s" and pm: "pg_pmm s' = pg_pmm s"
    and same: "\<And>t i. lvl t \<noteq> 0 \<Longrightarrow> i < 512 \<Longrightarrow> pmem s' (entry_addr t i) = pmem s (entry_addr t i)"
  shows "tree_wf lvl s'"
proof -
  have e: "pmem s' (entry_addr t i) = pmem s (entry_addr t i)" if "2 \<le> lvl t" "i < 512" for t i
    using that by (intro same) auto
  show ?thesis
    unfolding tree_wf_def cr pm
  proof (intro conjI allI impI)
    fix t assume "lvl t \<noteq> 0"
    then show "aligned t" "t \<noteq> 0" "t \<notin> avail (pg_pmm s)" using tree_wfD(2-4) [OF wf] by blast+
  next
    fix t i assume "2 \<le> lvl t \<and> i < 512 \<and> links (pmem s' (entry_addr t i))"
    then show "lvl (child (pmem s' (entry_addr t i))) = lvl t - 1"
      using e [of t i] tree_wfD(5) [OF wf, of t i] by simp
  next
    fix t i t' i'
    assume "2 \<le> lvl t \<and> 2 \<le> lvl t' \<and> i < 512 \<and> i' < 512 \<and>
      links (pmem s' (entry_addr t i)) \<and> links (pmem s' (entry_addr t' i')) \<and>
      child (pmem s' (entry_addr t i)) = child (pmem s' (entry_addr t' i'))"
    then show "t = t'" "i = i'"
      using e [of t i] e [of t' i'] tree_wfD(6) [OF wf, of t t' i i'] by simp_all
  qed (rule tree_wfD(1) [OF wf])
qed

theorem copy_out_in:
  assumes wf: "tree_wf lvl s" and free: "msg_frames_free lvl s p" and out: "copy_out s p x = Some s'"
  shows "copy_in s' p = Some x \<and> phys s' = phys s \<and> tree_wf lvl s'"
proof -
  note same = copy_out_tables [OF wf free out] and fr = copy_out_frame [OF out]
  have m: "msg_mapped s p" using out by (simp add: copy_out_def split: if_splits)
  have ph: "phys s' = phys s"
    using fr same by (intro ext phys_cong [OF wf]) simp_all
  have byte: "user_byte s' (p + of_nat i) = msg_bytes x i" if i: "i < 32" for i
  proof -
    let ?f = "\<lambda>j. the (phys s (p + of_nat j))"
    obtain pa where pa: "phys s (p + of_nat i) = Some pa" using msg_mappedD [OF m i] by blast
    have "distinct (map ?f [0..<32])"
    proof (unfold distinct_map, intro conjI inj_onI)
      fix j k assume jk: "j \<in> set [0..<32]" "k \<in> set [0..<32]" "?f j = ?f k"
      then obtain a b where "phys s (p + of_nat j) = Some a" "phys s (p + of_nat k) = Some b"
        using msg_mappedD [OF m, of j] msg_mappedD [OF m, of k] by auto
      with jk show "j = k" using phys_near_inj [of s p j a k] by simp
    qed simp
    then have "byte_at (fold (\<lambda>j. put_byte (?f j) (msg_bytes x j)) [0..<32] (pmem s)) (?f i) = msg_bytes x i"
      using i by (intro fold_put_byte_in) simp_all
    then show ?thesis using out m pa ph by (auto simp: copy_out_def user_byte_def)
  qed
  have "load64 (user_byte s') (p + k) = load64 (write_msg (\<lambda>_. 0) p x) (p + k)"
    if k: "k = of_nat n" "n + 8 \<le> 32" for k n
  proof (rule load64_cong)
    fix i :: nat assume i: "i < 8"
    have a: "p + k + of_nat i = p + of_nat (n + i)" using k by simp
    have small: "j < 32 \<Longrightarrow> of_nat j < (32 :: u64)" for j
      by (simp add: word_less_nat_alt unat_of_nat take_bit_nat_eq_self)
    have lt: "of_nat (n + i) < (32 :: u64)" using i k(2) by (intro small) simp
    show "user_byte s' (p + k + of_nat i) = write_msg (\<lambda>_. 0) p x (p + k + of_nat i)"
      unfolding a write_msg_off using lt byte [of "n + i"] i k(2) by (simp add: msg_bytes_def)
  qed
  from this [of 0 0] this [of 8 8] this [of 16 16] this [of 24 24]
  have "read_msg (user_byte s') p = read_msg (write_msg (\<lambda>_. 0) p x) p"
    by (simp add: read_msg_def)
  then have "copy_in s' p = Some x" using m ph by (simp add: copy_in_def msg_mapped_def)
  moreover have "tree_wf lvl s'"
    using same fr by (intro tree_wf_cong [OF wf]) (simp_all add: read_cr3_def)
  ultimately show ?thesis using ph by simp
qed

section \<open>Properties\<close>

text \<open>C32: A message that the kernel writes to a program's buffer is what is read there afterwards,
  and no address translation changes, as long as the buffer does not overlap a page table.\<close>

theorem message_copy_roundtrip:
  assumes "tree_wf lvl s" and "msg_frames_free lvl s p" and "copy_out s p x = Some s'"
  shows "copy_in s' p = Some x \<and> phys s' = phys s \<and> tree_wf lvl s'"
  by (rule copy_out_in [OF assms])


text \<open>A buffer in the page at address 0 of the small instance.\<close>

lemma low_page:
  fixes x :: u64
  assumes "unat x < 4096"
  shows "12 \<le> k \<Longrightarrow> drop_bit k x = 0" "bit x n \<Longrightarrow> n < 12" "x AND mask 12 = x" "x AND NOT (mask 12) = 0"
    "0x5000 + x = 0x5000 OR x"
proof -
  have d: "drop_bit k x = 0" if "12 \<le> k" for k
  proof -
    have "unat x < 2 ^ k" using assms power_increasing [OF that, of "2 :: nat"] by simp
    then have "drop_bit k (unat x) = 0" by (simp add: drop_bit_eq_div)
    then have "unat (drop_bit k x) = 0" by (simp only: unat_drop_bit_eq)
    then show ?thesis by (simp add: unat_eq_0)
  qed
  then show "12 \<le> k \<Longrightarrow> drop_bit k x = 0" .
  have b: "n < 12" if "bit x n" for n
  proof (rule ccontr)
    assume "\<not> n < 12"
    then have "bit (drop_bit 12 x) (n - 12)" using that by (simp add: bit_drop_bit_eq)
    then show False using d [of 12] by simp
  qed
  then show "bit x n \<Longrightarrow> n < 12" .
  show xm: "x AND mask 12 = x" and "x AND NOT (mask 12) = 0"
    using b by (auto intro!: bit_word_eqI simp: bit_simps)
  have "(0x5000 :: u64) AND mask 12 = 0" by (simp add: mask_eq_exp_minus_1)
  then have "((0x5000 :: u64) AND mask 12) AND x = 0" by simp
  moreover have "mask 12 AND x = x" using xm by (simp only: and.commute)
  ultimately have "(0x5000 :: u64) AND x = 0" by (simp only: and.assoc)
  then show "0x5000 + x = 0x5000 OR x" by (simp add: disjunctive_add_eq_or)
qed

lemma demo_phys:
  assumes "unat x < 4096" shows "phys demo_paging x = Some (0x5000 + x)"
proof -
  note low = low_page [OF assms]
  have "page_addr 0x5007 12 x = 0x5000 + x"
    unfolding page_addr_def low by (simp add: child_def mask_eq_exp_minus_1)
  then show ?thesis
    by (simp add: phys_def Let_def canonical_def va_index_def low(1))
       (simp add: demo_paging_def entry_addr_def read_cr3_def links_def present_def child_def)
qed

lemma demo_frame:
  assumes "unat x < 4096" shows "page_align_down (0x5000 + x) = (0x5000 :: u64)"
proof -
  have "(0x5000 :: u64) AND NOT (mask 12) = 0x5000" by (simp add: mask_eq_exp_minus_1)
  then show ?thesis
    unfolding page_align_down_def page_mask low_page(5) [OF assms] bit.conj_disj_distrib2
    by (simp add: low_page(4) [OF assms])
qed

lemma demo_offset: "i < 32 \<Longrightarrow> unat (0x100 + of_nat i :: u64) = 0x100 + i"
  by (simp add: unat_word_ariths unat_of_nat take_bit_nat_eq_self)

lemma demo_msg_frame: "i < 32 \<Longrightarrow> page_align_down (0x5100 + of_nat i) = (0x5000 :: u64)"
  using demo_frame [of "0x100 + of_nat i"] demo_offset [of i] by (simp add: algebra_simps)

theorem message_copy_roundtrip_witness:
  "\<exists>s'. copy_out demo_paging 0x100 zero_msg = Some s' \<and> copy_in s' 0x100 = Some zero_msg"
proof -
  have wf: "tree_wf demo_lvl demo_paging" using demo_tables_ok by (simp add: tables_ok_def)
  have free: "msg_frames_free demo_lvl demo_paging 0x100"
    by (auto simp: msg_frames_free_def demo_phys demo_offset demo_msg_frame demo_lvl_def)
  have "msg_mapped demo_paging 0x100" by (auto simp: msg_mapped_def list_all_iff demo_phys demo_offset)
  then obtain s' where "copy_out demo_paging 0x100 zero_msg = Some s'" by (auto simp: copy_out_def)
  with message_copy_roundtrip [OF wf free this] show ?thesis by blast
qed

end
