(* ===== verification/Cap.thy ===== *)
theory Cap
  imports Kobj
begin

text \<open>
  Capability tables (\<^verbatim>\<open>kernel/cap.c\<close>).  A \<^verbatim>\<open>struct thread *\<close>
  argument that may be NULL is a \<open>thread option\<close>.  The two kinds of authority, sending
  to an endpoint and using an I/O port, are instances of one interface, the locale
  \<open>grant_table\<close>.
\<close>

section \<open>Operations\<close>

definition null_cap :: cap where
  "null_cap = \<lparr>cap_type = CAP_NULL, cap_target = - 1, cap_rights = 0, io_base = 0, io_len = 0\<rparr>"

definition cap_clear :: "thread \<Rightarrow> thread" where
  "cap_clear t = t\<lparr>ctable := (\<lambda>i. if i < CAP_MAX then null_cap else ctable t i)\<rparr>"

definition free_slot :: "thread \<Rightarrow> nat option" where
  "free_slot t = first_fit (\<lambda>i. cap_type (ctable t i) = CAP_NULL) CAP_MAX"

definition set_slot :: "thread \<Rightarrow> nat \<Rightarrow> cap \<Rightarrow> thread" where
  "set_slot t i c = t\<lparr>ctable := (ctable t)(i := c)\<rparr>"

fun cap_grant_io :: "thread option \<Rightarrow> u16 \<Rightarrow> u16 \<Rightarrow> thread option \<times> int" where
  "cap_grant_io None base len = (None, - 1)"
| "cap_grant_io (Some t) base len =
     (case free_slot t of
        Some i \<Rightarrow> (Some (set_slot t i ((ctable t i)\<lparr>cap_type := CAP_IOPORT, io_base := base, io_len := len\<rparr>)), 0)
      | None \<Rightarrow> (Some t, - 1))"

definition cap_covers_port :: "cap \<Rightarrow> u16 \<Rightarrow> bool" where
  "cap_covers_port c port \<longleftrightarrow>
     cap_type c = CAP_IOPORT \<and> io_base c \<le> port \<and> port < io_base c + io_len c"

fun cap_has_port :: "thread option \<Rightarrow> u16 \<Rightarrow> bool" where
  "cap_has_port None port = False"
| "cap_has_port (Some t) port = (first_fit (\<lambda>i. cap_covers_port (ctable t i) port) CAP_MAX \<noteq> None)"

fun cap_has_endpoint :: "thread option \<Rightarrow> int \<Rightarrow> bool" where
  "cap_has_endpoint None target = False"
| "cap_has_endpoint (Some t) target =
     (first_fit (\<lambda>i. cap_type (ctable t i) = CAP_ENDPOINT \<and> cap_target (ctable t i) = target) CAP_MAX \<noteq> None)"

fun cap_grant_endpoint :: "thread option \<Rightarrow> int \<Rightarrow> thread option \<times> int" where
  "cap_grant_endpoint None target = (None, - 1)"
| "cap_grant_endpoint (Some t) target =
     (if cap_has_endpoint (Some t) target then (Some t, 0)
      else case free_slot t of
        Some i \<Rightarrow> (Some (set_slot t i ((ctable t i)\<lparr>cap_type := CAP_ENDPOINT, cap_target := target,
                     cap_rights := CAP_RIGHT_SEND\<rparr>)), 0)
      | None \<Rightarrow> (Some t, - 1))"

definition cap_install :: "thread option \<Rightarrow> int \<Rightarrow> int \<Rightarrow> u32 \<Rightarrow> thread option \<times> int" where
  "cap_install t slot target rights =
     (case t of
        None \<Rightarrow> (None, - 1)
      | Some th \<Rightarrow>
          if slot < 0 \<or> slot \<ge> int CAP_MAX then (Some th, - 1)
          else (Some (set_slot th (nat slot) ((ctable th (nat slot))\<lparr>cap_type := CAP_ENDPOINT,
                  cap_target := target, cap_rights := rights\<rparr>)), 0))"

text \<open>
  The check of \<open>ipc_send_cap\<close>: the target that slot \<open>slot\<close> of the caller lets it send
  to, if it does (the send itself is \<open>ipc_send\<close>, composed in \<open>Ipc\<close>).
\<close>

definition cap_resolve_send :: "thread \<Rightarrow> int \<Rightarrow> int option" where
  "cap_resolve_send self slot =
     (if slot < 0 \<or> slot \<ge> int CAP_MAX then None
      else let c = ctable self (nat slot) in
        if cap_type c \<noteq> CAP_ENDPOINT \<or> cap_rights c AND CAP_RIGHT_SEND = 0 then None
        else Some (cap_target c))"

section \<open>What a table authorises\<close>

lemma has_port_iff: "cap_has_port (Some t) p \<longleftrightarrow> (\<exists>i<CAP_MAX. cap_covers_port (ctable t i) p)"
  by (auto simp: first_fit_ex)

lemma has_endpoint_iff:
  "cap_has_endpoint (Some t) e \<longleftrightarrow>
     (\<exists>i<CAP_MAX. cap_type (ctable t i) = CAP_ENDPOINT \<and> cap_target (ctable t i) = e)"
  by (auto simp: first_fit_ex)

declare cap_has_port.simps(2) [simp del] cap_has_endpoint.simps(2) [simp del]

lemma free_slot_Some_iff:
  "free_slot t = Some i \<longleftrightarrow> i < CAP_MAX \<and> cap_type (ctable t i) = CAP_NULL \<and>
     (\<forall>j<i. cap_type (ctable t j) \<noteq> CAP_NULL)"
  by (simp add: free_slot_def first_fit_Some_iff)

lemma free_slot_None_iff: "free_slot t = None \<longleftrightarrow> (\<forall>i<CAP_MAX. cap_type (ctable t i) \<noteq> CAP_NULL)"
  by (simp add: free_slot_def first_fit_None_iff)

lemma free_slot_SomeD:
  "free_slot t = Some i \<Longrightarrow> i < CAP_MAX"
  "free_slot t = Some i \<Longrightarrow> cap_type (ctable t i) = CAP_NULL"
  by (simp_all add: free_slot_Some_iff)

lemma null_not_covers: "cap_type c = CAP_NULL \<Longrightarrow> \<not> cap_covers_port c p"
  by (simp add: cap_covers_port_def)

lemma ctable_set_slot [simp]: "ctable (set_slot t i c) = (ctable t)(i := c)"
  by (simp add: set_slot_def)

lemma set_slot_frame [frame_simps]:
  "kont (set_slot t i c) = kont t" "tstate (set_slot t i c) = tstate t" "tid (set_slot t i c) = tid t"
  "kstack_top (set_slot t i c) = kstack_top t" "ipc_state (set_slot t i c) = ipc_state t"
  "ipc_peer (set_slot t i c) = ipc_peer t" "ipc_call_to (set_slot t i c) = ipc_call_to t"
  "ipc_from (set_slot t i c) = ipc_from t" "irq_pending (set_slot t i c) = irq_pending t"
  "ipc_buf (set_slot t i c) = ipc_buf t" "tf (set_slot t i c) = tf t"
  by (simp_all add: set_slot_def)

lemma has_port_set_slot:
  assumes "cap_type (ctable t i) = CAP_NULL" "i < CAP_MAX"
  shows "cap_has_port (Some (set_slot t i c)) p \<longleftrightarrow> cap_has_port (Some t) p \<or> cap_covers_port c p"
  using assms unfolding has_port_iff by (auto split: if_splits) (metis null_not_covers)

lemma has_endpoint_set_slot:
  assumes "cap_type (ctable t i) = CAP_NULL" "i < CAP_MAX"
  shows "cap_has_endpoint (Some (set_slot t i c)) e \<longleftrightarrow>
    cap_has_endpoint (Some t) e \<or> cap_type c = CAP_ENDPOINT \<and> cap_target c = e"
  using assms unfolding has_endpoint_iff by (auto split: if_splits) (metis cap_type.distinct(1))

lemma cap_clear_empty:
  "\<not> cap_has_port (Some (cap_clear t)) p" "\<not> cap_has_endpoint (Some (cap_clear t)) e"
  by (simp_all add: has_port_iff has_endpoint_iff cap_clear_def null_cap_def cap_covers_port_def)

section \<open>The interface of an authority\<close>

locale grant_table =
  fixes has :: "'t \<Rightarrow> 'r \<Rightarrow> bool"
    and grant :: "'t \<Rightarrow> 'q \<Rightarrow> 't \<times> int"
    and covers :: "'q \<Rightarrow> 'r \<Rightarrow> bool"
  assumes grant_ret: "snd (grant t q) = 0 \<or> snd (grant t q) = - 1"
    and grant_ok: "snd (grant t q) = 0 \<Longrightarrow> has (fst (grant t q)) x \<longleftrightarrow> has t x \<or> covers q x"
    and grant_err: "snd (grant t q) = - 1 \<Longrightarrow> fst (grant t q) = t"
begin

lemma grant_mono: "has t x \<Longrightarrow> has (fst (grant t q)) x"
  using grant_ret [of t q] grant_ok [of t q x] grant_err [of t q] by auto

lemma grant_only: "has (fst (grant t q)) x \<Longrightarrow> has t x \<or> covers q x"
  using grant_ret [of t q] grant_ok [of t q x] grant_err [of t q] by auto

primrec grant_all :: "'t \<Rightarrow> 'q list \<Rightarrow> 't" where
  "grant_all t [] = t"
| "grant_all t (q # qs) = grant_all (fst (grant t q)) qs"

lemma grant_all_mono: "has t x \<Longrightarrow> has (grant_all t qs) x"
  by (induction qs arbitrary: t) (auto intro: grant_mono)

lemma grant_all_only: "has (grant_all t qs) x \<Longrightarrow> has t x \<or> (\<exists>q\<in>set qs. covers q x)"
  by (induction qs arbitrary: t) (auto dest: grant_only)

end

definition endpoint_grant :: "thread \<Rightarrow> int \<Rightarrow> thread \<times> int" where
  "endpoint_grant t e = (case cap_grant_endpoint (Some t) e of (t', r) \<Rightarrow> (the t', r))"

definition port_grant :: "thread \<Rightarrow> u16 \<times> u16 \<Rightarrow> thread \<times> int" where
  "port_grant t q = (case cap_grant_io (Some t) (fst q) (snd q) of (t', r) \<Rightarrow> (the t', r))"

definition in_port_range :: "u16 \<times> u16 \<Rightarrow> u16 \<Rightarrow> bool" where
  "in_port_range q p \<longleftrightarrow> fst q \<le> p \<and> p < fst q + snd q"

interpretation ep: grant_table "\<lambda>t. cap_has_endpoint (Some t)" endpoint_grant "(=)"
  by unfold_locales
     (auto simp: endpoint_grant_def has_endpoint_set_slot free_slot_SomeD split: if_splits option.splits)

interpretation io: grant_table "\<lambda>t. cap_has_port (Some t)" port_grant in_port_range
  by unfold_locales
     (auto simp: port_grant_def in_port_range_def cap_covers_port_def has_port_set_slot
        free_slot_SomeD split: option.splits)

section \<open>Properties\<close>

text \<open>Granting an endpoint adds exactly the right to send to that endpoint, or fails and
  changes nothing.\<close>

theorem grant_endpoint_exact:
  "snd (endpoint_grant t e) = 0 \<and>
     (\<forall>x. cap_has_endpoint (Some (fst (endpoint_grant t e))) x \<longleftrightarrow> cap_has_endpoint (Some t) x \<or> x = e) \<or>
   endpoint_grant t e = (t, - 1)"
  using ep.grant_ret [of t e] ep.grant_ok [of t e] ep.grant_err [of t e]
  by (metis prod.collapse)

lemma in_port_range_iff:
  "in_port_range (b, l) p \<longleftrightarrow> unat b \<le> unat p \<and> unat p < unat b + unat l \<and> unat b + unat l < 2 ^ 16"
proof -
  have l: "unat l < 2 ^ 16" "unat b < 2 ^ 16" "unat p < 2 ^ 16"
    using unsigned_less [of l, where 'a = nat] unsigned_less [of b, where 'a = nat]
      unsigned_less [of p, where 'a = nat] by simp_all
  have "unat (b + l) = (unat b + unat l) mod 2 ^ 16" by (simp add: unat_word_ariths)
  also have "\<dots> = (if unat b + unat l < 2 ^ 16 then unat b + unat l else unat b + unat l - 2 ^ 16)"
    using l by (auto simp: mod_if le_mod_geq)
  finally show ?thesis
    using l by (auto simp: in_port_range_def word_le_nat_alt word_less_nat_alt)
qed

text \<open>C33: Granting a range of I/O ports adds exactly the ports of the range, or fails and changes
  nothing; a range whose end does not fit in 16 bits adds no port at all.\<close>

theorem grant_io_exact:
  "snd (port_grant t (b, l)) = 0 \<and>
     (\<forall>p. cap_has_port (Some (fst (port_grant t (b, l)))) p \<longleftrightarrow> cap_has_port (Some t) p \<or>
        unat b \<le> unat p \<and> unat p < unat b + unat l \<and> unat b + unat l < 2 ^ 16) \<or>
   port_grant t (b, l) = (t, - 1)"
  using io.grant_ret [of t "(b, l)"] io.grant_ok [of t "(b, l)"] io.grant_err [of t "(b, l)"]
  unfolding in_port_range_iff by (metis prod.collapse)

end
