(* ===== verification/Sched.thy ===== *)
theory Sched
  imports Cap
begin

text \<open>
  The thread table and the round-robin scheduler (\<^verbatim>\<open>kernel/sched.c\<close>).
  A \<^verbatim>\<open>struct thread *\<close> into the kernel's own objects is a \<open>tptr\<close>: the idle
  thread or a slot of \<^verbatim>\<open>threads\<close>.  The record is extended by the later
  theories with the rest of the kernel's state, so every operation here is polymorphic in
  the extension.  \<open>context_switch\<close> is the change of \<open>current\<close>: what the thread that is
  switched out will do when it is resumed is its \<open>kont\<close>, recorded by the caller of
  \<open>schedule\<close> before the switch.
\<close>

section \<open>State\<close>

datatype tptr = Idle | Slot nat

record sched =
  threads :: "nat \<Rightarrow> thread"
  idle :: thread
  current :: tptr
  stacks :: u64
  tss_rsp0 :: u64

primrec thr :: "'a sched_scheme \<Rightarrow> tptr \<Rightarrow> thread" where
  "thr s Idle = idle s"
| "thr s (Slot i) = threads s i"

primrec upd_thr :: "tptr \<Rightarrow> (thread \<Rightarrow> thread) \<Rightarrow> 'a sched_scheme \<Rightarrow> 'a sched_scheme" where
  "upd_thr Idle f s = s\<lparr>idle := f (idle s)\<rparr>"
| "upd_thr (Slot i) f s = s\<lparr>threads := (threads s)(i := f (threads s i))\<rparr>"

definition thread_by_id :: "int \<Rightarrow> nat option" where
  "thread_by_id n = (if n < 0 \<or> n \<ge> int SCHED_MAX_THREADS then None else Some (nat n))"

definition thread_block :: "thread \<Rightarrow> thread" where
  "thread_block t = t\<lparr>tstate := T_BLOCKED\<rparr>"

definition thread_wake :: "thread \<Rightarrow> thread" where
  "thread_wake t = (if tstate t = T_BLOCKED then t\<lparr>tstate := T_RUNNABLE\<rparr> else t)"

section \<open>Operations\<close>

abbreviation KSTACK_SIZE :: nat where
  "KSTACK_SIZE \<equiv> 16384"

definition stack_top :: "'a sched_scheme \<Rightarrow> nat \<Rightarrow> u64" where
  "stack_top s i = stacks s + of_nat (i * KSTACK_SIZE + KSTACK_SIZE)"

definition sched_init :: "'a sched_scheme \<Rightarrow> 'a sched_scheme" where
  "sched_init s = s\<lparr>
     threads := (\<lambda>i. if i < SCHED_MAX_THREADS
                     then (threads s i)\<lparr>tstate := T_UNUSED, tid := int i, ipc_call_to := - 1\<rparr>
                     else threads s i),
     idle := (idle s)\<lparr>tstate := T_RUNNING, tid := - 1, ipc_call_to := - 1\<rparr>,
     current := Idle\<rparr>"

definition create_thread_in :: "'a sched_scheme \<Rightarrow> nat \<Rightarrow> nat \<Rightarrow> thread \<Rightarrow> thread" where
  "create_thread_in s i prog t = cap_clear (t\<lparr>kont := K_start prog, kstack_top := stack_top s i,
     tstate := T_RUNNABLE, ipc_state := IPC_NONE, ipc_peer := IPC_ANY, ipc_call_to := - 1,
     irq_pending := 0\<rparr>)"

definition free_thread :: "'a sched_scheme \<Rightarrow> nat option" where
  "free_thread s = first_fit (\<lambda>i. \<not> (tstate (threads s i) \<noteq> T_UNUSED \<and> tstate (threads s i) \<noteq> T_DEAD))
     SCHED_MAX_THREADS"

definition thread_create :: "'a sched_scheme \<Rightarrow> nat \<Rightarrow> 'a sched_scheme \<times> int" where
  "thread_create s prog =
     (case free_thread s of
        Some i \<Rightarrow> (upd_thr (Slot i) (create_thread_in s i prog) s, int i)
      | None \<Rightarrow> (s, - 1))"

definition scan_from :: "'a sched_scheme \<Rightarrow> int" where
  "scan_from s = (case current s of Idle \<Rightarrow> 0 | Slot i \<Rightarrow> tid (threads s i) + 1)"

definition scan_slot :: "int \<Rightarrow> nat \<Rightarrow> nat" where
  "scan_slot from k = nat ((from + int k) mod int SCHED_MAX_THREADS)"

definition pick_next :: "'a sched_scheme \<Rightarrow> nat option" where
  "pick_next s = map_option (scan_slot (scan_from s))
     (first_fit (\<lambda>k. tstate (threads s (scan_slot (scan_from s) k)) = T_RUNNABLE) SCHED_MAX_THREADS)"

definition switch_target :: "'a sched_scheme \<Rightarrow> tptr option" where
  "switch_target s =
     (case pick_next s of
        Some n \<Rightarrow> Some (Slot n)
      | None \<Rightarrow> if current s = Idle then None else Some Idle)"

definition switch_to :: "'a sched_scheme \<Rightarrow> tptr \<Rightarrow> 'a sched_scheme" where
  "switch_to s next =
     (let prev = current s;
          s1 = (if tstate (thr s prev) = T_RUNNING \<and> prev \<noteq> Idle
                then upd_thr prev (\<lambda>t. t\<lparr>tstate := T_RUNNABLE\<rparr>) s else s);
          s2 = (if next \<noteq> Idle then upd_thr next (\<lambda>t. t\<lparr>tstate := T_RUNNING\<rparr>) s1 else s1)
      in s2\<lparr>tss_rsp0 := kstack_top (thr s2 next), current := next\<rparr>)"

definition schedule :: "'a sched_scheme \<Rightarrow> 'a sched_scheme" where
  "schedule s =
     (case switch_target s of
        None \<Rightarrow> s
      | Some next \<Rightarrow> if next = current s then s else switch_to s next)"

text \<open>The thread then halts in a loop until the next tick takes the processor away for good.\<close>

definition thread_exit :: "'a sched_scheme \<Rightarrow> 'a sched_scheme" where
  "thread_exit s = upd_thr (current s) (\<lambda>t. t\<lparr>tstate := T_DEAD\<rparr>) s"

section \<open>Basic facts\<close>

lemma thread_by_id_Some_iff [simp]:
  "thread_by_id d = Some i \<longleftrightarrow> d = int i \<and> i < SCHED_MAX_THREADS"
  by (auto simp: thread_by_id_def)

lemma thread_by_id_None_iff: "thread_by_id d = None \<longleftrightarrow> d < 0 \<or> d \<ge> int SCHED_MAX_THREADS"
  by (simp add: thread_by_id_def)

lemma thread_by_id_int [simp]: "i < SCHED_MAX_THREADS \<Longrightarrow> thread_by_id (int i) = Some i"
  by simp

lemma upd_thr_frame [frame_simps, simp]:
  "current (upd_thr p f s) = current s" "stacks (upd_thr p f s) = stacks s"
  "tss_rsp0 (upd_thr p f s) = tss_rsp0 s" "sched.more (upd_thr p f s) = sched.more s"
  by (cases p; simp)+

lemma thr_upd_thr: "thr (upd_thr p f s) q = (if p = q then f (thr s q) else thr s q)"
  by (cases p; cases q) auto

lemma threads_upd_thr:
  "threads (upd_thr p f s) i = (if p = Slot i then f (threads s i) else threads s i)"
  by (cases p) auto

lemma idle_upd_thr: "idle (upd_thr p f s) = (if p = Idle then f (idle s) else idle s)"
  by (cases p) auto

lemmas upd_thr_simps [simp] = thr_upd_thr threads_upd_thr idle_upd_thr

declare upd_thr.simps [simp del]

lemma scan_slot_bound: "scan_slot f k < SCHED_MAX_THREADS"
  by (simp add: scan_slot_def nat_less_iff)

lemma cap_clear_frame [frame_simps, simp]:
  "kont (cap_clear t) = kont t" "tstate (cap_clear t) = tstate t" "tid (cap_clear t) = tid t"
  "kstack_top (cap_clear t) = kstack_top t" "ipc_state (cap_clear t) = ipc_state t"
  "ipc_peer (cap_clear t) = ipc_peer t" "ipc_call_to (cap_clear t) = ipc_call_to t"
  "ipc_from (cap_clear t) = ipc_from t" "irq_pending (cap_clear t) = irq_pending t"
  "ipc_buf (cap_clear t) = ipc_buf t" "tf (cap_clear t) = tf t"
  by (simp_all add: cap_clear_def)

section \<open>The scheduler's invariant\<close>

text \<open>
  \<open>sched_inv\<close>: identifiers are slot numbers, the current thread is the idle thread or a
  slot, and no other thread is running.  Between two kernel entries the current thread is
  also marked running (\<open>running_ok\<close>); inside the kernel it may just have blocked or died.
\<close>

definition sched_inv :: "'a sched_scheme \<Rightarrow> bool" where
  "sched_inv s \<longleftrightarrow>
     (\<forall>i<SCHED_MAX_THREADS. tid (threads s i) = int i) \<and>
     tid (idle s) = - 1 \<and> tstate (idle s) = T_RUNNING \<and>
     (case current s of Idle \<Rightarrow> True | Slot i \<Rightarrow> i < SCHED_MAX_THREADS) \<and>
     (\<forall>i<SCHED_MAX_THREADS. tstate (threads s i) = T_RUNNING \<longrightarrow> current s = Slot i)"

definition running_ok :: "'a sched_scheme \<Rightarrow> bool" where
  "running_ok s \<longleftrightarrow> sched_inv s \<and>
     (case current s of Idle \<Rightarrow> True | Slot i \<Rightarrow> tstate (threads s i) = T_RUNNING)"

lemma sched_inv_tid: "sched_inv s \<Longrightarrow> i < SCHED_MAX_THREADS \<Longrightarrow> tid (threads s i) = int i"
  by (simp add: sched_inv_def)

lemma sched_inv_current: "sched_inv s \<Longrightarrow> current s = Slot i \<Longrightarrow> i < SCHED_MAX_THREADS"
  by (simp add: sched_inv_def)

lemma running_ok_inv: "running_ok s \<Longrightarrow> sched_inv s"
  by (simp add: running_ok_def)

lemma sched_init_running_ok: "running_ok (sched_init s)"
  by (simp add: running_ok_def sched_inv_def sched_init_def)

text \<open>Updates of a thread that do not touch its identifier and do not make it run.\<close>

lemma sched_inv_upd_thr:
  assumes "sched_inv s" and "tid (f (thr s p)) = tid (thr s p)"
    and "tstate (f (thr s p)) = T_RUNNING \<Longrightarrow> tstate (thr s p) = T_RUNNING"
    and "p = Idle \<Longrightarrow> tstate (f (idle s)) = T_RUNNING"
  shows "sched_inv (upd_thr p f s)"
  using assms by (cases p) (auto simp: sched_inv_def split: if_splits tptr.splits)

lemma free_thread_SomeD:
  assumes "free_thread s = Some i"
  shows "i < SCHED_MAX_THREADS" "tstate (threads s i) \<in> {T_UNUSED, T_DEAD}"
  using assms by (auto simp: free_thread_def first_fit_Some_iff)

lemma create_thread_in_simps [simp]:
  "tstate (create_thread_in s i p t) = T_RUNNABLE" "tid (create_thread_in s i p t) = tid t"
  "kont (create_thread_in s i p t) = K_start p" "ipc_state (create_thread_in s i p t) = IPC_NONE"
  "kstack_top (create_thread_in s i p t) = stack_top s i"
  "ipc_call_to (create_thread_in s i p t) = - 1" "irq_pending (create_thread_in s i p t) = 0"
  by (simp_all add: create_thread_in_def)

lemma thread_create_sched_inv: "sched_inv s \<Longrightarrow> sched_inv (fst (thread_create s prog))"
  by (auto simp: thread_create_def intro!: sched_inv_upd_thr split: option.splits)

lemma thread_create_running_ok:
  "running_ok s \<Longrightarrow> running_ok (fst (thread_create s prog))"
  using thread_create_sched_inv [of s prog]
  by (auto simp: running_ok_def thread_create_def dest: free_thread_SomeD(2) split: option.splits tptr.splits)

section \<open>Round robin\<close>

text \<open>The number of slots the scan skips before it reaches slot \<open>i\<close>.\<close>

definition scan_dist :: "'a sched_scheme \<Rightarrow> nat \<Rightarrow> nat" where
  "scan_dist s i = nat ((int i - scan_from s) mod int SCHED_MAX_THREADS)"

lemma scan_dist_bound: "scan_dist s i < SCHED_MAX_THREADS"
  by (simp add: scan_dist_def nat_less_iff)

lemma scan_slot_dist: "i < SCHED_MAX_THREADS \<Longrightarrow> scan_slot (scan_from s) (scan_dist s i) = i"
  by (simp add: scan_slot_def scan_dist_def mod_simps)

lemma scan_dist_slot: "k < SCHED_MAX_THREADS \<Longrightarrow> scan_dist s (scan_slot (scan_from s) k) = k"
  by (simp add: scan_slot_def scan_dist_def mod_simps)

lemma pick_next_Some_iff:
  "pick_next s = Some n \<longleftrightarrow>
     n < SCHED_MAX_THREADS \<and> tstate (threads s n) = T_RUNNABLE \<and>
     (\<forall>i<SCHED_MAX_THREADS. tstate (threads s i) = T_RUNNABLE \<longrightarrow> scan_dist s n \<le> scan_dist s i)"
  (is "?L \<longleftrightarrow> ?R")
proof
  assume ?L
  then obtain k where k: "k < SCHED_MAX_THREADS" "n = scan_slot (scan_from s) k"
    "tstate (threads s n) = T_RUNNABLE"
    "\<forall>j<k. tstate (threads s (scan_slot (scan_from s) j)) \<noteq> T_RUNNABLE"
    by (auto simp: pick_next_def first_fit_Some_iff)
  moreover have "k \<le> scan_dist s i" if "i < SCHED_MAX_THREADS" "tstate (threads s i) = T_RUNNABLE" for i
    using k(4) that scan_slot_dist [of i s] by (metis linorder_not_less)
  ultimately show ?R
    by (simp add: scan_slot_bound scan_dist_slot)
next
  assume r: ?R
  have "tstate (threads s (scan_slot (scan_from s) j)) \<noteq> T_RUNNABLE" if "j < scan_dist s n" for j
  proof -
    have "j < SCHED_MAX_THREADS" using that scan_dist_bound [of s n] by simp
    with r that show ?thesis
      by (metis linorder_not_less scan_dist_slot scan_slot_bound)
  qed
  with r have "first_fit (\<lambda>k. tstate (threads s (scan_slot (scan_from s) k)) = T_RUNNABLE)
      SCHED_MAX_THREADS = Some (scan_dist s n)"
    by (simp add: first_fit_Some_iff scan_dist_bound scan_slot_dist)
  with r show ?L
    by (simp add: pick_next_def scan_slot_dist)
qed

lemma pick_next_None_iff:
  "pick_next s = None \<longleftrightarrow> (\<forall>i<SCHED_MAX_THREADS. tstate (threads s i) \<noteq> T_RUNNABLE)"
  unfolding pick_next_def map_option_is_None first_fit_None_iff
  by (metis scan_dist_bound scan_slot_bound scan_slot_dist)

lemma pick_next_SomeD:
  assumes "pick_next s = Some n"
  shows "n < SCHED_MAX_THREADS" "tstate (threads s n) = T_RUNNABLE"
  using assms by (simp_all add: pick_next_Some_iff)

section \<open>What a call of schedule changes\<close>

lemma schedule_frame [frame_simps, simp]:
  "stacks (schedule s) = stacks s" "sched.more (schedule s) = sched.more s"
  by (auto simp: schedule_def switch_to_def Let_def split: option.splits)

lemma thr_switch_to:
  "thr (switch_to s next) q =
     (if q = next \<and> next \<noteq> Idle then (thr s q)\<lparr>tstate := T_RUNNING\<rparr>
      else if q = current s \<and> q \<noteq> Idle \<and> tstate (thr s q) = T_RUNNING then (thr s q)\<lparr>tstate := T_RUNNABLE\<rparr>
      else thr s q)"
proof -
  have thr_ext: "thr (u\<lparr>tss_rsp0 := x, current := y\<rparr>) q = thr u q" for u :: "'a sched_scheme" and x y
    by (cases q) auto
  show ?thesis
    by (auto simp: switch_to_def Let_def thr_ext)
qed

lemma threads_switch_to:
  "threads (switch_to s next) i =
     (if next = Slot i then (threads s i)\<lparr>tstate := T_RUNNING\<rparr>
      else if current s = Slot i \<and> tstate (threads s i) = T_RUNNING then (threads s i)\<lparr>tstate := T_RUNNABLE\<rparr>
      else threads s i)"
  using thr_switch_to [of s "next" "Slot i"] by (auto split: if_splits)

lemma switch_to_simps [simp]:
  "current (switch_to s next) = next" "idle (switch_to s next) = idle s"
  "tss_rsp0 (switch_to s next) = kstack_top (thr s next)"
  by (auto simp: switch_to_def Let_def)

text \<open>Only the state field of a thread changes.\<close>

lemma thr_schedule: "\<exists>st. thr (schedule s) p = (thr s p)\<lparr>tstate := st\<rparr>"
proof -
  have same: "\<exists>st. t = t\<lparr>tstate := st\<rparr>" for t :: thread
    by (rule exI [of _ "tstate t"]) simp
  show ?thesis
    using same by (auto simp: schedule_def thr_switch_to split: option.splits)
qed

lemma schedule_thread_frame [frame_simps, simp]:
  "kont (thr (schedule s) p) = kont (thr s p)"
  "tid (thr (schedule s) p) = tid (thr s p)"
  "kstack_top (thr (schedule s) p) = kstack_top (thr s p)"
  "ipc_state (thr (schedule s) p) = ipc_state (thr s p)"
  "ipc_peer (thr (schedule s) p) = ipc_peer (thr s p)"
  "ipc_call_to (thr (schedule s) p) = ipc_call_to (thr s p)"
  "ipc_from (thr (schedule s) p) = ipc_from (thr s p)"
  "irq_pending (thr (schedule s) p) = irq_pending (thr s p)"
  "ipc_buf (thr (schedule s) p) = ipc_buf (thr s p)"
  "ctable (thr (schedule s) p) = ctable (thr s p)"
  "tf (thr (schedule s) p) = tf (thr s p)"
  using thr_schedule [of s p] by auto

lemma schedule_threads_frame [frame_simps, simp]:
  "kont (threads (schedule s) i) = kont (threads s i)"
  "tid (threads (schedule s) i) = tid (threads s i)"
  "kstack_top (threads (schedule s) i) = kstack_top (threads s i)"
  "ipc_state (threads (schedule s) i) = ipc_state (threads s i)"
  "ipc_peer (threads (schedule s) i) = ipc_peer (threads s i)"
  "ipc_call_to (threads (schedule s) i) = ipc_call_to (threads s i)"
  "ipc_from (threads (schedule s) i) = ipc_from (threads s i)"
  "irq_pending (threads (schedule s) i) = irq_pending (threads s i)"
  "ipc_buf (threads (schedule s) i) = ipc_buf (threads s i)"
  "ctable (threads (schedule s) i) = ctable (threads s i)"
  "tf (threads (schedule s) i) = tf (threads s i)"
  using schedule_thread_frame [of s "Slot i"] by simp_all

lemma idle_schedule [frame_simps, simp]: "idle (schedule s) = idle s"
  by (auto simp: schedule_def split: option.splits)

lemma schedule_cases:
  obtains (stay) "schedule s = s" "switch_target s = None \<or> switch_target s = Some (current s)"
    | (move) p where "schedule s = switch_to s p" "switch_target s = Some p" "p \<noteq> current s"
  by (cases "switch_target s") (auto simp: schedule_def split: if_splits)

lemma switch_target_SomeE:
  assumes "switch_target s = Some p"
  obtains (slot) n where "p = Slot n" "pick_next s = Some n"
    | (idle) "p = Idle" "pick_next s = None" "current s \<noteq> Idle"
  using assms by (auto simp: switch_target_def split: option.splits if_splits)

text \<open>A thread that is not the current one keeps its state, or starts to run.\<close>

lemma schedule_other_state:
  assumes "current s \<noteq> Slot i" and "current (schedule s) \<noteq> Slot i"
  shows "threads (schedule s) i = threads s i"
  using assms by (cases s rule: schedule_cases) (auto simp: threads_switch_to)

lemma sched_invD:
  assumes "sched_inv s"
  shows "i < SCHED_MAX_THREADS \<Longrightarrow> tid (threads s i) = int i"
    and "tid (idle s) = - 1" and "tstate (idle s) = T_RUNNING"
    and "current s = Slot i \<Longrightarrow> i < SCHED_MAX_THREADS"
    and "i < SCHED_MAX_THREADS \<Longrightarrow> tstate (threads s i) = T_RUNNING \<Longrightarrow> current s = Slot i"
  using assms by (simp_all add: sched_inv_def)

lemma switch_to_running_ok:
  assumes inv: "sched_inv s" and p: "\<And>n. p = Slot n \<Longrightarrow> n < SCHED_MAX_THREADS"
  shows "running_ok (switch_to s p)"
proof -
  have tids: "\<forall>i<SCHED_MAX_THREADS. tid (threads (switch_to s p) i) = int i"
    using sched_invD(1) [OF inv] by (simp add: threads_switch_to)
  have only: "\<forall>i<SCHED_MAX_THREADS. tstate (threads (switch_to s p) i) = T_RUNNING \<longrightarrow> p = Slot i"
  proof (intro allI impI)
    fix i assume "i < SCHED_MAX_THREADS" "tstate (threads (switch_to s p) i) = T_RUNNING"
    then show "p = Slot i"
      using sched_invD(5) [OF inv, of i] by (auto simp: threads_switch_to split: if_splits)
  qed
  have "sched_inv (switch_to s p)"
    unfolding sched_inv_def switch_to_simps
  proof (intro conjI)
    show "case p of Idle \<Rightarrow> True | Slot i \<Rightarrow> i < SCHED_MAX_THREADS"
      using p by (cases p) auto
  qed (use tids only sched_invD(2,3) [OF inv] in blast)+
  then show ?thesis
    unfolding running_ok_def by (auto simp: threads_switch_to split: tptr.split)
qed

theorem schedule_running_ok:
  assumes inv: "sched_inv s"
    and cur: "\<And>i. current s = Slot i \<Longrightarrow> tstate (threads s i) \<noteq> T_RUNNABLE"
  shows "running_ok (schedule s)"
proof (cases s rule: schedule_cases)
  case stay
  have "pick_next s = None \<and> current s = Idle"
    using stay(2) cur
    by (auto simp: switch_target_def dest: pick_next_SomeD split: option.splits if_splits)
  with stay(1) inv show ?thesis by (simp add: running_ok_def)
next
  case (move p)
  have "n < SCHED_MAX_THREADS" if "p = Slot n" for n
    using move(2) that by (auto elim: switch_target_SomeE dest: pick_next_SomeD(1))
  with move(1) inv show ?thesis by (simp add: switch_to_running_ok)
qed

section \<open>Bounded waiting\<close>

lemma schedule_moves_on:
  assumes ok: "running_ok s" and i: "i < SCHED_MAX_THREADS" "tstate (threads s i) = T_RUNNABLE"
  obtains n where "current (schedule s) = Slot n" "pick_next s = Some n" "Slot n \<noteq> current s"
proof -
  obtain n where n: "pick_next s = Some n"
    using i pick_next_None_iff [of s] by (cases "pick_next s") auto
  have "Slot n \<noteq> current s"
    using ok pick_next_SomeD [OF n] by (auto simp: running_ok_def split: tptr.splits)
  with n have "current (schedule s) = Slot n"
    by (simp add: schedule_def switch_target_def)
  with n \<open>Slot n \<noteq> current s\<close> show thesis by (rule that [rotated])
qed

lemma schedule_preserves_running_ok: "running_ok s \<Longrightarrow> running_ok (schedule s)"
  by (rule schedule_running_ok) (auto simp: running_ok_def)

text \<open>
  Each call of \<open>schedule\<close> either runs a waiting thread or brings the scan strictly nearer
  to it, so a runnable thread is running after at most sixteen calls.
\<close>

lemma cyclic_dist_step:
  "(y - f) mod 16 < (x - f) mod 16 \<Longrightarrow>
   (x - (y + 1)) mod 16 = (x - f) mod 16 - (y - f) mod 16 - (1 :: int)"
proof -
  assume lt: "(y - f) mod 16 < (x - f) mod 16"
  have eq: "x - (y + 1) = (x - f) - (y - f) - 1" by simp
  have "(x - (y + 1)) mod 16 = ((x - f) mod 16 - (y - f) mod 16 - 1) mod 16"
    unfolding eq by (metis mod_diff_eq mod_mod_trivial)
  moreover have "0 \<le> (x - f) mod 16 - (y - f) mod 16 - 1" "(x - f) mod 16 - (y - f) mod 16 - 1 < 16"
    using lt pos_mod_bound [of 16 "x - f"] pos_mod_sign [of 16 "y - f"] by linarith+
  ultimately show ?thesis by (simp add: mod_pos_pos_trivial)
qed

lemma schedule_progress:
  assumes ok: "running_ok s" and i: "i < SCHED_MAX_THREADS" "tstate (threads s i) = T_RUNNABLE"
    and not: "current (schedule s) \<noteq> Slot i"
  shows "tstate (threads (schedule s) i) = T_RUNNABLE \<and> scan_dist (schedule s) i < scan_dist s i"
proof -
  obtain n where n: "current (schedule s) = Slot n" "pick_next s = Some n"
    using schedule_moves_on [OF ok i] by blast
  have cur: "current s \<noteq> Slot i" using ok i by (auto simp: running_ok_def)
  have st: "tstate (threads (schedule s) i) = T_RUNNABLE"
    using schedule_other_state [OF cur not] i(2) by simp
  from n(2) have n16: "n < SCHED_MAX_THREADS" and le: "scan_dist s n \<le> scan_dist s i"
    using i by (simp_all add: pick_next_Some_iff)
  have tidn: "tid (threads s n) = int n"
    using running_ok_inv [OF ok] n16 by (rule sched_inv_tid)
  have from': "scan_from (schedule s) = int n + 1"
    using n(1) by (simp add: scan_from_def tidn)
  have ne: "n \<noteq> i" using n(1) not by auto
  have "scan_dist s n \<noteq> scan_dist s i"
    using ne n16 i(1) scan_slot_dist by metis
  with le have lt: "scan_dist s n < scan_dist s i" by simp
  have "(int i - (int n + 1)) mod 16 = (int i - scan_from s) mod 16 - (int n - scan_from s) mod 16 - 1"
    using lt unfolding scan_dist_def by (intro cyclic_dist_step) simp
  then have "scan_dist (schedule s) i < scan_dist s i"
    using lt unfolding scan_dist_def from' by auto
  with st show ?thesis by simp
qed

theorem round_robin_bound:
  assumes "running_ok s" and "i < SCHED_MAX_THREADS" and "tstate (threads s i) = T_RUNNABLE"
  shows "\<exists>n \<le> scan_dist s i. current ((schedule ^^ Suc n) s) = Slot i"
  using assms
proof (induction "scan_dist s i" arbitrary: s rule: less_induct)
  case less
  show ?case
  proof (cases "current (schedule s) = Slot i")
    case True
    then show ?thesis by (intro exI [of _ 0]) simp
  next
    case False
    note step = schedule_progress [OF less.prems False]
    obtain n where "n \<le> scan_dist (schedule s) i" "current ((schedule ^^ Suc n) (schedule s)) = Slot i"
      using less.hyps [of "schedule s"] step less.prems schedule_preserves_running_ok by blast
    with step have "Suc n \<le> scan_dist s i \<and> current ((schedule ^^ Suc (Suc n)) s) = Slot i"
      by (simp add: funpow_swap1)
    then show ?thesis by blast
  qed
qed

end
