(* ===== verification/Ipc.thy ===== *)
theory Ipc
  imports Sched
begin

text \<open>
  Synchronous rendezvous IPC (\<^verbatim>\<open>kernel/ipc.c\<close>).  A call that would block returns
  \<open>None\<close>, after it has marked the caller as blocked: its caller records in \<open>kont\<close> where the
  thread stopped and calls \<open>schedule\<close>.  The code that runs after \<open>schedule\<close> has
  returned is the \<open>_resume\<close> operation.  An \<open>out\<close> parameter is the message it points to before
  the call, of which an interrupt notification overwrites the label only.
\<close>

section \<open>Operations\<close>

definition find_waiting_sender :: "'a sched_scheme \<Rightarrow> thread \<Rightarrow> int \<Rightarrow> nat option" where
  "find_waiting_sender s me want =
     first_fit (\<lambda>i. tstate (threads s i) = T_BLOCKED \<and> ipc_state (threads s i) = IPC_SENDING \<and>
       ipc_peer (threads s i) = tid me \<and> (want = IPC_ANY \<or> want = tid (threads s i))) SCHED_MAX_THREADS"

definition receiver_ready :: "thread \<Rightarrow> int \<Rightarrow> bool" where
  "receiver_ready dst from \<longleftrightarrow> tstate dst = T_BLOCKED \<and> ipc_state dst = IPC_RECEIVING \<and>
     (ipc_peer dst = IPC_ANY \<or> ipc_peer dst = from)"

definition deliver :: "ipc_msg \<Rightarrow> int \<Rightarrow> thread \<Rightarrow> thread" where
  "deliver msg from dst = thread_wake (dst\<lparr>ipc_buf := msg, ipc_from := from, ipc_state := IPC_NONE\<rparr>)"

definition stage_send :: "ipc_msg \<Rightarrow> int \<Rightarrow> thread \<Rightarrow> thread" where
  "stage_send msg dest self =
     thread_block (self\<lparr>ipc_buf := msg, ipc_state := IPC_SENDING, ipc_peer := dest\<rparr>)"

definition stage_recv :: "int \<Rightarrow> thread \<Rightarrow> thread" where
  "stage_recv src self = thread_block (self\<lparr>ipc_state := IPC_RECEIVING, ipc_peer := src\<rparr>)"

definition release_sender :: "thread \<Rightarrow> thread" where
  "release_sender t = thread_wake (t\<lparr>ipc_state := IPC_NONE\<rparr>)"

definition ipc_send_locked ::
    "'a sched_scheme \<Rightarrow> tptr \<Rightarrow> int \<Rightarrow> ipc_msg \<Rightarrow> 'a sched_scheme \<times> int option" where
  "ipc_send_locked s self dest msg =
     (case thread_by_id dest of
        None \<Rightarrow> (s, Some (- 1))
      | Some d \<Rightarrow>
          if tstate (threads s d) = T_UNUSED \<or> tstate (threads s d) = T_DEAD then (s, Some (- 1))
          else if receiver_ready (threads s d) (tid (thr s self))
            then (upd_thr (Slot d) (deliver msg (tid (thr s self))) s, Some 0)
          else (upd_thr self (stage_send msg dest) s, None))"

definition ipc_send_resume :: "'a sched_scheme \<Rightarrow> tptr \<Rightarrow> 'a sched_scheme \<times> int" where
  "ipc_send_resume s self = (upd_thr self (\<lambda>t. t\<lparr>ipc_state := IPC_NONE\<rparr>) s, 0)"

definition ipc_recv_locked ::
    "'a sched_scheme \<Rightarrow> tptr \<Rightarrow> int \<Rightarrow> ipc_msg \<Rightarrow> 'a sched_scheme \<times> (int \<times> ipc_msg) option" where
  "ipc_recv_locked s self src out =
     (if irq_pending (thr s self) \<noteq> 0 then
        (upd_thr self (\<lambda>t. t\<lparr>irq_pending := irq_pending t - 1\<rparr>) s,
         Some (IPC_IRQ_SENDER, out\<lparr>m_label := MSG_IRQ\<rparr>))
      else case find_waiting_sender s (thr s self) src of
        Some i \<Rightarrow> (upd_thr (Slot i) release_sender s, Some (tid (threads s i), ipc_buf (threads s i)))
      | None \<Rightarrow> (upd_thr self (stage_recv src) s, None))"

definition ipc_recv_resume ::
    "'a sched_scheme \<Rightarrow> tptr \<Rightarrow> ipc_msg \<Rightarrow> 'a sched_scheme \<times> int \<times> ipc_msg" where
  "ipc_recv_resume s self out =
     (if ipc_state (thr s self) = IPC_RECEIVING then
        (upd_thr self (\<lambda>t. t\<lparr>ipc_state := IPC_NONE,
             irq_pending := (if irq_pending t \<noteq> 0 then irq_pending t - 1 else irq_pending t)\<rparr>) s,
         IPC_IRQ_SENDER, out\<lparr>m_label := MSG_IRQ\<rparr>)
      else
        (upd_thr self (\<lambda>t. t\<lparr>ipc_state := IPC_NONE\<rparr>) s, ipc_from (thr s self), ipc_buf (thr s self)))"

text \<open>The wrappers for kernel threads, up to the switch away when they block.\<close>

definition ipc_send :: "'a sched_scheme \<Rightarrow> int \<Rightarrow> ipc_msg \<Rightarrow> 'a sched_scheme \<times> int option" where
  "ipc_send s dest msg = ipc_send_locked s (current s) dest msg"

definition ipc_recv :: "'a sched_scheme \<Rightarrow> int \<Rightarrow> ipc_msg \<Rightarrow> 'a sched_scheme \<times> (int \<times> ipc_msg) option" where
  "ipc_recv s src out = ipc_recv_locked s (current s) src out"

definition ipc_send_cap :: "'a sched_scheme \<Rightarrow> int \<Rightarrow> ipc_msg \<Rightarrow> 'a sched_scheme \<times> int option" where
  "ipc_send_cap s slot msg =
     (case cap_resolve_send (thr s (current s)) slot of
        None \<Rightarrow> (s, Some (- 1))
      | Some target \<Rightarrow> ipc_send s target msg)"

section \<open>Effects on a thread\<close>

lemma thread_wake_simps [simp]:
  "kont (thread_wake t) = kont t" "tid (thread_wake t) = tid t" "kstack_top (thread_wake t) = kstack_top t"
  "ipc_state (thread_wake t) = ipc_state t" "ipc_peer (thread_wake t) = ipc_peer t"
  "ipc_call_to (thread_wake t) = ipc_call_to t" "ipc_from (thread_wake t) = ipc_from t"
  "irq_pending (thread_wake t) = irq_pending t" "ipc_buf (thread_wake t) = ipc_buf t"
  "ctable (thread_wake t) = ctable t" "tf (thread_wake t) = tf t"
  "tstate (thread_wake t) = (if tstate t = T_BLOCKED then T_RUNNABLE else tstate t)"
  by (simp_all add: thread_wake_def)

lemma thread_block_simps [simp]:
  "kont (thread_block t) = kont t" "tid (thread_block t) = tid t" "kstack_top (thread_block t) = kstack_top t"
  "ipc_state (thread_block t) = ipc_state t" "ipc_peer (thread_block t) = ipc_peer t"
  "ipc_call_to (thread_block t) = ipc_call_to t" "ipc_from (thread_block t) = ipc_from t"
  "irq_pending (thread_block t) = irq_pending t" "ipc_buf (thread_block t) = ipc_buf t"
  "ctable (thread_block t) = ctable t" "tf (thread_block t) = tf t" "tstate (thread_block t) = T_BLOCKED"
  by (simp_all add: thread_block_def)

lemmas ipc_thread_defs = deliver_def stage_send_def stage_recv_def release_sender_def

lemma find_waiting_sender_Some_iff:
  "find_waiting_sender s me want = Some i \<longleftrightarrow>
     i < SCHED_MAX_THREADS \<and>
     (tstate (threads s i) = T_BLOCKED \<and> ipc_state (threads s i) = IPC_SENDING \<and>
      ipc_peer (threads s i) = tid me \<and> (want = IPC_ANY \<or> want = tid (threads s i))) \<and>
     (\<forall>j<i. \<not> (tstate (threads s j) = T_BLOCKED \<and> ipc_state (threads s j) = IPC_SENDING \<and>
      ipc_peer (threads s j) = tid me \<and> (want = IPC_ANY \<or> want = tid (threads s j))))"
  by (simp add: find_waiting_sender_def first_fit_Some_iff)

lemma find_waiting_sender_SomeD:
  assumes "find_waiting_sender s me want = Some i"
  shows "i < SCHED_MAX_THREADS" "tstate (threads s i) = T_BLOCKED" "ipc_state (threads s i) = IPC_SENDING"
    "ipc_peer (threads s i) = tid me" "want = IPC_ANY \<or> want = tid (threads s i)"
  using assms by (simp_all add: find_waiting_sender_Some_iff)

lemma find_waiting_sender_None_iff:
  "find_waiting_sender s me want = None \<longleftrightarrow>
     (\<forall>i<SCHED_MAX_THREADS. tstate (threads s i) = T_BLOCKED \<longrightarrow> ipc_state (threads s i) = IPC_SENDING \<longrightarrow>
       ipc_peer (threads s i) = tid me \<longrightarrow> want \<noteq> IPC_ANY \<and> want \<noteq> tid (threads s i))"
  by (auto simp: find_waiting_sender_def first_fit_None_iff)

lemma ipc_send_cases:
  assumes "ipc_send_locked s self dest msg = (s', r)"
  obtains (dead) "s' = s" "r = Some (- 1)"
      "\<And>d. dest = int d \<Longrightarrow> d < SCHED_MAX_THREADS \<Longrightarrow> tstate (threads s d) \<in> {T_UNUSED, T_DEAD}"
    | (now) d where "dest = int d" "d < SCHED_MAX_THREADS" "receiver_ready (threads s d) (tid (thr s self))"
      "s' = upd_thr (Slot d) (deliver msg (tid (thr s self))) s" "r = Some 0"
    | (block) d where "dest = int d" "d < SCHED_MAX_THREADS" "tstate (threads s d) \<notin> {T_UNUSED, T_DEAD}"
      "\<not> receiver_ready (threads s d) (tid (thr s self))"
      "s' = upd_thr self (stage_send msg dest) s" "r = None"
proof (cases "thread_by_id dest")
  case None
  then have "s' = s" "r = Some (- 1)" using assms by (simp_all add: ipc_send_locked_def)
  then show thesis
  proof (rule dead)
    fix d assume "dest = int d" "d < SCHED_MAX_THREADS"
    with None show "tstate (threads s d) \<in> {T_UNUSED, T_DEAD}" by simp
  qed
next
  case (Some d)
  then have d: "dest = int d" "d < SCHED_MAX_THREADS" by simp_all
  show thesis
  proof (cases "tstate (threads s d) \<in> {T_UNUSED, T_DEAD}")
    case True
    then show thesis using assms Some d dead by (auto simp: ipc_send_locked_def)
  next
    case alive: False
    show thesis
      using assms Some alive now [OF d] block [OF d]
      by (cases "receiver_ready (threads s d) (tid (thr s self))") (simp_all add: ipc_send_locked_def)
  qed
qed

lemma ipc_recv_cases:
  assumes "ipc_recv_locked s self src out = (s', r)"
  obtains (irq) "irq_pending (thr s self) \<noteq> 0"
      "s' = upd_thr self (\<lambda>t. t\<lparr>irq_pending := irq_pending t - 1\<rparr>) s"
      "r = Some (IPC_IRQ_SENDER, out\<lparr>m_label := MSG_IRQ\<rparr>)"
    | (sender) i where "irq_pending (thr s self) = 0" "find_waiting_sender s (thr s self) src = Some i"
      "s' = upd_thr (Slot i) release_sender s" "r = Some (tid (threads s i), ipc_buf (threads s i))"
    | (block) "irq_pending (thr s self) = 0" "find_waiting_sender s (thr s self) src = None"
      "s' = upd_thr self (stage_recv src) s" "r = None"
  using assms unfolding ipc_recv_locked_def by (auto split: if_splits option.splits)

section \<open>The invariant of rendezvous\<close>

text \<open>
  A blocked thread stopped in a send or in a receive, and then with no interrupt pending.  A
  thread that may run is at rest, or is a receiver that an interrupt woke.
\<close>

definition in_send :: "thread \<Rightarrow> bool" where
  "in_send t \<longleftrightarrow> kont t = K_send \<or> kont t = K_fault_send"

definition in_recv :: "thread \<Rightarrow> bool" where
  "in_recv t \<longleftrightarrow> kont t = K_recv \<or> kont t = K_fault_recv"

definition thread_ok :: "thread \<Rightarrow> bool" where
  "thread_ok t \<longleftrightarrow>
     (tstate t = T_BLOCKED \<longrightarrow>
        ipc_state t = IPC_SENDING \<and> in_send t \<or>
        ipc_state t = IPC_RECEIVING \<and> in_recv t \<and> irq_pending t = 0) \<and>
     (tstate t = T_RUNNABLE \<or> tstate t = T_RUNNING \<longrightarrow>
        ipc_state t = IPC_NONE \<and> kont t \<noteq> K_dead \<or>
        ipc_state t = IPC_RECEIVING \<and> in_recv t)"

definition is_sender :: "thread \<Rightarrow> int \<Rightarrow> bool" where
  "is_sender t dest \<longleftrightarrow> tstate t = T_BLOCKED \<and> ipc_state t = IPC_SENDING \<and> ipc_peer t = dest"

text \<open>No sender and receiver that could meet are both blocked.\<close>

definition no_missed :: "'a sched_scheme \<Rightarrow> bool" where
  "no_missed s \<longleftrightarrow> (\<forall>i<SCHED_MAX_THREADS. \<forall>j<SCHED_MAX_THREADS.
     is_sender (threads s i) (int j) \<longrightarrow> \<not> receiver_ready (threads s j) (int i))"

definition ipc_inv :: "'a sched_scheme \<Rightarrow> bool" where
  "ipc_inv s \<longleftrightarrow> (\<forall>i<SCHED_MAX_THREADS. thread_ok (threads s i)) \<and> no_missed s"

lemma ipc_invD:
  assumes "ipc_inv s"
  shows "i < SCHED_MAX_THREADS \<Longrightarrow> thread_ok (threads s i)"
    and "i < SCHED_MAX_THREADS \<Longrightarrow> j < SCHED_MAX_THREADS \<Longrightarrow> is_sender (threads s i) (int j) \<Longrightarrow>
      \<not> receiver_ready (threads s j) (int i)"
  using assms by (auto simp: ipc_inv_def no_missed_def)

text \<open>
  The general step: threads may change as long as each stays well formed and a new sender or a
  new receiver meets nobody who waits for it.
\<close>

lemma ipc_inv_step:
  assumes inv: "ipc_inv s"
    and ok: "\<And>i. i < SCHED_MAX_THREADS \<Longrightarrow> thread_ok (threads s' i)"
    and snd: "\<And>i d. i < SCHED_MAX_THREADS \<Longrightarrow> is_sender (threads s' i) d \<Longrightarrow> is_sender (threads s i) d"
    and rcv: "\<And>j x. j < SCHED_MAX_THREADS \<Longrightarrow> receiver_ready (threads s' j) x \<Longrightarrow> receiver_ready (threads s j) x"
  shows "ipc_inv s'"
  using assms unfolding ipc_inv_def no_missed_def by blast

lemma ipc_inv_upd:
  assumes inv: "ipc_inv s" and ok: "\<And>i. p = Slot i \<Longrightarrow> i < SCHED_MAX_THREADS \<Longrightarrow> thread_ok (f (threads s i))"
    and calm: "\<And>i. p = Slot i \<Longrightarrow> tstate (f (threads s i)) \<noteq> T_BLOCKED"
  shows "ipc_inv (upd_thr p f s)"
  by (rule ipc_inv_step [OF inv])
     (use ok calm ipc_invD(1) [OF inv] in \<open>auto simp: is_sender_def receiver_ready_def split: if_splits\<close>)

text \<open>Updates that leave the fields of the rendezvous and of the scheduler alone.\<close>

definition same_sched :: "thread \<Rightarrow> thread \<Rightarrow> bool" where
  "same_sched t t' \<longleftrightarrow> kont t' = kont t \<and> tstate t' = tstate t \<and> tid t' = tid t \<and>
     kstack_top t' = kstack_top t \<and> ipc_state t' = ipc_state t \<and> ipc_peer t' = ipc_peer t \<and>
     irq_pending t' = irq_pending t"

lemma same_sched_upd:
  "same_sched (thr s p) (f (thr s p)) \<Longrightarrow> same_sched (thr s q) (thr (upd_thr p f s) q)"
  "same_sched (thr s p) (f (thr s p)) \<Longrightarrow> same_sched (threads s i) (threads (upd_thr p f s) i)"
  "same_sched (thr s p) (f (thr s p)) \<Longrightarrow> same_sched (idle s) (idle (upd_thr p f s))"
  by (auto simp: same_sched_def)

lemma same_sched_cong:
  assumes "same_sched t t'"
  shows "thread_ok t' = thread_ok t" "is_sender t' d = is_sender t d" "receiver_ready t' x = receiver_ready t x"
    "tstate t' = tstate t" "tid t' = tid t" "kstack_top t' = kstack_top t" "kont t' = kont t"
  using assms by (simp_all add: same_sched_def thread_ok_def in_send_def in_recv_def is_sender_def receiver_ready_def)

lemma ipc_inv_frame:
  assumes inv: "ipc_inv s" and f: "same_sched (thr s p) (f (thr s p))"
  shows "ipc_inv (upd_thr p f s)"
  using inv unfolding ipc_inv_def no_missed_def same_sched_cong [OF same_sched_upd(2) [of s p f, OF f]] .

lemma ipc_inv_cong: "threads s' = threads s \<Longrightarrow> ipc_inv s' = ipc_inv s"
  by (simp add: ipc_inv_def no_missed_def)

lemma schedule_thread_states:
  "threads (schedule s) i = threads s i \<or>
   (tstate (threads s i) = T_RUNNABLE \<and> threads (schedule s) i = (threads s i)\<lparr>tstate := T_RUNNING\<rparr>) \<or>
   (tstate (threads s i) = T_RUNNING \<and> threads (schedule s) i = (threads s i)\<lparr>tstate := T_RUNNABLE\<rparr>)"
proof (cases s rule: schedule_cases)
  case (move p)
  have "tstate (threads s i) = T_RUNNABLE" if "p = Slot i"
    using move(2) that by (auto elim: switch_target_SomeE dest: pick_next_SomeD)
  then show ?thesis using move(1) by (auto simp: threads_switch_to)
qed simp

lemma schedule_ipc_inv:
  assumes "ipc_inv s" shows "ipc_inv (schedule s)"
proof (rule ipc_inv_step [OF assms])
  fix i :: nat assume "i < SCHED_MAX_THREADS"
  then show "thread_ok (threads (schedule s) i)"
    using ipc_invD(1) [OF assms, of i] schedule_thread_states [of s i]
    by (auto simp: thread_ok_def in_send_def in_recv_def)
next
  fix i d assume "is_sender (threads (schedule s) i) d"
  then show "is_sender (threads s i) d"
    using schedule_thread_states [of s i] by (auto simp: is_sender_def)
next
  fix i x assume "receiver_ready (threads (schedule s) i) x"
  then show "receiver_ready (threads s i) x"
    using schedule_thread_states [of s i] by (auto simp: receiver_ready_def)
qed

section \<open>Every operation keeps the invariant\<close>

text \<open>The thread that makes a call: it runs, and is not in another call.\<close>

definition caller_ok :: "'a sched_scheme \<Rightarrow> tptr \<Rightarrow> bool" where
  "caller_ok s p \<longleftrightarrow> (\<forall>i. p = Slot i \<longrightarrow> i < SCHED_MAX_THREADS \<and> tid (threads s i) = int i \<and>
     tstate (threads s i) = T_RUNNING \<and> ipc_state (threads s i) = IPC_NONE \<and>
     kont (threads s i) \<noteq> K_dead)"

text \<open>A call that blocks: the caller is marked with the point where it stopped.\<close>

definition stop_at :: "kont \<Rightarrow> tptr \<Rightarrow> 'a sched_scheme \<Rightarrow> 'a sched_scheme" where
  "stop_at k p s = upd_thr p (\<lambda>t. t\<lparr>kont := k\<rparr>) s"

lemma stop_at_frame [frame_simps, simp]:
  "current (stop_at k p s) = current s" "stacks (stop_at k p s) = stacks s"
  "tss_rsp0 (stop_at k p s) = tss_rsp0 s" "sched.more (stop_at k p s) = sched.more s"
  by (simp_all add: stop_at_def)

lemma deliver_ok: "thread_ok t \<Longrightarrow> receiver_ready t x \<Longrightarrow> thread_ok (deliver m x t)"
  by (auto simp: thread_ok_def receiver_ready_def deliver_def in_send_def in_recv_def)

lemma release_ok: "thread_ok t \<Longrightarrow> is_sender t x \<Longrightarrow> thread_ok (release_sender t)"
  by (auto simp: thread_ok_def is_sender_def release_sender_def in_send_def in_recv_def)

lemma woken [simp]: "tstate (deliver m x t) \<noteq> T_BLOCKED" "tstate (release_sender t) \<noteq> T_BLOCKED"
  by (simp_all add: deliver_def release_sender_def)

lemma take_irq_ok:
  "thread_ok t \<Longrightarrow> irq_pending t \<noteq> 0 \<Longrightarrow> tstate t = T_RUNNING \<Longrightarrow> ipc_state t = IPC_NONE \<Longrightarrow>
   thread_ok (t\<lparr>irq_pending := irq_pending t - 1\<rparr>)"
  by (auto simp: thread_ok_def)

lemma end_call_ok:
  "thread_ok t \<Longrightarrow> tstate t = T_RUNNING \<Longrightarrow> n = irq_pending t \<or> n = irq_pending t - 1 \<and> irq_pending t \<noteq> 0 \<Longrightarrow>
   thread_ok (t\<lparr>ipc_state := IPC_NONE, irq_pending := n\<rparr>)"
  by (auto simp: thread_ok_def in_recv_def)

lemma end_call_ok':
  "thread_ok t \<Longrightarrow> tstate t = T_RUNNING \<Longrightarrow> thread_ok (t\<lparr>ipc_state := IPC_NONE\<rparr>)"
  by (auto simp: thread_ok_def in_recv_def)

lemma send_ipc_inv:
  assumes inv: "ipc_inv s" and self: "caller_ok s self" and k: "k = K_send \<or> k = K_fault_send"
    and send: "ipc_send_locked s self dest msg = (s', r)"
  shows "ipc_inv (if r = None then stop_at k self s' else s')"
  using send
proof (cases rule: ipc_send_cases)
  case (now d)
  have "ipc_inv (upd_thr (Slot d) (deliver msg (tid (thr s self))) s)"
    using now ipc_invD(1) [OF inv, of d]
    by (intro ipc_inv_upd [OF inv]) (auto simp: deliver_ok)
  with now show ?thesis by simp
next
  case (block d)
  let ?s = "stop_at k self s'"
  have t: "threads ?s i = (if self = Slot i then (stage_send msg dest (threads s i))\<lparr>kont := k\<rparr> else threads s i)" for i
    by (simp add: stop_at_def block(5))
  have "ipc_inv ?s" unfolding ipc_inv_def no_missed_def
  proof (intro conjI allI impI)
    fix i :: nat assume "i < SCHED_MAX_THREADS"
    then show "thread_ok (threads ?s i)"
      using ipc_invD(1) [OF inv, of i] k
      by (auto simp: t stage_send_def thread_ok_def in_send_def)
  next
    fix i j :: nat assume ij: "i < SCHED_MAX_THREADS" "j < SCHED_MAX_THREADS" "is_sender (threads ?s i) (int j)"
    show "\<not> receiver_ready (threads ?s j) (int i)"
    proof (cases "self = Slot i")
      case True
      then have "threads ?s i = (stage_send msg dest (threads s i))\<lparr>kont := k\<rparr>" unfolding t by simp
      then have "j = d" using ij(3) block(1) unfolding is_sender_def by (simp add: stage_send_def)
      moreover have "tid (thr s self) = int i" using True self by (simp add: caller_ok_def)
      ultimately show ?thesis
        using block(4) by (auto simp: t stage_send_def receiver_ready_def)
    next
      case False
      then show ?thesis using ij ipc_invD(2) [OF inv ij(1,2)]
        by (auto simp: t stage_send_def receiver_ready_def)
    qed
  qed
  with block show ?thesis by simp
qed (use inv in simp)

lemma recv_ipc_inv:
  assumes inv: "ipc_inv s" and sch: "sched_inv s" and self: "caller_ok s self"
    and k: "k = K_recv \<or> k = K_fault_recv"
    and recv: "ipc_recv_locked s self src out = (s', r)"
  shows "ipc_inv (if r = None then stop_at k self s' else s')"
  using recv
proof (cases rule: ipc_recv_cases)
  case irq
  have "ipc_inv (upd_thr self (\<lambda>t. t\<lparr>irq_pending := irq_pending t - 1\<rparr>) s)"
    using irq(1) self ipc_invD(1) [OF inv]
    by (intro ipc_inv_upd [OF inv]) (auto simp: caller_ok_def intro!: take_irq_ok)
  with irq show ?thesis by simp
next
  case (sender i)
  note i = find_waiting_sender_SomeD [OF sender(2)]
  then have "is_sender (threads s i) (tid (thr s self))" by (simp add: is_sender_def)
  then have "ipc_inv (upd_thr (Slot i) release_sender s)"
    using i ipc_invD(1) [OF inv, of i]
    by (intro ipc_inv_upd [OF inv]) (auto simp: release_ok)
  with sender show ?thesis by simp
next
  case block
  let ?s = "stop_at k self s'"
  have t: "threads ?s i = (if self = Slot i then (stage_recv src (threads s i))\<lparr>kont := k\<rparr> else threads s i)" for i
    by (simp add: stop_at_def block(3))
  have "ipc_inv ?s" unfolding ipc_inv_def no_missed_def
  proof (intro conjI allI impI)
    fix i :: nat assume "i < SCHED_MAX_THREADS"
    then show "thread_ok (threads ?s i)"
      using ipc_invD(1) [OF inv, of i] k block(1)
      by (auto simp: t stage_recv_def thread_ok_def in_recv_def)
  next
    fix i j :: nat assume ij: "i < SCHED_MAX_THREADS" "j < SCHED_MAX_THREADS" "is_sender (threads ?s i) (int j)"
    then have old: "is_sender (threads s i) (int j)"
      by (auto simp: t is_sender_def stage_recv_def split: if_splits)
    show "\<not> receiver_ready (threads ?s j) (int i)"
    proof (cases "self = Slot j")
      case True
      then have me: "tid (thr s self) = int j" using self by (simp add: caller_ok_def)
      note none = block(2) [unfolded find_waiting_sender_None_iff me, rule_format, OF ij(1)]
      have "src \<noteq> IPC_ANY \<and> src \<noteq> tid (threads s i)"
        using none old unfolding is_sender_def by blast
      then have "src \<noteq> IPC_ANY" "src \<noteq> int i" using sch ij(1) by (simp_all add: sched_invD(1))
      moreover have "threads ?s j = (stage_recv src (threads s j))\<lparr>kont := k\<rparr>"
        using True unfolding t by simp
      ultimately show ?thesis
        unfolding receiver_ready_def by (simp add: stage_recv_def)
    next
      case False
      then show ?thesis using old ipc_invD(2) [OF inv ij(1,2)] by (simp add: t)
    qed
  qed
  with block show ?thesis by simp
qed

text \<open>A receiver that resumes and is still receiving was woken by an interrupt.\<close>

lemma recv_resume_ipc_inv:
  assumes inv: "ipc_inv s" and i: "\<And>i. self = Slot i \<Longrightarrow> i < SCHED_MAX_THREADS \<and> tstate (threads s i) = T_RUNNING"
    and r: "ipc_recv_resume s self out = (s', r)"
  shows "ipc_inv s'"
proof (cases "ipc_state (thr s self) = IPC_RECEIVING")
  case True
  then have "s' = upd_thr self (\<lambda>t. t\<lparr>ipc_state := IPC_NONE,
      irq_pending := (if irq_pending t \<noteq> 0 then irq_pending t - 1 else irq_pending t)\<rparr>) s"
    using r by (simp add: ipc_recv_resume_def)
  then show ?thesis
    using i ipc_invD(1) [OF inv] by (auto intro!: ipc_inv_upd [OF inv] end_call_ok)
next
  case False
  then have "s' = upd_thr self (\<lambda>t. t\<lparr>ipc_state := IPC_NONE\<rparr>) s"
    using r by (simp add: ipc_recv_resume_def)
  then show ?thesis
    using i ipc_invD(1) [OF inv] by (auto intro!: ipc_inv_upd [OF inv] end_call_ok')
qed

lemma send_resume_ipc_inv:
  assumes inv: "ipc_inv s" and i: "\<And>i. self = Slot i \<Longrightarrow> i < SCHED_MAX_THREADS \<and> tstate (threads s i) = T_RUNNING"
  shows "ipc_inv (fst (ipc_send_resume s self))"
  unfolding ipc_send_resume_def fst_conv
  using i ipc_invD(1) [OF inv] by (intro ipc_inv_upd [OF inv] end_call_ok') auto

lemma create_ipc_inv:
  assumes inv: "ipc_inv s"
  shows "ipc_inv (fst (thread_create s prog))"
  using inv by (auto simp: thread_create_def thread_ok_def split: option.splits intro!: ipc_inv_upd)

end
