(* ===== verification/Proc.thy ===== *)
theory Proc
  imports UMem Ipc
begin

text \<open>
  The program loader (\<^verbatim>\<open>kernel/proc.c\<close>).  The flat binaries and their load
  addresses come from the build (\<^verbatim>\<open>kernel/rootfs.S\<close>, the Makefile), so they are
  parameters: \<open>image p\<close> is the list of bytes from \<open>start\<close> to \<open>end\<close> of program \<open>p\<close> and
  \<open>base p\<close> its address.  The loader writes through the new mappings; \<open>None\<close> is a page
  fault in the kernel.
\<close>

abbreviation PROG_COUNT :: nat where "PROG_COUNT \<equiv> 12"
abbreviation IMG_BYTES :: u64 where "IMG_BYTES \<equiv> 0x10000"
abbreviation STK_BYTES :: u64 where "STK_BYTES \<equiv> 0x4000"
abbreviation STK_OFFSET :: u64 where "STK_OFFSET \<equiv> 0x80000"

record prog =
  image :: "u8 list"
  pr_base :: u64
  pr_stack_top :: u64

definition put_user :: "paging \<Rightarrow> u64 \<Rightarrow> u8 \<Rightarrow> paging option" where
  "put_user s va b =
     map_option (\<lambda>pa. s\<lparr>pmem := put_byte pa b (pmem s), clobbered := clobbered s \<or> in_kernel s pa\<rparr>) (phys s va)"

fun put_bytes :: "paging \<Rightarrow> u64 \<Rightarrow> u8 list \<Rightarrow> paging option" where
  "put_bytes s va [] = Some s"
| "put_bytes s va (b # bs) =
     (case put_user s va b of None \<Rightarrow> None | Some s' \<Rightarrow> put_bytes s' (va + 1) bs)"

definition map_zeroed_page :: "paging \<Rightarrow> u64 \<Rightarrow> paging option" where
  "map_zeroed_page s va =
     (case pmm_alloc_frame (pg_pmm s) of (p, f) \<Rightarrow>
      case vmm_map (s\<lparr>pg_pmm := p\<rparr>) va f (VM_PRESENT OR VM_WRITE OR VM_USER) of (s', r) \<Rightarrow>
      put_bytes s' va (replicate 4096 0))"

fun map_zeroed :: "paging \<Rightarrow> u64 \<Rightarrow> nat \<Rightarrow> paging option" where
  "map_zeroed s va 0 = Some s"
| "map_zeroed s va (Suc pages) =
     (case map_zeroed_page s va of None \<Rightarrow> None | Some s' \<Rightarrow> map_zeroed s' (va + PAGE_SIZE) pages)"

definition load_one :: "paging \<Rightarrow> prog \<Rightarrow> paging option" where
  "load_one s pr =
     (case map_zeroed s (pr_base pr) (unat (IMG_BYTES div PAGE_SIZE)) of
        None \<Rightarrow> None
      | Some s1 \<Rightarrow>
        case map_zeroed s1 (pr_stack_top pr - STK_BYTES) (unat (STK_BYTES div PAGE_SIZE)) of
          None \<Rightarrow> None
        | Some s2 \<Rightarrow> put_bytes s2 (pr_base pr) (image pr))"

definition mk_progs :: "(nat \<Rightarrow> u8 list) \<Rightarrow> (nat \<Rightarrow> u64) \<Rightarrow> nat \<Rightarrow> prog" where
  "mk_progs images bases i = \<lparr>image = images i, pr_base = bases i, pr_stack_top = bases i + STK_OFFSET\<rparr>"

definition rootfs_load_all :: "(nat \<Rightarrow> prog) \<Rightarrow> paging \<Rightarrow> paging option" where
  "rootfs_load_all progs s =
     fold (\<lambda>i so. case so of None \<Rightarrow> None | Some s' \<Rightarrow> load_one s' (progs i)) [0..<PROG_COUNT] (Some s)"

definition proc_spawn :: "'a sched_scheme \<Rightarrow> int \<Rightarrow> 'a sched_scheme \<times> int" where
  "proc_spawn s prog =
     (if prog < 0 \<or> prog \<ge> int PROG_COUNT then (s, - 1) else thread_create s (nat prog))"

section \<open>Spawning\<close>

lemma proc_spawn_cases:
  assumes "proc_spawn s prog = (s', r)"
  obtains (fail) "s' = s" "r = - 1"
    | (new) i where "free_thread s = Some i" "r = int i" "0 \<le> prog" "prog < int PROG_COUNT"
      "s' = upd_thr (Slot i) (create_thread_in s i (nat prog)) s"
proof (cases "prog < 0 \<or> prog \<ge> int PROG_COUNT")
  case True
  then show thesis using assms fail by (simp add: proc_spawn_def)
next
  case False
  show thesis
  proof (cases "free_thread s")
    case None
    with assms \<open>\<not> _\<close> have "s' = s" "r = - 1" by (simp_all add: proc_spawn_def thread_create_def)
    then show thesis by (rule fail)
  next
    case (Some i)
    with assms \<open>\<not> _\<close> have "s' = upd_thr (Slot i) (create_thread_in s i (nat prog)) s" "r = int i"
      by (simp_all add: proc_spawn_def thread_create_def)
    with Some \<open>\<not> _\<close> show thesis by (intro new [of i]) simp_all
  qed
qed

lemma proc_spawn_fail_iff:
  "snd (proc_spawn s prog) = - 1 \<longleftrightarrow>
     prog < 0 \<or> prog \<ge> int PROG_COUNT \<or> (\<forall>i<SCHED_MAX_THREADS. tstate (threads s i) \<notin> {T_UNUSED, T_DEAD})"
proof (cases "prog < 0 \<or> prog \<ge> int PROG_COUNT")
  case False
  then have "snd (proc_spawn s prog) = - 1 \<longleftrightarrow> free_thread s = None"
    by (cases "free_thread s") (auto simp: proc_spawn_def thread_create_def)
  with False show ?thesis by (auto simp: free_thread_def first_fit_None_iff)
qed (auto simp: proc_spawn_def)

end
