(* ===== verification/Apart.thy ===== *)
theory Apart
  imports Proc
begin

text \<open>
  The invariant of the address space that all programs share: a page that is mapped lies in a
  frame that is neither a page table nor free.  The loader, the system calls that map pages and
  every store keep it.  It rests on facts on user addresses, their pages and their paths through
  the tables.
\<close>

section \<open>Pages and addresses\<close>

lemma canonical_user: "x < 2 ^ 47 \<Longrightarrow> canonical x"
proof -
  assume "x < 2 ^ 47"
  then have "unat x < 2 ^ 47" by (simp add: word_less_nat_alt)
  then have "\<not> bit x n" if "47 \<le> n" for n using bit_small_word [of x 47 n] that by auto
  then have "drop_bit 47 x = 0" by (intro bit_word_eqI) (simp add: bit_drop_bit_eq)
  then show ?thesis by (simp add: canonical_def)
qed

lemma off_mask: "x AND 0xFFF = take_bit 12 (x :: u64)"
  by (simp add: take_bit_eq_mask mask_eq_exp_minus_1)

lemma phys_translate:
  assumes "x < 2 ^ 47" and "translate s x = Some pa"
  shows "phys s x = Some pa"
proof -
  have pg: "page_addr e 12 x = child e OR (x AND 0xFFF)" for e
    unfolding page_addr_def off_mask
    by (rule bit_word_eqI) (auto simp: bit_simps bit_child)
  show ?thesis
    using assms(2) canonical_user [OF assms(1)] unfolding phys_def Let_def pg
    by (auto simp: translate_def mapping_def va_path_def Let_def links_def split: if_splits)
qed

lemma va_index_drop:
  assumes "12 \<le> k" and "drop_bit 12 x = drop_bit 12 y"
  shows "va_index k x = va_index k y"
proof -
  obtain j where k: "k = j + 12" using assms(1) by (metis add.commute le_Suc_ex)
  have "drop_bit k z = drop_bit j (drop_bit 12 z)" for z :: u64
    unfolding k by (simp only: drop_bit_drop_bit)
  with assms(2) show ?thesis by (simp only: va_index_def)
qed

lemma va_index_bit: "i < 9 \<Longrightarrow> va_index k x = va_index k y \<Longrightarrow> bit x (k + i) \<longleftrightarrow> bit y (k + i)"
proof -
  assume i: "i < 9" and v: "va_index k x = va_index k y"
  have eq: "drop_bit k x AND 0x1FF = drop_bit k y AND 0x1FF"
    by (rule unsigned_word_eqI [OF v [unfolded va_index_def]])
  have "(0x1FF :: u64) = mask 9" by (simp add: mask_eq_exp_minus_1)
  then have "bit (drop_bit k z AND 0x1FF) i \<longleftrightarrow> bit z (k + i)" for z :: u64
    using i by (simp only: bit_and_iff bit_mask_iff bit_drop_bit_eq) (auto dest: bit_imp_le_length)
  with eq show ?thesis by metis
qed

text \<open>User addresses with the same path through the tables are in the same page.\<close>

lemma va_path_page:
  assumes "x < 2 ^ 47" "y < 2 ^ 47"
  shows "va_path x = va_path y \<longleftrightarrow> drop_bit 12 x = drop_bit 12 y"
proof
  assume p: "va_path x = va_path y"
  show "drop_bit 12 x = drop_bit 12 y"
  proof (rule bit_word_eqI)
    fix n :: nat assume "n < LENGTH(64)"
    have small: "\<not> bit z m" if "z < 2 ^ 47" "47 \<le> m" for z :: u64 and m
      using bit_small_word [of z 47 m] that by (auto simp: word_less_nat_alt)
    consider "n < 9" | "9 \<le> n" "n < 18" | "18 \<le> n" "n < 27" | "27 \<le> n" "n < 36" | "36 \<le> n" by linarith
    then have "bit x (12 + n) \<longleftrightarrow> bit y (12 + n)"
    proof cases
      case 1 with p show ?thesis using va_index_bit [of n 12 x y] by (simp add: va_path_def)
    next
      case 2 with p show ?thesis using va_index_bit [of "n - 9" 21 x y] by (simp add: va_path_def)
    next
      case 3 with p show ?thesis using va_index_bit [of "n - 18" 30 x y] by (simp add: va_path_def)
    next
      case 4 with p show ?thesis using va_index_bit [of "n - 27" 39 x y] by (simp add: va_path_def)
    next
      case 5 with small assms show ?thesis by simp
    qed
    then show "bit (drop_bit 12 x) n \<longleftrightarrow> bit (drop_bit 12 y) n" by (simp add: bit_drop_bit_eq)
  qed
next
  assume "drop_bit 12 x = drop_bit 12 y"
  then have "va_index k x = va_index k y" if "12 \<le> k" for k by (rule va_index_drop [OF that])
  from this [of 39] this [of 30] this [of 21] this [of 12]
  show "va_path x = va_path y" by (simp add: va_path_def)
qed

lemma in_page_iff:
  assumes "aligned va"
  shows "x - va < PAGE_SIZE \<longleftrightarrow> page_align_down x = va" and "x - va < PAGE_SIZE \<longleftrightarrow> drop_bit 12 x = drop_bit 12 va"
proof -
  have low: "\<not> bit va n" if "n < 12" for n using assms that by (simp add: aligned_bits)
  have pv: "page_align_down va = va"
    unfolding page_align_down_def page_mask using low by (intro bit_word_eqI) (auto simp: bit_simps)
  have dn: "page_align_down x = page_align_down y \<longleftrightarrow> drop_bit 12 x = drop_bit 12 y" for x y :: u64
  proof
    assume eq: "page_align_down x = page_align_down y"
    have "drop_bit 12 (page_align_down z) = drop_bit 12 z" for z :: u64
      unfolding page_align_down_def page_mask
      by (rule bit_word_eqI) (auto simp: bit_simps dest: bit_imp_le_length)
    then show "drop_bit 12 x = drop_bit 12 y" using eq by metis
  next
    assume "drop_bit 12 x = drop_bit 12 y"
    moreover have "page_align_down z = push_bit 12 (drop_bit 12 z)" for z :: u64
      unfolding page_align_down_def page_mask
      by (rule bit_word_eqI) (auto simp: bit_simps)
    ultimately show "page_align_down x = page_align_down y" by simp
  qed
  have "x - page_align_down x < PAGE_SIZE"
  proof -
    have "page_align_down x + take_bit 12 x = x"
    proof -
      have "page_align_down x AND take_bit 12 x = 0" "page_align_down x OR take_bit 12 x = x"
        unfolding page_align_down_def page_mask by (rule bit_word_eqI; auto simp: bit_simps)+
      then show ?thesis by (simp add: disjunctive_add_eq_or)
    qed
    then have "x - page_align_down x = take_bit 12 x" by (metis add_diff_cancel_left')
    moreover have "unat (take_bit 12 x) < 2 ^ 12" by (simp only: unsigned_take_bit_eq take_bit_nat_less_exp)
    ultimately show ?thesis by (simp add: word_less_nat_alt)
  qed
  moreover have "page_align_down x = va" if "x - va < PAGE_SIZE"
  proof -
    define j where "j = unat (x - page_align_down x)"
    define k where "k = unat (x - va)"
    have jk: "j < 4096" "k < 4096"
      using that calculation by (simp_all add: j_def k_def word_less_nat_alt)
    have "unat (page_align_down x) + j = unat x"
      using aligned_small [OF aligned_page_align_down jk(1), of x] by (simp add: j_def)
    moreover have "unat va + k = unat x"
      using aligned_small [OF assms jk(2)] by (simp add: k_def)
    ultimately have "unat (page_align_down x) = unat va \<and> j = k"
      using assms aligned_page_align_down [of x] jk unfolding aligned_def
      by (intro page_offset_unique [of _ 4096]) simp_all
    then show ?thesis by (auto intro: unsigned_word_eqI)
  qed
  ultimately show a: "x - va < PAGE_SIZE \<longleftrightarrow> page_align_down x = va" by auto
  show "x - va < PAGE_SIZE \<longleftrightarrow> drop_bit 12 x = drop_bit 12 va"
    unfolding a using dn [of x va] pv by simp
qed

lemma in_page_small: "aligned va \<Longrightarrow> va < 2 ^ 47 \<Longrightarrow> x - va < PAGE_SIZE \<Longrightarrow> x < 2 ^ 47"
proof -
  assume a: "aligned va" "va < 2 ^ 47" "x - va < PAGE_SIZE"
  define k where "k = unat (x - va)"
  have k: "k < 4096" using a(3) by (simp add: k_def word_less_nat_alt)
  have ux: "unat va + k = unat x" using aligned_small [OF a(1) k] by (simp add: k_def)
  obtain q where q: "unat va = 4096 * q" using a(1) by (auto simp: aligned_def)
  have "4096 * q < 4096 * 2 ^ 35" using a(2) q by (simp add: word_less_nat_alt)
  then have "q < 2 ^ 35" by simp
  then have "unat x < 2 ^ 47" using ux q k by simp
  then show ?thesis by (simp add: word_less_nat_alt)
qed

lemma in_tables_page:
  assumes "aligned t" "word_base pa - t < PAGE_SIZE" shows "t = page_align_down pa"
  using in_page_iff(1) [OF assms(1), of "word_base pa"] in_page_iff(1) [OF aligned_page_align_down, of "word_base pa" pa]
    word_base_in_page [of pa] assms(2) by simp

section \<open>The memory of the kernel\<close>

lemma unat_page_align_down: "unat (page_align_down x) = 4096 * (unat x div 4096)"
proof -
  have "page_align_down x = push_bit 12 (drop_bit 12 x)"
    unfolding page_align_down_def page_mask by (rule bit_word_eqI) (auto simp: bit_simps)
  moreover have "unat (drop_bit 12 x) = unat x div 4096"
    by (simp only: unat_drop_bit_eq) (simp add: drop_bit_eq_div)
  moreover have "4096 * (unat x div 4096) < 2 ^ 64"
  proof -
    have "unat x < 2 ^ 64" by (rule order_less_le_trans [OF unsigned_less]) simp
    then show ?thesis by (rule le_less_trans [OF times_div_less_eq_dividend])
  qed
  ultimately show ?thesis by (simp add: push_bit_eq_mult unat_word_ariths)
qed

lemma in_kernel_page: "in_kernel s pa \<Longrightarrow> in_kernel s (page_align_down pa)"
proof -
  assume a: "in_kernel s pa"
  then have "0x100000 \<le> unat pa" "unat pa < unat (kmem_top s)"
    by (simp_all add: in_kernel_def word_le_nat_alt word_less_nat_alt)
  moreover from this(1) have "0x100000 div 4096 \<le> unat pa div 4096" by (rule div_le_mono)
  ultimately have "0x100000 \<le> 4096 * (unat pa div 4096)" "4096 * (unat pa div 4096) < unat (kmem_top s)"
    by (simp, blast intro: le_less_trans [OF times_div_less_eq_dividend])
  then show ?thesis
    by (simp add: in_kernel_def word_le_nat_alt word_less_nat_alt unat_page_align_down)
qed

lemma put_user_outside: "phys s x = Some pa \<Longrightarrow> \<not> in_kernel s pa \<Longrightarrow> put_user s x b = Some (s\<lparr>pmem := put_byte pa b (pmem s)\<rparr>)"
  by (cases s) (simp add: put_user_def)

text \<open>The first entry of the root table, through which the kernel reaches all memory, is closed to programs.\<close>

definition root_closed :: "paging \<Rightarrow> bool" where
  "root_closed s \<longleftrightarrow> (let e = pmem s (entry_addr (read_cr3 s) 0) in links e \<and> e AND PTE_USER = 0)"

lemma root_closed_grows:
  assumes "tables_ok lvl s" "grows n lvl s lvl' s'" shows "root_closed s \<Longrightarrow> root_closed s'"
proof -
  have "lvl (read_cr3 s) = 4" using assms(1) tree_wfD(1) by (auto simp: tables_ok_def)
  with assms(2) show "root_closed s \<Longrightarrow> root_closed s'"
    by (auto simp: root_closed_def grows_def links_kept_def Let_def)
qed

section \<open>Mapped frames are apart from tables and free frames\<close>

text \<open>
  \<open>apart U D lvl s\<close>: every page that is mapped lies in a frame of \<open>U\<close> that is neither a page
  table nor free, and so does every frame of \<open>D\<close> (device memory); no frame of \<open>U\<close> lies in the
  kernel's memory, which no store has hit.
\<close>

definition apart :: "u64 set \<Rightarrow> u64 set \<Rightarrow> (u64 \<Rightarrow> nat) \<Rightarrow> paging \<Rightarrow> bool" where
  "apart U D lvl s \<longleftrightarrow> avail (pg_pmm s) \<subseteq> U \<and> D \<subseteq> U \<and>
     (\<forall>d\<in>D. lvl d = 0 \<and> d \<notin> avail (pg_pmm s)) \<and>
     (\<forall>v e. mapping s v = Some e \<longrightarrow> child e \<in> U \<and> lvl (child e) = 0 \<and> child e \<notin> avail (pg_pmm s)) \<and>
     (\<forall>u\<in>U. \<not> in_kernel s u) \<and> \<not> clobbered s \<and> root_closed s"

lemma apartD:
  assumes "apart U D lvl s" and "mapping s v = Some e"
  shows "child e \<in> U" "lvl (child e) = 0" "child e \<notin> avail (pg_pmm s)"
  using assms unfolding apart_def by blast+

lemma translate_page: "translate s x = Some pa \<Longrightarrow> \<exists>e. mapping s x = Some e \<and> page_align_down pa = child e"
proof -
  have "page_align_down (child e OR (x AND 0xFFF)) = child e" for e
    unfolding page_align_down_def page_mask off_mask
    by (rule bit_word_eqI) (auto simp: bit_simps bit_child)
  then show "translate s x = Some pa \<Longrightarrow> \<exists>e. mapping s x = Some e \<and> page_align_down pa = child e"
    by (auto simp: translate_def)
qed

lemma apart_kernel: "apart U D lvl s \<Longrightarrow> page_align_down pa \<in> U \<Longrightarrow> \<not> in_kernel s pa"
  using in_kernel_page unfolding apart_def by blast

text \<open>A store outside the tables changes no translation.\<close>

lemma store_outside:
  assumes ok: "tables_ok lvl s"
    and same: "\<And>t i. lvl t \<noteq> 0 \<Longrightarrow> i < 512 \<Longrightarrow> m (entry_addr t i) = pmem s (entry_addr t i)"
  shows "tables_ok lvl (s\<lparr>pmem := m\<rparr>)" "mapping (s\<lparr>pmem := m\<rparr>) = mapping s"
    "walk_open (s\<lparr>pmem := m\<rparr>) = walk_open s" "apart U D lvl (s\<lparr>pmem := m\<rparr>) = apart U D lvl s"
proof -
  let ?s = "s\<lparr>pmem := m\<rparr>"
  have wf: "tree_wf lvl s" using ok by (simp add: tables_ok_def)
  have cr: "read_cr3 ?s = read_cr3 s" by (simp add: read_cr3_def)
  have "tree_wf lvl ?s" by (rule tree_wf_cong [OF wf cr]) (simp_all add: same)
  then show "tables_ok lvl ?s" using ok by (simp add: tables_ok_def)
  show map: "mapping ?s = mapping s"
  proof
    fix v show "mapping ?s v = mapping s v"
      unfolding mapping_def cr
      by (rule xlate_cong [OF wf]) (simp_all add: same tree_wfD(1) [OF wf] va_path_def va_index_less)
  qed
  show "walk_open ?s = walk_open s"
    by (rule ext) (rule walk_open_cong [OF wf cr], simp add: same)
  have "lvl (read_cr3 s) = 4" by (rule tree_wfD(1) [OF wf])
  then have "root_closed ?s = root_closed s" using same [of "read_cr3 s" 0] by (simp add: root_closed_def cr)
  then show "apart U D lvl ?s = apart U D lvl s" by (simp add: apart_def map in_kernel_def)
qed

lemma child_leaf: "child ((pa AND ADDR_MASK) OR flags_to_pte fl) = child pa"
proof (rule bit_word_eqI)
  fix k
  have "flags_to_pte fl AND NOT (mask 3) = 0"
    by (simp add: flags_to_pte_def Let_def mask_eq_exp_minus_1)
  then have "\<not> (bit (flags_to_pte fl) k \<and> 12 \<le> k \<and> k < 52)"
    by (auto simp: bit_eq_iff bit_simps dest!: spec [of _ k])
  then show "bit (child ((pa AND ADDR_MASK) OR flags_to_pte fl)) k = bit (child pa) k"
    unfolding bit_child bit_or_iff bit_and_iff bit_ADDR_MASK by auto
qed

text \<open>Mapping a frame that is neither a table nor free.\<close>

lemma vmm_map_apart:
  assumes ok: "tables_ok lvl s" and ap: "apart U D lvl s"
    and f: "child pa \<in> U" "lvl (child pa) = 0" "child pa \<notin> avail (pg_pmm s)"
    and vm: "vmm_map s va pa fl = (s', r)"
  obtains lvl' where "tables_ok lvl' s'" "grows 3 lvl s lvl' s'" "apart U D lvl' s'"
    "if r = 0 then mapping s' va = Some ((pa AND ADDR_MASK) OR flags_to_pte fl) \<and>
        (\<forall>va'. va_path va' \<noteq> va_path va \<longrightarrow> mapping s' va' = mapping s va')
     else r = - 1 \<and> (\<forall>va'. mapping s' va' = mapping s va')"
    "walk_open s va \<Longrightarrow> 3 \<le> card (avail (pg_pmm s)) \<Longrightarrow> r = 0"
proof (rule vmm_map_step [OF ok vm])
  fix lvl'
  assume a: "tables_ok lvl' s'" and g: "grows 3 lvl s lvl' s'"
    and m: "if r = 0 then mapping s' va = Some ((pa AND ADDR_MASK) OR flags_to_pte fl) \<and>
        (\<forall>va'. va_path va' \<noteq> va_path va \<longrightarrow> mapping s' va' = mapping s va')
     else r = - 1 \<and> (\<forall>va'. mapping s' va' = mapping s va')"
    and enough: "walk_open s va \<Longrightarrow> 3 \<le> card (avail (pg_pmm s)) \<Longrightarrow> r = 0"
  have "child e \<in> U \<and> lvl (child e) = 0 \<and> child e \<notin> avail (pg_pmm s)" if e: "mapping s' v = Some e" for v e
  proof (cases "r = 0 \<and> va_path v = va_path va")
    case True
    with e have "mapping s' va = Some e" by (simp add: mapping_def)
    with True m f show ?thesis by (auto simp: child_leaf)
  next
    case False
    with m e have "mapping s v = Some e" by (auto split: if_splits)
    from apartD [OF ap this] show ?thesis by blast
  qed
  moreover have "root_closed s'" using root_closed_grows [OF ok g] ap by (simp add: apart_def)
  moreover have "in_kernel s' u = in_kernel s u" "clobbered s' = clobbered s" for u
    using vmm_map_flags [OF vm] by (simp_all add: in_kernel_def)
  ultimately have "apart U D lvl' s'" using ap g unfolding apart_def grows_def by blast
  from that [OF a g this m enough] show thesis .
qed

lemma apart_pmm:
  assumes ok: "tables_ok lvl s" and ap: "apart U D lvl s" and al: "pmm_alloc_frame (pg_pmm s) = (p, f)"
  shows "tables_ok lvl (s\<lparr>pg_pmm := p\<rparr>)" "apart U D lvl (s\<lparr>pg_pmm := p\<rparr>)"
    "walk_open (s\<lparr>pg_pmm := p\<rparr>) = walk_open s"
    "f \<noteq> 0 \<Longrightarrow> aligned f \<and> child f = f \<and> f \<in> U \<and> lvl f = 0 \<and> f \<in> avail (pg_pmm s) \<and> f \<notin> avail p \<and>
       card (avail (pg_pmm s)) = card (avail p) + 1"
proof -
  note spec = alloc_frame_spec [OF ok al]
  have wf: "tree_wf lvl s" using ok by (simp add: tables_ok_def)
  have "tree_wf lvl (s\<lparr>pg_pmm := p\<rparr>)" using wf spec(3) unfolding tree_wf_def by (simp add: read_cr3_def) blast
  then show "tables_ok lvl (s\<lparr>pg_pmm := p\<rparr>)" using spec(1,2) by (simp add: tables_ok_def)
  have m: "mapping (s\<lparr>pg_pmm := p\<rparr>) = mapping s" by (simp add: mapping_def fun_eq_iff read_cr3_def)
  have "root_closed (s\<lparr>pg_pmm := p\<rparr>) = root_closed s" by (simp add: root_closed_def read_cr3_def)
  then show "apart U D lvl (s\<lparr>pg_pmm := p\<rparr>)" using ap spec(3) unfolding apart_def m in_kernel_def by auto
  show "walk_open (s\<lparr>pg_pmm := p\<rparr>) = walk_open s" by (simp add: walk_open_def fun_eq_iff read_cr3_def)
  assume f: "f \<noteq> 0"
  obtain g where g: "g < 2 ^ 40" "f = push_bit 12 g" using spec(5) [OF f] by blast
  have "child f = f" using frame_bits [OF g(1)] g(2) by (intro bit_word_eqI) (auto simp: bit_child)
  moreover have "aligned f" by (rule link_entry(3) [OF g])
  moreover have "Suc (card (avail (pg_pmm s) - {f})) = card (avail (pg_pmm s))"
    using spec(4) [OF f] by (intro card_Suc_Diff1) simp_all
  ultimately show "aligned f \<and> child f = f \<and> f \<in> U \<and> lvl f = 0 \<and> f \<in> avail (pg_pmm s) \<and> f \<notin> avail p \<and>
       card (avail (pg_pmm s)) = card (avail p) + 1"
    using spec(4) [OF f] tree_wfD(4) [OF wf, of f] ap by (auto simp: apart_def)
qed

end
