(* ===== verification/Load.thy ===== *)
theory Load
  imports Apart
begin

text \<open>
  What the program loader of \<open>Proc\<close> achieves.  The specification is a partial map from user
  addresses to bytes: \<open>fill_area\<close> maps an area and clears it, \<open>copy_bytes\<close> stores an image.
  \<open>holds U D s M n\<close> relates it to the machine: every byte of \<open>M\<close> is translated to its own
  physical byte, outside the page tables and the free frames, and \<open>n\<close> frames are still free.  The loader
  refines the specification.
\<close>

section \<open>The specification\<close>

type_synonym umap = "u64 \<Rightarrow> u8 option"

definition fill_area :: "u64 \<Rightarrow> nat \<Rightarrow> umap \<Rightarrow> umap" where
  "fill_area va n M = (\<lambda>x. if unat (x - va) < n then Some 0 else M x)"

definition copy_bytes :: "u64 \<Rightarrow> u8 list \<Rightarrow> umap \<Rightarrow> umap" where
  "copy_bytes va bs M = (\<lambda>x. if unat (x - va) < length bs then Some (bs ! unat (x - va)) else M x)"

definition load_spec :: "prog \<Rightarrow> umap \<Rightarrow> umap" where
  "load_spec pr M =
     copy_bytes (pr_base pr) (image pr)
       (fill_area (pr_stack_top pr - STK_BYTES) (unat STK_BYTES)
         (fill_area (pr_base pr) (unat IMG_BYTES) M))"

definition backed :: "(u64 \<Rightarrow> nat) \<Rightarrow> paging \<Rightarrow> umap \<Rightarrow> bool" where
  "backed lvl s M \<longleftrightarrow>
     (\<forall>x b. M x = Some b \<longrightarrow> x < 2 ^ 47 \<and>
        (\<exists>pa. translate s x = Some pa \<and> lvl (page_align_down pa) = 0 \<and>
           page_align_down pa \<notin> avail (pg_pmm s) \<and> byte_at (pmem s) pa = b)) \<and>
     inj_on (translate s) (dom M)"

definition holds :: "u64 set \<Rightarrow> u64 set \<Rightarrow> paging \<Rightarrow> umap \<Rightarrow> nat \<Rightarrow> bool" where
  "holds U D s M n \<longleftrightarrow>
     (\<exists>lvl. tables_ok lvl s \<and> apart U D lvl s \<and> n \<le> card (avail (pg_pmm s)) \<and> backed lvl s M)"

section \<open>Storing bytes\<close>

lemma backedD:
  assumes "backed lvl s M" and "M x = Some b"
  obtains pa where "x < 2 ^ 47" "translate s x = Some pa" "lvl (page_align_down pa) = 0"
    "page_align_down pa \<notin> avail (pg_pmm s)" "byte_at (pmem s) pa = b"
  using assms unfolding backed_def by blast

lemma holds_mono: "holds U D s M n \<Longrightarrow> k \<le> n \<Longrightarrow> holds U D s M k"
  unfolding holds_def by fastforce

lemma put_user_holds:
  assumes h: "holds U D s M n" and x: "x \<in> dom M"
  shows "\<exists>s'. put_user s x b = Some s' \<and> holds U D s' (M(x \<mapsto> b)) n \<and> walk_open s' = walk_open s"
proof -
  obtain lvl where ok: "tables_ok lvl s" and ap: "apart U D lvl s"
    and n: "n \<le> card (avail (pg_pmm s))" and bk: "backed lvl s M"
    using h by (auto simp: holds_def)
  have wf: "tree_wf lvl s" using ok by (simp add: tables_ok_def)
  obtain b0 pa where pa: "x < 2 ^ 47" "translate s x = Some pa" "lvl (page_align_down pa) = 0"
    "page_align_down pa \<notin> avail (pg_pmm s)"
    using x backedD [OF bk, of x] by (metis domD)
  define s' where "s' = s\<lparr>pmem := put_byte pa b (pmem s)\<rparr>"
  have "page_align_down pa \<in> U" using translate_page [OF pa(2)] apartD(1) [OF ap] by auto
  then have put: "put_user s x b = Some s'"
    unfolding s'_def by (intro put_user_outside phys_translate [OF pa(1,2)] apart_kernel [OF ap])
  have "put_byte pa b (pmem s) (entry_addr t i) = pmem s (entry_addr t i)" if "lvl t \<noteq> 0" "i < 512" for t i
    using outside_tables [OF wf that pa(3)] by (simp add: put_byte_elsewhere)
  from store_outside [OF ok this]
  have st: "tables_ok lvl s'" "mapping s' = mapping s" "walk_open s' = walk_open s" "apart U D lvl s' = apart U D lvl s"
    by (simp_all add: s'_def)
  have pm: "pg_pmm s' = pg_pmm s" by (simp add: s'_def)
  have tr: "translate s' = translate s" by (simp add: translate_def fun_eq_iff st(2))
  have "translate s y \<noteq> Some pa" if "y \<in> dom M" "y \<noteq> x" for y
    using bk that x pa(2) unfolding backed_def inj_on_def by metis
  then have "y < 2 ^ 47 \<and> (\<exists>pb. translate s y = Some pb \<and> lvl (page_align_down pb) = 0 \<and>
      page_align_down pb \<notin> avail (pg_pmm s) \<and> byte_at (pmem s') pb = c)"
    if y: "(M(x \<mapsto> b)) y = Some c" for y c
  proof (cases "y = x")
    case True
    with y pa show ?thesis by (simp add: s'_def)
  next
    case False
    with y have m: "M y = Some c" by simp
    obtain pb where pb: "y < 2 ^ 47" "translate s y = Some pb" "lvl (page_align_down pb) = 0"
      "page_align_down pb \<notin> avail (pg_pmm s)" "byte_at (pmem s) pb = c"
      by (rule backedD [OF bk m])
    moreover from this have "pb \<noteq> pa"
      using \<open>\<And>y. y \<in> dom M \<Longrightarrow> y \<noteq> x \<Longrightarrow> translate s y \<noteq> Some pa\<close> [of y] m False by auto
    ultimately show ?thesis by (simp add: s'_def)
  qed
  moreover have "dom (M(x \<mapsto> b)) = dom M" using x by auto
  ultimately have "backed lvl s' (M(x \<mapsto> b))"
    using bk unfolding backed_def tr pm by auto
  then show ?thesis using put st ap n pm unfolding holds_def by auto
qed

lemma unat_next:
  fixes x va :: u64
  assumes "x \<noteq> va" shows "unat (x - va) = Suc (unat (x - (va + 1)))"
proof -
  have "x - va \<noteq> 0" using assms by simp
  then have "unat (x - va - 1) = unat (x - va) - 1" "0 < unat (x - va)"
    by (simp_all add: unat_minus_one word_neq_0_conv unat_gt_0)
  then show ?thesis by (simp add: algebra_simps)
qed

lemma copy_bytes_Cons:
  assumes "Suc (length bs) < 2 ^ 64"
  shows "copy_bytes (va + 1) bs (M(va \<mapsto> b)) = copy_bytes va (b # bs) M"
proof
  fix x
  have "va - (va + 1) = (- 1 :: u64)" by simp
  then have "unat (va - (va + 1)) = 2 ^ 64 - 1" by (simp only:) (simp add: unsigned_minus_1_eq_mask mask_eq_exp_minus_1)
  then show "copy_bytes (va + 1) bs (M(va \<mapsto> b)) x = copy_bytes va (b # bs) M x"
    using assms unat_next [of x va] by (cases "x = va") (auto simp: copy_bytes_def)
qed

lemma put_bytes_holds:
  assumes "holds U D s M n" and "length bs < 2 ^ 64" and "\<And>x. unat (x - va) < length bs \<Longrightarrow> x \<in> dom M"
  shows "\<exists>s'. put_bytes s va bs = Some s' \<and> holds U D s' (copy_bytes va bs M) n \<and> walk_open s' = walk_open s"
  using assms
proof (induction bs arbitrary: s va M)
  case Nil
  then show ?case by (simp add: copy_bytes_def)
next
  case (Cons b bs)
  have "va \<in> dom M" using Cons.prems(3) [of va] by simp
  from put_user_holds [OF Cons.prems(1) this, of b] obtain s1 where
    s1: "put_user s va b = Some s1" "holds U D s1 (M(va \<mapsto> b)) n" "walk_open s1 = walk_open s" by blast
  have d: "x \<in> dom (M(va \<mapsto> b))" if "unat (x - (va + 1)) < length bs" for x
    using Cons.prems(3) [of x] unat_next [of x va] that by (cases "x = va") auto
  have "length bs < 2 ^ 64" using Cons.prems(2) by simp
  from Cons.IH [OF s1(2) this d] obtain s' where "put_bytes s1 (va + 1) bs = Some s'"
    "holds U D s' (copy_bytes (va + 1) bs (M(va \<mapsto> b))) n" "walk_open s' = walk_open s1" by blast
  moreover have "copy_bytes (va + 1) bs (M(va \<mapsto> b)) = copy_bytes va (b # bs) M"
    using Cons.prems(2) by (intro copy_bytes_Cons) simp
  ultimately show ?case using s1 by (simp only: put_bytes.simps option.case) metis
qed

section \<open>A fresh zeroed page\<close>

lemma fill_area_bytes: "copy_bytes va (replicate n 0) M = fill_area va n M"
  by (simp add: copy_bytes_def fill_area_def fun_eq_iff)

text \<open>The translation and the contents after a free frame was mapped at a page without contents.\<close>

lemma map_page_backed:
  assumes bk: "backed lvl s M" and wf: "tree_wf lvl s" and wf2: "tree_wf lvl2 s2"
    and g: "grows k lvl (s\<lparr>pg_pmm := p\<rparr>) lvl2 s2"
    and f: "f \<in> avail (pg_pmm s)" "avail p = avail (pg_pmm s) - {f}" "aligned f"
    and va: "aligned va" "va < 2 ^ 47" and new: "\<And>x. x - va < PAGE_SIZE \<Longrightarrow> M x = None"
    and m: "mapping s2 va = Some e" "\<And>va'. va_path va' \<noteq> va_path va \<Longrightarrow> mapping s2 va' = mapping s va'"
    and ce: "child e = f"
  shows "backed lvl2 s2 (\<lambda>x. if x - va < PAGE_SIZE then Some (byte_at (pmem s2) (f OR take_bit 12 x)) else M x)"
proof -
  define N where "N = (\<lambda>x. if x - va < PAGE_SIZE then Some (byte_at (pmem s2) (f OR take_bit 12 x)) else M x)"
  have low: "\<not> bit f n" if "n < 12" for n using f(3) that by (simp add: aligned_bits)
  have lf: "lvl2 f = 0" "f \<notin> avail (pg_pmm s2)"
    using g tree_wfD(4) [OF wf, of f] f by (auto simp: grows_def)
  have sub: "avail (pg_pmm s2) \<subseteq> avail (pg_pmm s)" using g f(2) by (auto simp: grows_def)
  have tr_old: "translate s2 x = translate s x" if "x \<in> dom M" for x
  proof -
    have x: "x < 2 ^ 47" using backedD [OF bk] that by (metis domD)
    have "\<not> x - va < PAGE_SIZE" using new that by auto
    then have "va_path x \<noteq> va_path va" using va_path_page [OF x va(2)] in_page_iff(2) [OF va(1)] by simp
    then show ?thesis by (simp add: translate_def m(2))
  qed
  have tr_new: "translate s2 x = Some (f OR take_bit 12 x)" if "x - va < PAGE_SIZE" for x
  proof -
    have "drop_bit 12 x = drop_bit 12 va" using in_page_iff(2) [OF va(1)] that by simp
    then have "va_path x = va_path va"
      using va_path_page [OF in_page_small [OF va that] va(2)] by simp
    then have "mapping s2 x = mapping s2 va" by (simp add: mapping_def)
    then show ?thesis using m(1) ce by (simp add: translate_def off_mask)
  qed
  have down: "page_align_down (f OR take_bit 12 x) = f" "take_bit 12 (f OR take_bit 12 x) = take_bit 12 x" for x
    using low unfolding page_align_down_def page_mask
    by (auto intro!: bit_word_eqI simp: bit_simps)
  have old: "x < 2 ^ 47 \<and> (\<exists>pa. translate s2 x = Some pa \<and> lvl2 (page_align_down pa) = 0 \<and>
      page_align_down pa \<notin> avail (pg_pmm s2) \<and> byte_at (pmem s2) pa = b \<and> page_align_down pa \<noteq> f)"
    if x: "M x = Some b" for x b
  proof -
    obtain pa where pa: "x < 2 ^ 47" "translate s x = Some pa" "lvl (page_align_down pa) = 0"
      "page_align_down pa \<notin> avail (pg_pmm s)" "byte_at (pmem s) pa = b"
      by (rule backedD [OF bk x])
    have l2: "lvl2 (page_align_down pa) = 0" using g pa(3,4) f(2) by (auto simp: grows_def)
    have "\<not> word_base pa - t < PAGE_SIZE" if t: "lvl2 t \<noteq> 0" for t
    proof
      assume "word_base pa - t < PAGE_SIZE"
      from in_tables_page [OF tree_wfD(2) [OF wf2 t] this] t l2 show False by simp
    qed
    then have "pmem s2 (word_base pa) = pmem s (word_base pa)" using g by (simp add: grows_def)
    then have "byte_at (pmem s2) pa = b" using pa(5) by (simp add: byte_at_def)
    with pa l2 sub f(1) tr_old [of x] x show ?thesis by auto
  qed
  show ?thesis
    unfolding backed_def N_def [symmetric]
  proof (intro conjI allI impI inj_onI)
    fix x b assume x: "N x = Some b"
    have "x < 2 ^ 47 \<and> (\<exists>pa. translate s2 x = Some pa \<and> lvl2 (page_align_down pa) = 0 \<and>
        page_align_down pa \<notin> avail (pg_pmm s2) \<and> byte_at (pmem s2) pa = b)"
    proof (cases "x - va < PAGE_SIZE")
      case True
      then have "byte_at (pmem s2) (f OR take_bit 12 x) = b" using x by (simp add: N_def)
      with in_page_small [OF va True] tr_new [OF True] down(1) [of x] lf show ?thesis by simp
    next
      case False
      then have "M x = Some b" using x by (simp add: N_def)
      from old [OF this] show ?thesis by blast
    qed
    then show "x < 2 ^ 47" "\<exists>pa. translate s2 x = Some pa \<and> lvl2 (page_align_down pa) = 0 \<and>
        page_align_down pa \<notin> avail (pg_pmm s2) \<and> byte_at (pmem s2) pa = b" by blast+
  next
    fix x y assume d: "x \<in> dom N" "y \<in> dom N" and eq: "translate s2 x = translate s2 y"
    have pg: "translate s2 z \<noteq> Some (f OR take_bit 12 w)" if "z \<in> dom M" for z w
      using old [of z] that down(1) [of w] by auto
    have od: "z \<in> dom M" if "z \<in> dom N" "\<not> z - va < PAGE_SIZE" for z
      using that by (auto simp: N_def)
    consider "x - va < PAGE_SIZE" "y - va < PAGE_SIZE" | "x \<in> dom M" "y \<in> dom M"
      using pg od d tr_new eq by metis
    then show "x = y"
    proof cases
      case 1
      then have "f OR take_bit 12 x = f OR take_bit 12 y" using eq tr_new by simp
      then have "take_bit 12 x = take_bit 12 y" using down(2) by metis
      moreover have "drop_bit 12 x = drop_bit 12 y" using 1 in_page_iff(2) [OF va(1)] by simp
      ultimately show ?thesis by (metis bits_ident)
    next
      case 2
      with eq tr_old bk show ?thesis by (simp add: backed_def inj_on_def)
    qed
  qed
qed

lemma map_zeroed_page_holds:
  assumes h: "holds U D s M (n + 4)" and va: "aligned va" "va < 2 ^ 47"
    and new: "\<And>x. x - va < PAGE_SIZE \<Longrightarrow> M x = None" and walk: "walk_open s va"
  shows "\<exists>s'. map_zeroed_page s va = Some s' \<and> holds U D s' (fill_area va 4096 M) n \<and> walk_open s' = walk_open s"
proof -
  obtain lvl where ok: "tables_ok lvl s" and ap: "apart U D lvl s"
    and n: "n + 4 \<le> card (avail (pg_pmm s))" and bk: "backed lvl s M"
    using h by (auto simp: holds_def)
  have wf: "tree_wf lvl s" and inv: "pmm_inv (pg_pmm s)" using ok by (simp_all add: tables_ok_def)
  obtain p f where al: "pmm_alloc_frame (pg_pmm s) = (p, f)" by fastforce
  note a = apart_pmm [OF ok ap al]
  have nz: "f \<noteq> 0" using pool.alloc_iff [OF inv] al n by auto
  note f = a(4) [OF nz]
  obtain s2 r where vm: "vmm_map (s\<lparr>pg_pmm := p\<rparr>) va f (VM_PRESENT OR VM_WRITE OR VM_USER) = (s2, r)" by fastforce
  let ?e = "(f AND ADDR_MASK) OR flags_to_pte (VM_PRESENT OR VM_WRITE OR VM_USER)"
  obtain lvl2 where ok2: "tables_ok lvl2 s2" and g: "grows 3 lvl (s\<lparr>pg_pmm := p\<rparr>) lvl2 s2"
    and ap2: "apart U D lvl2 s2"
    and m: "mapping s2 va = Some ?e" "\<And>va'. va_path va' \<noteq> va_path va \<Longrightarrow> mapping s2 va' = mapping s va'"
  proof (rule vmm_map_apart [OF a(1,2) _ _ _ vm])
    fix lvl'
    assume b: "tables_ok lvl' s2" "grows 3 lvl (s\<lparr>pg_pmm := p\<rparr>) lvl' s2" "apart U D lvl' s2"
      "if r = 0 then mapping s2 va = Some ?e \<and>
          (\<forall>va'. va_path va' \<noteq> va_path va \<longrightarrow> mapping s2 va' = mapping (s\<lparr>pg_pmm := p\<rparr>) va')
       else r = - 1 \<and> (\<forall>va'. mapping s2 va' = mapping (s\<lparr>pg_pmm := p\<rparr>) va')"
      and r: "walk_open (s\<lparr>pg_pmm := p\<rparr>) va \<Longrightarrow> 3 \<le> card (avail (pg_pmm (s\<lparr>pg_pmm := p\<rparr>))) \<Longrightarrow> r = 0"
    have "r = 0" using walk n f a(3) by (intro r) simp_all
    with b that [of lvl'] show thesis by (simp add: mapping_def read_cr3_def)
  qed (use f in simp_all)
  define M2 where "M2 = (\<lambda>x. if x - va < PAGE_SIZE then Some (byte_at (pmem s2) (f OR take_bit 12 x)) else M x)"
  have fa: "f \<in> avail (pg_pmm s)" "avail p = avail (pg_pmm s) - {f}" "aligned f" "child ?e = f"
    using f alloc_frame_spec(4) [OF ok al nz] by (simp_all add: child_leaf)
  have "backed lvl2 s2 M2"
    unfolding M2_def
    by (rule map_page_backed [OF bk wf _ g fa(1-3) va new m fa(4)]) (use ok2 in \<open>simp_all add: tables_ok_def\<close>)
  then have "holds U D s2 M2 n"
    using ok2 ap2 n g f by (auto simp: holds_def grows_def)
  moreover have "x \<in> dom M2" if "unat (x - va) < length (replicate 4096 (0 :: u8))" for x
    using that by (simp add: M2_def word_less_nat_alt domIff)
  ultimately obtain s3 where s3: "put_bytes s2 va (replicate 4096 0) = Some s3"
    "holds U D s3 (copy_bytes va (replicate 4096 0) M2) n" "walk_open s3 = walk_open s2"
    using put_bytes_holds [of U D s2 M2 n "replicate 4096 0" va] by auto
  have "copy_bytes va (replicate 4096 0) M2 = fill_area va 4096 M"
    unfolding fill_area_bytes by (auto simp: fill_area_def M2_def word_less_nat_alt)
  moreover have "walk_open s2 = walk_open s" using g a(3) by (simp add: grows_def fun_eq_iff)
  moreover have "map_zeroed_page s va = Some s3"
    using s3(1) vm al by (simp add: map_zeroed_page_def)
  ultimately show ?thesis using s3 by auto
qed

section \<open>Areas, programs and the whole file system\<close>

lemma off_shift:
  fixes x va c :: u64
  shows "unat (x - (va + c)) = (if unat c \<le> unat (x - va) then unat (x - va) - unat c
    else unat (x - va) + 2 ^ 64 - unat c)"
proof -
  have "x - (va + c) = (x - va) - c" by simp
  moreover have "unat (d - c) = (if unat c \<le> unat d then unat d - unat c else unat d + 2 ^ 64 - unat c)"
    for d :: u64 by (simp add: unat_sub_if')
  ultimately show ?thesis by (simp only:)
qed

lemma map_zeroed_holds:
  assumes "holds U D s M (n + 4 * pages)" and "aligned va" and "unat va + 4096 * pages \<le> 2 ^ 47"
    and "\<And>x. unat (x - va) < 4096 * pages \<Longrightarrow> M x = None \<and> walk_open s x"
  shows "\<exists>s'. map_zeroed s va pages = Some s' \<and> holds U D s' (fill_area va (4096 * pages) M) n \<and>
    walk_open s' = walk_open s"
  using assms
proof (induction pages arbitrary: s va M)
  case 0
  then show ?case by (simp add: fill_area_def)
next
  case (Suc k)
  have va: "va < 2 ^ 47" using Suc.prems(3) by (simp add: word_less_nat_alt)
  have lt: "x - va < PAGE_SIZE \<longleftrightarrow> unat (x - va) < 4096" for x by (simp add: word_less_nat_alt)
  have off: "unat (x - (va + PAGE_SIZE)) < 4096 * k \<longleftrightarrow>
      4096 \<le> unat (x - va) \<and> unat (x - va) < 4096 * Suc k" for x
    using Suc.prems(3) unfolding off_shift by auto
  have "holds U D s M ((n + 4 * k) + 4)" using Suc.prems(1) by (simp add: algebra_simps)
  moreover have "M x = None" if "x - va < PAGE_SIZE" for x
    using Suc.prems(4) [of x] that lt [of x] by simp
  moreover have "walk_open s va" using Suc.prems(4) [of va] by simp
  ultimately obtain s1 where s1: "map_zeroed_page s va = Some s1"
    "holds U D s1 (fill_area va 4096 M) (n + 4 * k)" "walk_open s1 = walk_open s"
    using map_zeroed_page_holds [of U D s M "n + 4 * k" va] Suc.prems(2) va by blast
  have up: "unat (va + PAGE_SIZE) = unat va + 4096"
    using Suc.prems(3) by (simp add: unat_word_ariths)
  have "\<exists>s'. map_zeroed s1 (va + PAGE_SIZE) k = Some s' \<and>
      holds U D s' (fill_area (va + PAGE_SIZE) (4096 * k) (fill_area va 4096 M)) n \<and> walk_open s' = walk_open s1"
  proof (rule Suc.IH [OF s1(2)])
    show "aligned (va + PAGE_SIZE)" using Suc.prems(2) up by (simp add: aligned_def mod_add_eq)
    show "unat (va + PAGE_SIZE) + 4096 * k \<le> 2 ^ 47" using Suc.prems(3) up by simp
    show "unat (x - (va + PAGE_SIZE)) < 4096 * k \<Longrightarrow> fill_area va 4096 M x = None \<and> walk_open s1 x" for x
      using Suc.prems(4) [of x] s1(3) off [of x] by (auto simp: fill_area_def)
  qed
  moreover have "fill_area (va + PAGE_SIZE) (4096 * k) (fill_area va 4096 M) = fill_area va (4096 * Suc k) M"
    unfolding fill_area_def off by (rule ext) auto
  ultimately show ?case using s1 by auto
qed

text \<open>\<open>span pr\<close>: the 512 KiB of address space of a program.\<close>

definition span :: "prog \<Rightarrow> u64 set" where
  "span pr = {x. unat (x - pr_base pr) < 0x80000}"

definition prog_fits :: "prog \<Rightarrow> bool" where
  "prog_fits pr \<longleftrightarrow> aligned (pr_base pr) \<and> unat (pr_base pr) + 0x80000 \<le> 2 ^ 47 \<and>
     pr_stack_top pr = pr_base pr + STK_OFFSET \<and> length (image pr) \<le> 0x10000"

lemma load_spec_at:
  assumes "prog_fits pr"
  shows "load_spec pr M x =
    (let k = unat (x - pr_base pr) in
     if k < length (image pr) then Some (image pr ! k)
     else if k < 0x10000 \<or> 0x7C000 \<le> k \<and> k < 0x80000 then Some 0 else M x)"
proof -
  have st: "pr_stack_top pr - STK_BYTES = pr_base pr + 0x7C000" using assms by (simp add: prog_fits_def)
  show ?thesis
    using assms unfolding load_spec_def copy_bytes_def fill_area_def st off_shift Let_def
    by (auto simp: prog_fits_def)
qed

lemma load_spec_outside: "prog_fits pr \<Longrightarrow> x \<notin> span pr \<Longrightarrow> load_spec pr M x = M x"
  by (auto simp: load_spec_at span_def Let_def prog_fits_def)

lemma load_one_holds:
  assumes h: "holds U D s M (n + 80)" and fits: "prog_fits pr"
    and new: "\<And>x. x \<in> span pr \<Longrightarrow> M x = None \<and> walk_open s x"
  shows "\<exists>s'. load_one s pr = Some s' \<and> holds U D s' (load_spec pr M) n \<and> walk_open s' = walk_open s"
proof -
  note f = fits [unfolded prog_fits_def]
  have "holds U D s M ((n + 16) + 4 * 16)" using h by (simp add: add.commute)
  then have "\<exists>s1. map_zeroed s (pr_base pr) 16 = Some s1 \<and>
      holds U D s1 (fill_area (pr_base pr) (4096 * 16) M) (n + 16) \<and> walk_open s1 = walk_open s"
    by (rule map_zeroed_holds) (use f new in \<open>auto simp: span_def\<close>)
  then obtain s1 where s1: "map_zeroed s (pr_base pr) 16 = Some s1"
    "holds U D s1 (fill_area (pr_base pr) 0x10000 M) (n + 4 * 4)" "walk_open s1 = walk_open s" by auto
  have st: "pr_stack_top pr - STK_BYTES = pr_base pr + 0x7C000" using f by simp
  have ust: "unat (pr_base pr + 0x7C000) = unat (pr_base pr) + 0x7C000"
    using f by (simp add: unat_word_ariths)
  have "\<exists>s2. map_zeroed s1 (pr_base pr + 0x7C000) 4 = Some s2 \<and>
      holds U D s2 (fill_area (pr_base pr + 0x7C000) (4096 * 4) (fill_area (pr_base pr) 0x10000 M)) n \<and>
      walk_open s2 = walk_open s1"
  proof (rule map_zeroed_holds [OF s1(2)])
    have "4096 dvd unat (pr_base pr) + 0x7C000"
      using f by (intro dvd_add) (simp_all add: aligned_def dvd_eq_mod_eq_0)
    then show "aligned (pr_base pr + 0x7C000)" using ust by (simp add: aligned_def dvd_eq_mod_eq_0)
    show "unat (pr_base pr + 0x7C000) + 4096 * 4 \<le> 2 ^ 47" using f ust by simp
    show "unat (x - (pr_base pr + 0x7C000)) < 4096 * 4 \<Longrightarrow>
        fill_area (pr_base pr) 0x10000 M x = None \<and> walk_open s1 x" for x
      using new [of x] s1(3) by (auto simp: off_shift fill_area_def span_def split: if_splits)
  qed
  then obtain s2 where s2: "map_zeroed s1 (pr_base pr + 0x7C000) 4 = Some s2"
    "holds U D s2 (fill_area (pr_base pr + 0x7C000) 0x4000 (fill_area (pr_base pr) 0x10000 M)) n"
    "walk_open s2 = walk_open s1" by auto
  have "\<exists>s3. put_bytes s2 (pr_base pr) (image pr) = Some s3 \<and>
      holds U D s3 (copy_bytes (pr_base pr) (image pr)
        (fill_area (pr_base pr + 0x7C000) 0x4000 (fill_area (pr_base pr) 0x10000 M))) n \<and>
      walk_open s3 = walk_open s2"
    by (rule put_bytes_holds [OF s2(2)]) (use f in \<open>auto simp: fill_area_def domIff\<close>)
  moreover have "load_spec pr M = copy_bytes (pr_base pr) (image pr)
        (fill_area (pr_base pr + 0x7C000) 0x4000 (fill_area (pr_base pr) 0x10000 M))"
    by (simp add: load_spec_def st)
  ultimately show ?thesis
    using s1 s2 by (auto simp: load_one_def st)
qed

lemma fold_load_holds:
  assumes "holds U D s M (n + 80 * length ps)" and "\<And>pr. pr \<in> set ps \<Longrightarrow> prog_fits pr"
    and "\<And>pr x. pr \<in> set ps \<Longrightarrow> x \<in> span pr \<Longrightarrow> M x = None \<and> walk_open s x"
    and "sorted_wrt (\<lambda>p q. span p \<inter> span q = {}) ps"
  shows "\<exists>s'. fold (\<lambda>pr so. case so of None \<Rightarrow> None | Some s' \<Rightarrow> load_one s' pr) ps (Some s) = Some s' \<and>
    holds U D s' (fold load_spec ps M) n \<and> walk_open s' = walk_open s"
  using assms
proof (induction ps arbitrary: s M)
  case (Cons pr ps)
  have "holds U D s M ((n + 80 * length ps) + 80)" using Cons.prems(1) by (simp add: algebra_simps)
  from load_one_holds [OF this Cons.prems(2) Cons.prems(3) [of pr]] obtain s1 where
    s1: "load_one s pr = Some s1" "holds U D s1 (load_spec pr M) (n + 80 * length ps)" "walk_open s1 = walk_open s"
    by auto
  have "\<exists>s'. fold (\<lambda>pr so. case so of None \<Rightarrow> None | Some s' \<Rightarrow> load_one s' pr) ps (Some s1) = Some s' \<and>
      holds U D s' (fold load_spec ps (load_spec pr M)) n \<and> walk_open s' = walk_open s1"
  proof (rule Cons.IH [OF s1(2)])
    fix q x assume q: "q \<in> set ps" "x \<in> span q"
    then have "x \<notin> span pr" using Cons.prems(4) by auto
    then show "load_spec pr M x = None \<and> walk_open s1 x"
      using Cons.prems(2) [of pr] Cons.prems(3) [of q x] q s1(3) by (simp add: load_spec_outside)
  qed (use Cons.prems in auto)
  with s1(1,3) show ?case by simp
qed simp

lemma fold_load_at:
  assumes "\<And>pr. pr \<in> set ps \<Longrightarrow> prog_fits pr" and "sorted_wrt (\<lambda>p q. span p \<inter> span q = {}) ps"
    and "pr \<in> set ps" "x \<in> span pr" "M x = None"
  shows "fold load_spec ps M x = load_spec pr (\<lambda>_. None) x"
  using assms
proof (induction ps arbitrary: M)
  case (Cons q ps)
  have keep: "fold load_spec qs N x = N x"
    if "\<And>r. r \<in> set qs \<Longrightarrow> prog_fits r \<and> x \<notin> span r" for qs N
    using that by (induction qs arbitrary: N) (simp_all add: load_spec_outside)
  show ?case
  proof (cases "pr = q")
    case True
    have "prog_fits r \<and> x \<notin> span r" if "r \<in> set ps" for r using that Cons.prems True by auto
    then have "fold load_spec ps (load_spec q M) x = load_spec q M x" by (intro keep) auto
    with True Cons.prems show ?thesis by (simp add: load_spec_at Let_def)
  next
    case False
    then have "pr \<in> set ps" using Cons.prems by simp
    moreover from this have "x \<notin> span q" using Cons.prems by auto
    moreover from this have "load_spec q M x = None" using Cons.prems by (simp add: load_spec_outside)
    ultimately show ?thesis using Cons by simp
  qed
qed simp

lemma holds_read:
  assumes "holds U D s M n"
  shows "M x = Some b \<Longrightarrow> phys s x \<noteq> None \<and> user_byte s x = b" and "inj_on (phys s) (dom M)"
proof -
  obtain lvl where bk: "backed lvl s M" using assms by (auto simp: holds_def)
  have ph: "phys s x = translate s x \<and> translate s x \<noteq> None \<and> x < 2 ^ 47" if m: "M x = Some b" for x b
  proof -
    obtain pa where "x < 2 ^ 47" "translate s x = Some pa" by (rule backedD [OF bk m])
    then show ?thesis by (simp add: phys_translate)
  qed
  show "phys s x \<noteq> None \<and> user_byte s x = b" if m: "M x = Some b"
  proof -
    obtain pa where "x < 2 ^ 47" "translate s x = Some pa" "byte_at (pmem s) pa = b" by (rule backedD [OF bk m])
    then show ?thesis by (simp add: phys_translate user_byte_def)
  qed
  show "inj_on (phys s) (dom M)"
  proof (rule inj_onI)
    fix x y assume "x \<in> dom M" "y \<in> dom M" "phys s x = phys s y"
    moreover from this have "translate s x = translate s y" using ph [of x] ph [of y] by (metis domD)
    ultimately show "x = y" using bk by (simp add: backed_def inj_on_def)
  qed
qed

end
