(* ===== verification/Fmt.thy ===== *)
theory Fmt
  imports Prelude
begin

text \<open>
  Printing numbers: the digit loops of \<open>put_dec\<close> and \<open>put_hex\<close>
  (\<^verbatim>\<open>arch/x86_64/trap/trap.c\<close>), as the lists of characters they emit.  A C
  character is a byte; \<open>str\<close> gives the bytes of a literal.
\<close>

definition str :: "string \<Rightarrow> u8 list" where
  "str s = map of_char s"

section \<open>Decimal\<close>

text \<open>\<open>while (v) { buf[i++] = '0' + v % 10; v /= 10; }\<close>: least significant digit first.\<close>

lemma div_ten_less: "v \<noteq> 0 \<Longrightarrow> unat (v div 10 :: u64) < unat v"
  by (simp add: unat_div word_neq_0_conv word_less_nat_alt div_less_dividend)

function dec_digits :: "u64 \<Rightarrow> u8 list" where
  "dec_digits v = (if v = 0 then [] else (0x30 + ucast (v mod 10)) # dec_digits (v div 10))"
  by auto
termination by (relation "measure unat") (auto simp: div_ten_less)

declare dec_digits.simps [simp del]

definition put_dec :: "u64 \<Rightarrow> u8 list" where
  "put_dec v = (if v = 0 then [0x30] else rev (dec_digits v))"

definition digit_val :: "u8 \<Rightarrow> nat" where
  "digit_val c = unat c - 0x30"

definition dec_val :: "u8 list \<Rightarrow> nat" where
  "dec_val cs = foldl (\<lambda>a c. 10 * a + digit_val c) 0 cs"

lemma digit_char:
  fixes v :: u64
  shows "unat (0x30 + ucast (v mod 10) :: u8) = 0x30 + unat v mod 10"
proof -
  have "unat (v mod 10) = unat v mod 10" by (simp add: unat_mod)
  then have "unat (ucast (v mod 10) :: u8) = unat v mod 10"
    by (simp add: unsigned_ucast_eq take_bit_nat_eq_self)
  then show ?thesis by (simp add: unat_word_ariths)
qed

lemma dec_val_snoc: "dec_val (cs @ [c]) = 10 * dec_val cs + digit_val c"
  by (simp add: dec_val_def)

lemma dec_digits_val: "dec_val (rev (dec_digits v)) = unat v"
proof (induction v rule: dec_digits.induct)
  case (1 v)
  show ?case
  proof (cases "v = 0")
    case True
    then show ?thesis by (simp add: dec_digits.simps dec_val_def)
  next
    case False
    then have "dec_val (rev (dec_digits v)) = 10 * unat (v div 10) + digit_val (0x30 + ucast (v mod 10))"
      by (subst dec_digits.simps) (simp add: dec_val_snoc 1)
    then show ?thesis by (simp add: digit_val_def digit_char unat_div)
  qed
qed

lemma dec_digits_range: "c \<in> set (dec_digits v) \<Longrightarrow> 0x30 \<le> c \<and> c \<le> 0x39"
proof (induction v rule: dec_digits.induct)
  case (1 v)
  have d: "(0x30 :: u8) \<le> 0x30 + ucast (v mod 10) \<and> 0x30 + ucast (v mod 10) \<le> (0x39 :: u8)"
    unfolding word_le_nat_alt digit_char by simp
  from 1 d show ?case by (subst (asm) (2) dec_digits.simps) (auto split: if_splits)
qed

lemma dec_digits_length: "unat v < 10 ^ k \<Longrightarrow> length (dec_digits v) \<le> k"
proof (induction k arbitrary: v)
  case 0
  then have "v = 0" by (simp add: unat_eq_0)
  then show ?case by (simp add: dec_digits.simps)
next
  case (Suc k)
  have "unat (v div 10) < 10 ^ k"
    using Suc.prems by (simp add: unat_div div_less_iff_less_mult mult.commute)
  with Suc.IH show ?case by (subst dec_digits.simps) simp
qed

lemma dec_digits_last: "v \<noteq> 0 \<Longrightarrow> last (dec_digits v) \<noteq> 0x30"
proof (induction v rule: dec_digits.induct)
  case (1 v)
  show ?case
  proof (cases "v div 10 = 0")
    case True
    moreover have "unat (v div 10) = unat v div 10" by (simp add: unat_div)
    ultimately have "unat v div 10 = 0" by simp
    then have lt: "unat v < 10" by simp
    have "0x30 + ucast (v mod 10) \<noteq> (0x30 :: u8)"
    proof
      assume "0x30 + ucast (v mod 10) = (0x30 :: u8)"
      then have "unat (0x30 + ucast (v mod 10) :: u8) = 0x30" by simp
      then show False using 1(2) lt unfolding digit_char by (simp add: unat_eq_0)
    qed
    then show ?thesis using 1(2) True by (subst dec_digits.simps) (simp add: dec_digits.simps)
  next
    case False
    then have "dec_digits (v div 10) \<noteq> []" by (subst dec_digits.simps) simp
    then show ?thesis using 1 False by (subst dec_digits.simps) simp
  qed
qed

section \<open>Hexadecimal\<close>

definition hex_digit :: "nat \<Rightarrow> u8" where
  "hex_digit n = str ''0123456789abcdef'' ! n"

definition put_hex :: "u64 \<Rightarrow> u8 list" where
  "put_hex v = str ''0x'' @ map (\<lambda>k. hex_digit (unat (drop_bit (60 - 4 * k) v AND 0xF))) [0..<16]"

definition hex_digit_val :: "u8 \<Rightarrow> nat" where
  "hex_digit_val c = (if c \<le> 0x39 then unat c - 0x30 else unat c - 0x57)"

definition hex_val :: "u8 list \<Rightarrow> nat" where
  "hex_val cs = foldl (\<lambda>a c. 16 * a + hex_digit_val c) 0 cs"

lemma nibble: "unat (drop_bit n v AND 0xF :: u64) = unat v div 2 ^ n mod 16"
proof -
  have m: "(0xF :: u64) = mask 4" by (simp add: mask_eq_exp_minus_1)
  have "unat (drop_bit n v AND 0xF) = take_bit 4 (drop_bit n (unat v))"
    unfolding m take_bit_eq_mask [symmetric] by (simp only: unsigned_take_bit_eq unat_drop_bit_eq)
  then show ?thesis by (simp add: take_bit_eq_mod drop_bit_eq_div)
qed

lemma hex_digit_val: "n < 16 \<Longrightarrow> hex_digit_val (hex_digit n) = n"
proof -
  assume "n < 16"
  then have "n \<in> set [0..<16]" by simp
  then show ?thesis by (auto simp: hex_digit_def hex_digit_val_def str_def of_char_def upt_rec)
qed

lemma hex_val_prefix:
  "n \<le> 16 \<Longrightarrow>
   hex_val (map (\<lambda>k. hex_digit (unat (drop_bit (60 - 4 * k) v AND 0xF))) [0..<n]) = unat (v :: u64) div 2 ^ (64 - 4 * n)"
proof (induction n)
  case 0
  then show ?case using unsigned_less [of v, where 'a = nat] by (simp add: hex_val_def)
next
  case (Suc n)
  let ?e = "64 - 4 * Suc n"
  have e: "64 - 4 * n = ?e + 4" "60 - 4 * n = ?e" using Suc.prems by simp_all
  have "hex_val (map (\<lambda>k. hex_digit (unat (drop_bit (60 - 4 * k) v AND 0xF))) [0..<Suc n]) =
      16 * (unat v div 2 ^ (64 - 4 * n)) + unat v div 2 ^ (60 - 4 * n) mod 16"
    using Suc by (simp add: hex_val_def hex_digit_val nibble)
  also have "\<dots> = unat v div 2 ^ ?e"
    unfolding e by (simp add: power_add div_mult2_eq)
  finally show ?case .
qed

lemma put_hex_val: "hex_val (drop 2 (put_hex v)) = unat v"
  using hex_val_prefix [of 16 v] by (simp add: put_hex_def str_def)

lemma put_hex_length: "length (put_hex v) = 18"
  by (simp add: put_hex_def str_def)

section \<open>Properties\<close>

text \<open>C34: \<open>put_dec\<close> prints the decimal representation: reading the digits back gives the
  number, every character is a digit, there is no leading zero except for zero itself, and the
  digits fit the buffer of 21 characters.\<close>

theorem put_dec_correct:
  "dec_val (put_dec v) = unat v \<and> (\<forall>c\<in>set (put_dec v). 0x30 \<le> c \<and> c \<le> 0x39) \<and>
   (v \<noteq> 0 \<longrightarrow> hd (put_dec v) \<noteq> 0x30) \<and> length (put_dec v) \<le> 20"
proof -
  have "unat v < 10 ^ 20" using unsigned_less [of v, where 'a = nat] by simp
  then have len: "length (dec_digits v) \<le> 20" by (rule dec_digits_length)
  show ?thesis
  proof (cases "v = 0")
    case True
    then show ?thesis by (simp add: put_dec_def dec_val_def digit_val_def)
  next
    case False
    then have "dec_digits v \<noteq> []" by (subst dec_digits.simps) simp
    with False len show ?thesis
      using dec_digits_val [of v] dec_digits_range [of _ v] dec_digits_last [OF False]
      by (simp add: put_dec_def hd_rev)
  qed
qed

theorem put_dec_correct_witness: "dec_val (put_dec 65535) = 65535 \<and> hd (put_dec 65535) \<noteq> 0x30"
  using put_dec_correct [of 65535] by simp

text \<open>\<open>put_hex\<close> prints \<open>0x\<close> and sixteen digits, and reading these back gives the number.\<close>

theorem put_hex_correct:
  "take 2 (put_hex v) = str ''0x'' \<and> length (put_hex v) = 18 \<and> hex_val (drop 2 (put_hex v)) = unat v"
  using put_hex_val [of v] put_hex_length [of v] by (simp add: put_hex_def str_def)

end
