(* ===== verification/Hal.thy ===== *)
theory Hal
  imports Fmt
begin

text \<open>
  The device registers the kernel writes (\<^verbatim>\<open>arch/x86_64/hal/\<close>).  A routine is
  the list of the \<open>outb\<close>s it makes, in order, as pairs of port and byte.  The polling loops of
  the UART read its line status; \<open>uart_poll\<close> runs them on the sequence of values the device
  returns.
\<close>

type_synonym outs = "(u16 \<times> u8) list"

section \<open>Programmable interrupt controllers\<close>

abbreviation PIC1_CMD :: u16 where "PIC1_CMD \<equiv> 0x20"
abbreviation PIC1_DATA :: u16 where "PIC1_DATA \<equiv> 0x21"
abbreviation PIC2_CMD :: u16 where "PIC2_CMD \<equiv> 0xA0"
abbreviation PIC2_DATA :: u16 where "PIC2_DATA \<equiv> 0xA1"
abbreviation PIC_EOI :: u8 where "PIC_EOI \<equiv> 0x20"

definition io_wait :: outs where
  "io_wait = [(0x80, 0)]"

definition pic_remap :: "u8 \<Rightarrow> u8 \<Rightarrow> u8 \<Rightarrow> u8 \<Rightarrow> outs" where
  "pic_remap m1 m2 off1 off2 =
     [(PIC1_CMD, 0x11)] @ io_wait @ [(PIC2_CMD, 0x11)] @ io_wait @
     [(PIC1_DATA, off1)] @ io_wait @ [(PIC2_DATA, off2)] @ io_wait @
     [(PIC1_DATA, 0x04)] @ io_wait @ [(PIC2_DATA, 0x02)] @ io_wait @
     [(PIC1_DATA, 0x01)] @ io_wait @ [(PIC2_DATA, 0x01)] @ io_wait @
     [(PIC1_DATA, m1), (PIC2_DATA, m2)]"

definition pic_set_mask :: "u16 \<Rightarrow> outs" where
  "pic_set_mask m = [(PIC1_DATA, ucast (m AND 0xFF)), (PIC2_DATA, ucast (drop_bit 8 m))]"

definition pic_send_eoi :: "u8 \<Rightarrow> outs" where
  "pic_send_eoi irq = (if irq \<ge> 8 then [(PIC2_CMD, PIC_EOI)] else []) @ [(PIC1_CMD, PIC_EOI)]"

section \<open>Interval timer\<close>

abbreviation PIT_CH0 :: u16 where "PIT_CH0 \<equiv> 0x40"
abbreviation PIT_CMD :: u16 where "PIT_CMD \<equiv> 0x43"
abbreviation PIT_HZ :: u32 where "PIT_HZ \<equiv> 1193182"

definition pit_init :: "u32 \<Rightarrow> outs" where
  "pit_init hz =
     (let d = PIT_HZ div hz in
      [(PIT_CMD, 0x36), (PIT_CH0, ucast (d AND 0xFF)), (PIT_CH0, ucast (drop_bit 8 d AND 0xFF))])"

section \<open>Serial port\<close>

abbreviation UART_COM1 :: u16 where "UART_COM1 \<equiv> 0x3F8"
abbreviation LSR_THR_EMPTY :: u8 where "LSR_THR_EMPTY \<equiv> 0x20"

definition arch_uart_init :: outs where
  "arch_uart_init =
     [(UART_COM1 + 1, 0x00), (UART_COM1 + 3, 0x80), (UART_COM1 + 0, 0x03), (UART_COM1 + 1, 0x00),
      (UART_COM1 + 3, 0x03), (UART_COM1 + 2, 0x01), (UART_COM1 + 4, 0x0B)]"

definition arch_uart_tx_ready :: "u8 \<Rightarrow> bool" where
  "arch_uart_tx_ready lsr \<longleftrightarrow> lsr AND LSR_THR_EMPTY \<noteq> 0"

text \<open>The bytes \<open>arch_uart_putc\<close> transmits, once the device has been ready for each.\<close>

definition arch_uart_putc :: "u8 \<Rightarrow> outs" where
  "arch_uart_putc c = (if c = 0x0A then [(UART_COM1, 0x0D)] else []) @ [(UART_COM1, c)]"

text \<open>
  The same with its polling loops: \<open>None\<close> is a loop that is still waiting when the given
  status values end.
\<close>

fun uart_wait :: "u8 list \<Rightarrow> u8 list option" where
  "uart_wait [] = None"
| "uart_wait (lsr # rest) = (if arch_uart_tx_ready lsr then Some rest else uart_wait rest)"

definition uart_poll :: "u8 \<Rightarrow> u8 list \<Rightarrow> (outs \<times> u8 list) option" where
  "uart_poll c lsrs =
     (case (if c = 0x0A then map_option (Pair [(UART_COM1, 0x0D)]) (uart_wait lsrs) else Some ([], lsrs)) of
        None \<Rightarrow> None
      | Some (o1, rest) \<Rightarrow> map_option (Pair (o1 @ [(UART_COM1, c)])) (uart_wait rest))"

definition hal_console_putc :: "u8 \<Rightarrow> outs" where
  "hal_console_putc c = arch_uart_putc c"

definition puts_raw :: "u8 list \<Rightarrow> outs" where
  "puts_raw cs = concat (map hal_console_putc cs)"

section \<open>What the routines do\<close>

lemma uart_wait_enough: "lsr \<in> set lsrs \<Longrightarrow> arch_uart_tx_ready lsr \<Longrightarrow> \<exists>rest. uart_wait lsrs = Some rest"
  by (induction lsrs) auto

lemma uart_wait_length: "uart_wait lsrs = Some rest \<Longrightarrow> length rest < length lsrs"
  by (induction lsrs) (auto split: if_splits)

lemma uart_poll_outs: "uart_poll c lsrs = Some (outs, rest) \<Longrightarrow> outs = arch_uart_putc c"
  by (auto simp: uart_poll_def arch_uart_putc_def split: option.splits if_splits)

text \<open>A device that is ready at least twice lets the character go out.\<close>

lemma uart_wait_append:
  "lsr \<in> set xs \<Longrightarrow> arch_uart_tx_ready lsr \<Longrightarrow> \<exists>rest. uart_wait (xs @ ys) = Some (rest @ ys)"
  by (induction xs) auto

lemma uart_poll_returns:
  assumes "lsr1 \<in> set xs" "arch_uart_tx_ready lsr1" "lsr2 \<in> set ys" "arch_uart_tx_ready lsr2"
  shows "\<exists>rest. uart_poll c (xs @ ys) = Some (arch_uart_putc c, rest)"
proof -
  obtain r1 where r1: "uart_wait (xs @ ys) = Some (r1 @ ys)" using uart_wait_append assms(1,2) by blast
  obtain r2 where r2: "uart_wait (r1 @ ys) = Some r2"
    using uart_wait_enough [of lsr2 "r1 @ ys"] assms(3,4) by auto
  show ?thesis
    by (auto simp: uart_poll_def arch_uart_putc_def r1 r2)
qed

text \<open>The two mask bytes are the sixteen mask bits; the divisor bytes are the divisor.\<close>

lemma mask8: "(0xFF :: u16) = mask 8" "(0xFF :: u32) = mask 8"
  by (simp_all add: mask_eq_exp_minus_1)

lemma pic_set_mask_bits:
  assumes "pic_set_mask m = [(p1, lo), (p2, hi)]" and "n < 16"
  shows "bit m n \<longleftrightarrow> (if n < 8 then bit lo n else bit hi (n - 8))"
  using assms unfolding pic_set_mask_def mask8
  by (auto simp: bit_ucast_iff bit_and_iff bit_drop_bit_eq bit_mask_iff)

lemma pit_divisor:
  assumes "pit_init hz = [(c, m), (p, lo), (q, hi)]" and hz: "19 \<le> hz"
  shows "unat lo + 256 * unat hi = 1193182 div unat hz"
proof -
  define d where "d = PIT_HZ div hz"
  have "lo = ucast (d AND mask 8)" "hi = ucast (drop_bit 8 d AND mask 8)"
    using assms(1) by (simp_all add: pit_init_def d_def mask8 Let_def)
  then have "lo = ucast (take_bit 8 d)" "hi = ucast (take_bit 8 (drop_bit 8 d))"
    by (simp_all add: take_bit_eq_mask)
  then have lo: "unat lo = unat d mod 256" and hi: "unat hi = unat d div 256 mod 256"
    by (simp_all add: unsigned_ucast_eq take_bit_eq_mod drop_bit_eq_div unat_mod unat_div)
  have d: "unat d = 1193182 div unat hz" by (simp add: d_def unat_div)
  have "19 \<le> unat hz" using hz by (simp add: word_le_nat_alt)
  then have "1193182 div unat hz \<le> 1193182 div 19" by (rule div_le_mono2 [rotated]) simp
  then have "unat d div 256 mod 256 = unat d div 256" using d by simp
  then show ?thesis using lo hi d by simp
qed

end
