(* ===== verification/Kernel.thy ===== *)
theory Kernel
  imports Proc Hal
begin

text \<open>
  The kernel's entry point: interrupt demultiplexing, the system calls and the forwarding of
  page faults to the user pager (\<^verbatim>\<open>arch/x86_64/trap/trap.c\<close>), and the drop to user
  mode (\<^verbatim>\<open>usermode.c\<close>).  One entry is \<open>isr_handler\<close>: it saves the registers of
  the interrupted thread, runs the handler and, when the handler switches threads, goes on with
  what the threads switched to have left to do in the kernel (\<open>resume\<close>), until one returns to
  user mode or the idle thread halts.  What the hardware supplies during an entry is the record
  \<open>kenv\<close>.

  SYS\_RECV stores through a pointer that it does not check, and the boot code maps all of low
  memory for the kernel: the store can hit the kernel's own variables.  The record \<open>paging\<close> notes
  it (\<open>clobbered\<close>), and \<open>isr_handler\<close> then returns an arbitrary state (\<open>overrun\<close>).
\<close>

section \<open>State\<close>

record kstate = sched +
  progs :: "nat \<Rightarrow> prog"
  g_on_tick :: bool
  g_pager_tid :: int
  g_ticks :: u64
  g_irq_tid :: "nat \<Rightarrow> int"
  g_irq_mask :: u16
  pg :: paging
  io_out :: outs
  halted :: bool

text \<open>
  Values read from the devices and from CR2; the frame and the address of a page fault the
  kernel itself causes; for each thread, the bytes its kernel stack holds where a message
  is declared without an initialiser; and what a store into the memory of the kernel makes of its
  state, which depends on where the linker put the variables.
\<close>

record kenv =
  e_inb :: "u16 \<Rightarrow> u8"
  e_inw :: "u16 \<Rightarrow> u16"
  e_cr2 :: u64
  e_kframe :: trapframe
  e_kcr2 :: u64
  e_junk :: "int \<Rightarrow> ipc_msg"
  e_overrun :: "kstate \<Rightarrow> kstate"

abbreviation VEC_IRQ_BASE :: u64 where "VEC_IRQ_BASE \<equiv> 32"
abbreviation VEC_TIMER :: u64 where "VEC_TIMER \<equiv> 32"
abbreviation VEC_PF :: u64 where "VEC_PF \<equiv> 14"
abbreviation SYSCALL_VECTOR :: u64 where "SYSCALL_VECTOR \<equiv> 0x80"

abbreviation SYS_EXIT :: u64 where "SYS_EXIT \<equiv> 0"
abbreviation SYS_PUTC :: u64 where "SYS_PUTC \<equiv> 1"
abbreviation SYS_SEND :: u64 where "SYS_SEND \<equiv> 2"
abbreviation SYS_RECV :: u64 where "SYS_RECV \<equiv> 3"
abbreviation SYS_SPAWN :: u64 where "SYS_SPAWN \<equiv> 4"
abbreviation SYS_MAP :: u64 where "SYS_MAP \<equiv> 5"
abbreviation SYS_SET_PAGER :: u64 where "SYS_SET_PAGER \<equiv> 6"
abbreviation SYS_GETTID :: u64 where "SYS_GETTID \<equiv> 7"
abbreviation SYS_OUTB :: u64 where "SYS_OUTB \<equiv> 8"
abbreviation SYS_INB :: u64 where "SYS_INB \<equiv> 9"
abbreviation SYS_INW :: u64 where "SYS_INW \<equiv> 10"
abbreviation SYS_GRANT_IO :: u64 where "SYS_GRANT_IO \<equiv> 11"
abbreviation SYS_UPTIME :: u64 where "SYS_UPTIME \<equiv> 12"
abbreviation SYS_MEMINFO :: u64 where "SYS_MEMINFO \<equiv> 13"
abbreviation SYS_TINFO :: u64 where "SYS_TINFO \<equiv> 14"
abbreviation SYS_IRQ_REGISTER :: u64 where "SYS_IRQ_REGISTER \<equiv> 15"
abbreviation SYS_MAP_PHYS :: u64 where "SYS_MAP_PHYS \<equiv> 16"
abbreviation SYS_GRANT_CAP :: u64 where "SYS_GRANT_CAP \<equiv> 17"

definition emit :: "outs \<Rightarrow> kstate \<Rightarrow> kstate" where
  "emit os s = s\<lparr>io_out := io_out s @ os\<rparr>"

definition set_rax :: "tptr \<Rightarrow> u64 \<Rightarrow> kstate \<Rightarrow> kstate" where
  "set_rax p v s = upd_thr p (\<lambda>t. t\<lparr>tf := (tf t)\<lparr>rax := v\<rparr>\<rparr>) s"

lemma upd_thr_kstate [frame_simps, simp]:
  "progs (upd_thr p f s) = progs s" "g_on_tick (upd_thr p f s) = g_on_tick s"
  "g_pager_tid (upd_thr p f s) = g_pager_tid s" "g_ticks (upd_thr p f s) = g_ticks s"
  "g_irq_tid (upd_thr p f s) = g_irq_tid s" "g_irq_mask (upd_thr p f s) = g_irq_mask s"
  "pg (upd_thr p f s) = pg s" "io_out (upd_thr p f s) = io_out s" "halted (upd_thr p f s) = halted s"
  by (cases p; simp add: upd_thr.simps)+

lemma schedule_kstate [frame_simps, simp]:
  "progs (schedule s) = progs s" "g_on_tick (schedule s) = g_on_tick s"
  "g_pager_tid (schedule s) = g_pager_tid s" "g_ticks (schedule s) = g_ticks s"
  "g_irq_tid (schedule s) = g_irq_tid s" "g_irq_mask (schedule s) = g_irq_mask s"
  "pg (schedule s) = pg s" "io_out (schedule s) = io_out s" "halted (schedule s) = halted s"
  by (cases s rule: schedule_cases; simp add: switch_to_def Let_def)+

lemma stop_at_kstate [frame_simps, simp]:
  "progs (stop_at k p s) = progs s" "g_on_tick (stop_at k p s) = g_on_tick s"
  "g_pager_tid (stop_at k p s) = g_pager_tid s" "g_ticks (stop_at k p s) = g_ticks s"
  "g_irq_tid (stop_at k p s) = g_irq_tid s" "g_irq_mask (stop_at k p s) = g_irq_mask s"
  "pg (stop_at k p s) = pg s" "io_out (stop_at k p s) = io_out s" "halted (stop_at k p s) = halted s"
  by (simp_all add: stop_at_def)

section \<open>Exceptions\<close>

definition panic_exception :: "trapframe \<Rightarrow> kstate \<Rightarrow> kstate" where
  "panic_exception f s =
     (emit (puts_raw (str ''\<newline>[mukern] EXCEPTION vec='' @ put_dec (vec f) @ str '' err='' @ put_dec (err f) @
        str '' rip='' @ put_hex (rip f)) @ hal_console_putc 0x0A) s)\<lparr>halted := True\<rparr>"

definition page_fault_panic :: "u64 \<Rightarrow> trapframe \<Rightarrow> kstate \<Rightarrow> kstate" where
  "page_fault_panic addr f s =
     panic_exception f (emit (puts_raw (str ''\<newline>[mukern] PAGE FAULT @ '' @ put_hex addr)) s)"

text \<open>A page fault at privilege 0, in the middle of a system call.\<close>

definition kernel_fault :: "kenv \<Rightarrow> kstate \<Rightarrow> kstate" where
  "kernel_fault env s = page_fault_panic (e_kcr2 env) (e_kframe env) s"

section \<open>System calls\<close>

definition ipc_send_allowed :: "'a sched_scheme \<Rightarrow> thread \<Rightarrow> int \<Rightarrow> bool" where
  "ipc_send_allowed s self dest =
     (if tid self = 0 \<or> dest = 0 then True
      else if cap_has_endpoint (Some self) dest then True
      else case thread_by_id dest of
        None \<Rightarrow> False
      | Some i \<Rightarrow>
          let d = threads s i in
          if ipc_call_to d = tid self then True
          else tstate d = T_BLOCKED \<and> ipc_state d = IPC_RECEIVING \<and> ipc_peer d = tid self)"

text \<open>
  A handler returns the new state and whether it switched threads: \<open>True\<close> means that the
  thread now current has still to be resumed.
\<close>

definition sys_send :: "kenv \<Rightarrow> tptr \<Rightarrow> trapframe \<Rightarrow> kstate \<Rightarrow> kstate \<times> bool" where
  "sys_send env p f s =
     (let dest = c_int (rdi f) in
      if \<not> ipc_send_allowed s (thr s p) dest then (set_rax p ERR s, False)
      else
        let s1 = upd_thr p (\<lambda>t. t\<lparr>ipc_call_to := dest\<rparr>) s in
        case copy_in (pg s1) (rsi f) of
          None \<Rightarrow> (kernel_fault env s1, False)
        | Some m \<Rightarrow>
            (case ipc_send_locked s1 p dest m of
               (s2, Some r) \<Rightarrow> (set_rax p (c_ret r) s2, False)
             | (s2, None) \<Rightarrow> (schedule (stop_at K_send p s2), True)))"

definition finish_recv :: "kenv \<Rightarrow> tptr \<Rightarrow> int \<Rightarrow> ipc_msg \<Rightarrow> kstate \<Rightarrow> kstate" where
  "finish_recv env p from m s =
     (case copy_out (pg s) (rsi (tf (thr s p))) m of
        None \<Rightarrow> kernel_fault env s
      | Some pg' \<Rightarrow>
          let s1 = s\<lparr>pg := pg'\<rparr>;
              s2 = (if from = ipc_call_to (thr s1 p) then upd_thr p (\<lambda>t. t\<lparr>ipc_call_to := - 1\<rparr>) s1 else s1)
          in set_rax p (c_ret from) s2)"

definition sys_recv :: "kenv \<Rightarrow> tptr \<Rightarrow> trapframe \<Rightarrow> kstate \<Rightarrow> kstate \<times> bool" where
  "sys_recv env p f s =
     (case ipc_recv_locked s p (c_int (rdi f)) (e_junk env (tid (thr s p))) of
        (s1, Some (from, m)) \<Rightarrow> (finish_recv env p from m s1, False)
      | (s1, None) \<Rightarrow> (schedule (stop_at K_recv p s1), True))"

definition sys_spawn :: "tptr \<Rightarrow> trapframe \<Rightarrow> kstate \<Rightarrow> kstate" where
  "sys_spawn p f s =
     (case proc_spawn s (c_int (rdi f)) of (s1, c) \<Rightarrow>
        let s2 = (if c \<ge> 0 then upd_thr p (\<lambda>t. fst (endpoint_grant t c)) s1 else s1)
        in set_rax p (c_ret c) s2)"

definition sys_map :: "tptr \<Rightarrow> trapframe \<Rightarrow> kstate \<Rightarrow> kstate" where
  "sys_map p f s =
     (case pmm_alloc_frame (pg_pmm (pg s)) of (pm, fr) \<Rightarrow>
        let s1 = s\<lparr>pg := (pg s)\<lparr>pg_pmm := pm\<rparr>\<rparr> in
        if fr = 0 then set_rax p ERR s1
        else case vmm_map (pg s1) (page_align_down (rdi f)) fr (VM_PRESENT OR VM_WRITE OR VM_USER) of
          (pg', r) \<Rightarrow> set_rax p (if r = 0 then 0 else ERR) (s1\<lparr>pg := pg'\<rparr>))"

definition sys_outb :: "tptr \<Rightarrow> trapframe \<Rightarrow> kstate \<Rightarrow> kstate" where
  "sys_outb p f s =
     (if \<not> cap_has_port (Some (thr s p)) (ucast (rdi f)) then set_rax p ERR s
      else set_rax p 0 (emit [(ucast (rdi f), ucast (rsi f))] s))"

definition sys_inb :: "kenv \<Rightarrow> tptr \<Rightarrow> trapframe \<Rightarrow> kstate \<Rightarrow> kstate" where
  "sys_inb env p f s =
     (if \<not> cap_has_port (Some (thr s p)) (ucast (rdi f)) then set_rax p ERR s
      else set_rax p (ucast (e_inb env (ucast (rdi f)))) s)"

definition sys_inw :: "kenv \<Rightarrow> tptr \<Rightarrow> trapframe \<Rightarrow> kstate \<Rightarrow> kstate" where
  "sys_inw env p f s =
     (if \<not> cap_has_port (Some (thr s p)) (ucast (rdi f)) then set_rax p ERR s
      else set_rax p (ucast (e_inw env (ucast (rdi f)))) s)"

definition sys_grant_io :: "tptr \<Rightarrow> trapframe \<Rightarrow> kstate \<Rightarrow> kstate" where
  "sys_grant_io p f s =
     (if tid (thr s p) \<noteq> 0 then set_rax p ERR s
      else case thread_by_id (c_int (rdi f)) of
        None \<Rightarrow> set_rax p (c_ret (- 1)) s
      | Some d \<Rightarrow>
          (let g = port_grant (threads s d) (ucast (rsi f), ucast (rdx f))
           in set_rax p (c_ret (snd g)) (upd_thr (Slot d) (\<lambda>t. fst g) s)))"

definition sys_tinfo :: "tptr \<Rightarrow> trapframe \<Rightarrow> kstate \<Rightarrow> kstate" where
  "sys_tinfo p f s =
     set_rax p (case thread_by_id (c_int (rdi f)) of
                  Some i \<Rightarrow> of_nat (tstate_code (tstate (threads s i))) | None \<Rightarrow> ERR) s"

definition sys_irq_register :: "tptr \<Rightarrow> trapframe \<Rightarrow> kstate \<Rightarrow> kstate" where
  "sys_irq_register p f s =
     (let irq = c_int (rdi f) in
      if irq < 0 \<or> irq \<ge> 16 then set_rax p ERR s
      else
        let mask' = g_irq_mask s AND NOT (push_bit (nat irq) 1)
        in set_rax p 0 (emit (pic_set_mask mask')
             (s\<lparr>g_irq_tid := (g_irq_tid s)(nat irq := tid (thr s p)), g_irq_mask := mask'\<rparr>)))"

definition sys_map_phys :: "tptr \<Rightarrow> trapframe \<Rightarrow> kstate \<Rightarrow> kstate" where
  "sys_map_phys p f s =
     (if tid (thr s p) \<noteq> 0 then set_rax p ERR s
      else case vmm_map (pg s) (rdi f) (rsi f) (VM_PRESENT OR VM_WRITE OR VM_USER) of
        (pg', r) \<Rightarrow> set_rax p (c_ret r) (s\<lparr>pg := pg'\<rparr>))"

definition sys_grant_cap :: "tptr \<Rightarrow> trapframe \<Rightarrow> kstate \<Rightarrow> kstate" where
  "sys_grant_cap p f s =
     (let ep = c_int (rsi f) in
      if tid (thr s p) \<noteq> 0 \<and> \<not> cap_has_endpoint (Some (thr s p)) ep then set_rax p ERR s
      else case thread_by_id (c_int (rdi f)) of
        None \<Rightarrow> set_rax p (c_ret (- 1)) s
      | Some d \<Rightarrow>
          (let g = endpoint_grant (threads s d) ep
           in set_rax p (c_ret (snd g)) (upd_thr (Slot d) (\<lambda>t. fst g) s)))"

definition do_syscall :: "kenv \<Rightarrow> tptr \<Rightarrow> trapframe \<Rightarrow> kstate \<Rightarrow> kstate \<times> bool" where
  "do_syscall env p f s =
     (let n = rax f in
      if n = SYS_PUTC then (set_rax p 0 (emit (hal_console_putc (ucast (rdi f))) s), False)
      else if n = SYS_EXIT then
        (schedule (stop_at K_dead p (upd_thr p (\<lambda>t. t\<lparr>tstate := T_DEAD\<rparr>) s)), True)
      else if n = SYS_GETTID then (set_rax p (c_ret (tid (thr s p))) s, False)
      else if n = SYS_SEND then sys_send env p f s
      else if n = SYS_RECV then sys_recv env p f s
      else if n = SYS_SPAWN then (sys_spawn p f s, False)
      else if n = SYS_MAP then (sys_map p f s, False)
      else if n = SYS_SET_PAGER then (set_rax p 0 (s\<lparr>g_pager_tid := tid (thr s p)\<rparr>), False)
      else if n = SYS_OUTB then (sys_outb p f s, False)
      else if n = SYS_INB then (sys_inb env p f s, False)
      else if n = SYS_INW then (sys_inw env p f s, False)
      else if n = SYS_GRANT_IO then (sys_grant_io p f s, False)
      else if n = SYS_UPTIME then (set_rax p (g_ticks s) s, False)
      else if n = SYS_MEMINFO then
        (set_rax p (if rdi f \<noteq> 0 then total_frames (pg_pmm (pg s)) else free_frames (pg_pmm (pg s))) s, False)
      else if n = SYS_TINFO then (sys_tinfo p f s, False)
      else if n = SYS_IRQ_REGISTER then (sys_irq_register p f s, False)
      else if n = SYS_MAP_PHYS then (sys_map_phys p f s, False)
      else if n = SYS_GRANT_CAP then (sys_grant_cap p f s, False)
      else (set_rax p ERR s, False))"

section \<open>What a thread has left to do in the kernel\<close>

abbreviation USER_CS :: u64 where "USER_CS \<equiv> 0x1B"
abbreviation USER_SS :: u64 where "USER_SS \<equiv> 0x23"
abbreviation USER_FLAGS :: u64 where "USER_FLAGS \<equiv> 0x202"

text \<open>\<open>arch_enter_user\<close>: the interrupt-return frame of a program that starts.\<close>

definition arch_enter_user :: "tptr \<Rightarrow> u64 \<Rightarrow> u64 \<Rightarrow> kstate \<Rightarrow> kstate" where
  "arch_enter_user p entry user_stack_top s =
     upd_thr p (\<lambda>t. t\<lparr>tf := (tf t)\<lparr>ss := USER_SS, tf_rsp := user_stack_top, rflags := USER_FLAGS,
         cs := USER_CS, rip := entry\<rparr>\<rparr>)
       (s\<lparr>tss_rsp0 := kstack_top (thr s p)\<rparr>)"

definition user_bootstrap :: "tptr \<Rightarrow> prog \<Rightarrow> kstate \<Rightarrow> kstate" where
  "user_bootstrap p pr s = arch_enter_user p (pr_base pr) (pr_stack_top pr) s"

text \<open>
  The pager's answer to a forwarded fault: a non-zero \<open>data0\<close> kills the faulting thread, zero
  lets it retry.  \<open>fault_wait\<close> is the receive half of the call to the pager.
\<close>

definition fault_verdict :: "tptr \<Rightarrow> ipc_msg \<Rightarrow> kstate \<Rightarrow> kstate \<times> bool" where
  "fault_verdict p reply s =
     (if m_data0 reply \<noteq> 0
      then (schedule (stop_at K_dead p (upd_thr p (\<lambda>t. t\<lparr>tstate := T_DEAD\<rparr>) s)), True)
      else (stop_at K_user p s, False))"

definition fault_wait :: "kenv \<Rightarrow> tptr \<Rightarrow> kstate \<Rightarrow> kstate \<times> bool" where
  "fault_wait env p s =
     (case ipc_recv_locked s p (g_pager_tid s) (e_junk env (tid (thr s p))) of
        (s1, Some (from, reply)) \<Rightarrow> fault_verdict p reply s1
      | (s1, None) \<Rightarrow> (schedule (stop_at K_fault_recv p s1), True))"

definition fault_msg :: "int \<Rightarrow> u64 \<Rightarrow> ipc_msg" where
  "fault_msg self addr = zero_msg\<lparr>m_label := MSG_FAULT, m_data0 := c_ret self, m_data1 := addr\<rparr>"

definition forward_fault :: "kenv \<Rightarrow> tptr \<Rightarrow> kstate \<Rightarrow> kstate \<times> bool" where
  "forward_fault env p s =
     (case ipc_send_locked s p (g_pager_tid s) (fault_msg (tid (thr s p)) (e_cr2 env)) of
        (s1, Some r) \<Rightarrow> fault_wait env p s1
      | (s1, None) \<Rightarrow> (schedule (stop_at K_fault_send p s1), True))"

definition run_kont :: "kenv \<Rightarrow> tptr \<Rightarrow> kstate \<Rightarrow> kstate \<times> bool" where
  "run_kont env p s =
     (let junk = e_junk env (tid (thr s p)) in
      case kont (thr s p) of
        K_start g \<Rightarrow> (stop_at K_user p (user_bootstrap p (progs s g) s), False)
      | K_user \<Rightarrow> (s, False)
      | K_send \<Rightarrow>
          (case ipc_send_resume s p of (s1, r) \<Rightarrow> (stop_at K_user p (set_rax p (c_ret r) s1), False))
      | K_recv \<Rightarrow>
          (case ipc_recv_resume s p junk of (s1, from, m) \<Rightarrow>
             (stop_at K_user p (finish_recv env p from m s1), False))
      | K_fault_send \<Rightarrow> fault_wait env p (fst (ipc_send_resume s p))
      | K_fault_recv \<Rightarrow> (case ipc_recv_resume s p junk of (s1, from, reply) \<Rightarrow> fault_verdict p reply s1)
      | K_dead \<Rightarrow> (s, False))"

text \<open>
  The threads that are resumed in turn during one kernel entry.  The recursion ends because a
  thread that blocks or dies while it is resumed is in the second half of a fault and has less
  left to do: \<open>kont_weight\<close> counts the calls of \<open>schedule\<close> it still has ahead.
\<close>

definition kont_weight :: "kont \<Rightarrow> nat" where
  "kont_weight k = (case k of K_fault_send \<Rightarrow> 2 | K_fault_recv \<Rightarrow> 1 | _ \<Rightarrow> 0)"

definition kont_measure :: "kstate \<Rightarrow> nat" where
  "kont_measure s = (\<Sum>i<SCHED_MAX_THREADS. kont_weight (kont (threads s i)))"

definition stray :: "kstate \<Rightarrow> bool" where
  "stray s \<longleftrightarrow> (case current s of Idle \<Rightarrow> False | Slot i \<Rightarrow> SCHED_MAX_THREADS \<le> i)"

lemma fault_verdict_again:
  assumes "fault_verdict (Slot i) m s = (s', True)"
  shows "kont (threads s' j) = (if j = i then K_dead else kont (threads s j))"
    and "\<exists>u. s' = schedule u \<and> current u = current s \<and> tstate (threads u i) \<noteq> T_RUNNABLE"
  using assms by (auto simp: fault_verdict_def stop_at_def split: if_splits)

lemma ipc_recv_locked_frame:
  assumes "ipc_recv_locked s p src out = (s', r)"
  shows "kont (threads s' j) = kont (threads s j)" "current s' = current s"
    "r = None \<Longrightarrow> p = Slot i \<Longrightarrow> tstate (threads s' i) = T_BLOCKED"
  using assms by (cases rule: ipc_recv_cases; auto simp: ipc_thread_defs)+

lemma fault_wait_again:
  assumes "fault_wait env (Slot i) s = (s', True)"
  shows "kont (threads s' j) = (if j = i then kont (threads s' i) else kont (threads s j))"
    and "kont_weight (kont (threads s' i)) \<le> 1"
    and "\<exists>u. s' = schedule u \<and> current u = current s \<and> tstate (threads u i) \<noteq> T_RUNNABLE"
proof -
  obtain s1 r where r: "ipc_recv_locked s (Slot i) (g_pager_tid s) (e_junk env (tid (thr s (Slot i)))) = (s1, r)"
    by fastforce
  note fr = ipc_recv_locked_frame [OF r]
  have "(kont (threads s' j) = (if j = i then kont (threads s' i) else kont (threads s j))) \<and>
    kont_weight (kont (threads s' i)) \<le> 1 \<and>
    (\<exists>u. s' = schedule u \<and> current u = current s \<and> tstate (threads u i) \<noteq> T_RUNNABLE)"
  proof (cases r)
    case None
    then have s': "s' = schedule (stop_at K_fault_recv (Slot i) s1)"
      using assms r by (simp add: fault_wait_def)
    show ?thesis
      unfolding s' using fr(1) [of j] fr(2) fr(3) [OF None refl]
      by (auto simp: stop_at_def kont_weight_def)
  next
    case (Some x)
    then have v: "fault_verdict (Slot i) (snd x) s1 = (s', True)"
      using assms r by (simp add: fault_wait_def split: prod.splits)
    show ?thesis
      using fault_verdict_again [OF v] fr(1,2) by (auto simp: kont_weight_def)
  qed
  then show "kont (threads s' j) = (if j = i then kont (threads s' i) else kont (threads s j))"
    "kont_weight (kont (threads s' i)) \<le> 1"
    "\<exists>u. s' = schedule u \<and> current u = current s \<and> tstate (threads u i) \<noteq> T_RUNNABLE" by blast+
qed

lemma ipc_resume_frame:
  "ipc_recv_resume s p out = (s1, r) \<Longrightarrow> kont (threads s1 j) = kont (threads s j) \<and> current s1 = current s"
  "kont (threads (fst (ipc_send_resume s p)) j) = kont (threads s j)"
  "current (fst (ipc_send_resume s p)) = current s"
  by (auto simp: ipc_recv_resume_def ipc_send_resume_def split: if_splits)

lemma run_kont_again:
  assumes "run_kont env (Slot i) s = (s', True)"
  shows "kont (threads s' j) = (if j = i then kont (threads s' i) else kont (threads s j))"
    and "kont_weight (kont (threads s' i)) < kont_weight (kont (threads s i))"
    and "\<exists>u. s' = schedule u \<and> current u = current s \<and> tstate (threads u i) \<noteq> T_RUNNABLE"
proof -
  have "(kont (threads s' j) = (if j = i then kont (threads s' i) else kont (threads s j))) \<and>
    kont_weight (kont (threads s' i)) < kont_weight (kont (threads s i)) \<and>
    (\<exists>u. s' = schedule u \<and> current u = current s \<and> tstate (threads u i) \<noteq> T_RUNNABLE)"
  proof (cases "kont (threads s i) = K_fault_send")
    case True
    then have w: "fault_wait env (Slot i) (fst (ipc_send_resume s (Slot i))) = (s', True)"
      using assms by (simp add: run_kont_def)
    have "kont_weight (kont (threads s i)) = 2" using True by (simp add: kont_weight_def)
    with fault_wait_again(1) [OF w, of j] fault_wait_again(2,3) [OF w] show ?thesis
      unfolding ipc_resume_frame by (intro conjI) (assumption, linarith, assumption)
  next
    case False
    obtain s1 r where r: "ipc_recv_resume s (Slot i) (e_junk env (tid (thr s (Slot i)))) = (s1, r)"
      by (rule prod.exhaust)
    have k: "kont (threads s i) = K_fault_recv" and v: "fault_verdict (Slot i) (snd r) s1 = (s', True)"
      using assms False r by (auto simp: run_kont_def Let_def split: kont.splits prod.splits)
    have fr: "kont (threads s1 j) = kont (threads s j)" "current s1 = current s"
      using ipc_resume_frame(1) [OF r] by simp_all
    have "kont (threads s' i) = K_dead" "kont_weight (kont (threads s i)) = 1"
      using fault_verdict_again(1) [OF v, of i] k by (simp_all add: kont_weight_def)
    with fault_verdict_again(1) [OF v, of j] fault_verdict_again(2) [OF v] fr show ?thesis
      by (simp add: kont_weight_def)
  qed
  then show "kont (threads s' j) = (if j = i then kont (threads s' i) else kont (threads s j))"
    "kont_weight (kont (threads s' i)) < kont_weight (kont (threads s i))"
    "\<exists>u. s' = schedule u \<and> current u = current s \<and> tstate (threads u i) \<noteq> T_RUNNABLE" by blast+
qed

lemma run_kont_measure:
  assumes again: "run_kont env (Slot i) s = (s', True)" and i: "i < SCHED_MAX_THREADS"
  shows "kont_measure s' < kont_measure s"
  unfolding kont_measure_def
proof (rule sum_strict_mono_ex1)
  have eq: "j \<noteq> i \<Longrightarrow> kont (threads s' j) = kont (threads s j)" for j
    using run_kont_again(1) [OF again, of j] by simp
  show "\<forall>j\<in>{..<SCHED_MAX_THREADS}. kont_weight (kont (threads s' j)) \<le> kont_weight (kont (threads s j))"
    using run_kont_again(2) [OF again] eq by (metis less_imp_le order_refl)
  show "\<exists>j\<in>{..<SCHED_MAX_THREADS}. kont_weight (kont (threads s' j)) < kont_weight (kont (threads s j))"
    using run_kont_again(2) [OF again] i by blast
qed simp

lemma schedule_not_stray:
  assumes "stray u" shows "\<not> stray (schedule u)"
proof (cases u rule: schedule_cases)
  case stay
  then show ?thesis using assms
    by (auto simp: stray_def switch_target_def dest: pick_next_SomeD(1) split: tptr.splits option.splits)
next
  case (move p)
  then show ?thesis
    by (auto simp: stray_def elim!: switch_target_SomeE dest: pick_next_SomeD(1) split: tptr.splits)
qed

lemma schedule_stays_not_stray:
  assumes "\<not> stray u" shows "\<not> stray (schedule u)"
  using assms
  by (cases u rule: schedule_cases)
     (auto simp: stray_def elim!: switch_target_SomeE dest: pick_next_SomeD(1) split: tptr.splits)

lemma run_kont_stray:
  assumes "run_kont env (Slot i) s = (s', True)"
  shows "\<not> stray s'"
  using run_kont_again(3) [OF assms] schedule_not_stray schedule_stays_not_stray by blast

function resume :: "kenv \<Rightarrow> kstate \<Rightarrow> kstate" where
  "resume env s =
     (case current s of
        Idle \<Rightarrow> s
      | Slot i \<Rightarrow> (case run_kont env (Slot i) s of (s', again) \<Rightarrow> if again then resume env s' else s'))"
  by auto
termination
proof (relation "measures [\<lambda>(env, s). of_bool (stray s), \<lambda>(env, s). kont_measure s]", goal_cases)
  case (2 env s i s' again)
  then have again: "run_kont env (Slot i) s = (s', True)" and cur: "current s = Slot i" by simp_all
  show ?case
    using run_kont_stray [OF again] run_kont_measure [OF again] cur
    by (cases "stray s") (auto simp: stray_def)
qed simp

declare resume.simps [simp del]

section \<open>The kernel entry\<close>

definition then_resume :: "kenv \<Rightarrow> kstate \<times> bool \<Rightarrow> kstate" where
  "then_resume env r = (case r of (s, again) \<Rightarrow> if again then resume env s else s)"

definition timer_irq :: "tptr \<Rightarrow> kstate \<Rightarrow> kstate \<times> bool" where
  "timer_irq p s =
     (let s1 = emit (pic_send_eoi 0) (s\<lparr>g_ticks := g_ticks s + 1\<rparr>)
      in if g_on_tick s1 then (schedule (stop_at K_user p s1), True) else (s1, False))"

definition notify :: "thread \<Rightarrow> thread" where
  "notify d =
     (let d1 = d\<lparr>irq_pending := irq_pending d + 1\<rparr>
      in if tstate d1 = T_BLOCKED \<and> ipc_state d1 = IPC_RECEIVING then thread_wake d1 else d1)"

definition device_irq :: "nat \<Rightarrow> kstate \<Rightarrow> kstate" where
  "device_irq irq s =
     (let tid = g_irq_tid s irq;
          s1 = (if tid < 0 then s
                else case thread_by_id tid of
                  None \<Rightarrow> s
                | Some d \<Rightarrow>
                    if tstate (threads s d) \<noteq> T_UNUSED \<and> tstate (threads s d) \<noteq> T_DEAD
                    then upd_thr (Slot d) notify s else s)
      in emit (pic_send_eoi (of_nat irq)) s1)"

definition from_user :: "trapframe \<Rightarrow> bool" where
  "from_user f \<longleftrightarrow> cs f AND 3 = 3"

definition page_fault :: "kenv \<Rightarrow> tptr \<Rightarrow> trapframe \<Rightarrow> kstate \<Rightarrow> kstate \<times> bool" where
  "page_fault env p f s =
     (if from_user f \<and> g_pager_tid s \<ge> 0 \<and> tid (thr s p) \<noteq> g_pager_tid s then forward_fault env p s
      else (page_fault_panic (e_cr2 env) f s, False))"

definition save_frame :: "trapframe \<Rightarrow> kstate \<Rightarrow> kstate" where
  "save_frame f s = upd_thr (current s) (\<lambda>t. t\<lparr>tf := f\<rparr>) s"

text \<open>The code of the handler, as long as it finds its variables as it left them.\<close>

definition isr_code :: "kenv \<Rightarrow> trapframe \<Rightarrow> kstate \<Rightarrow> kstate" where
  "isr_code env f s =
     (let p = current s; s0 = save_frame f s in
      if vec f = VEC_TIMER then then_resume env (timer_irq p s0)
      else if vec f = SYSCALL_VECTOR then then_resume env (do_syscall env p f s0)
      else if vec f = VEC_PF then then_resume env (page_fault env p f s0)
      else if vec f < VEC_IRQ_BASE then panic_exception f s0
      else
        let irq = c_int (vec f) - int (unat VEC_IRQ_BASE) in
        if irq \<ge> 0 \<and> irq < 16 then device_irq (nat irq) s0 else s0)"

text \<open>
  Apart from the page tables nothing is known of the state once a store has hit the memory of the
  kernel.  In an entry only RECV stores through a pointer, and does nothing more than set
  \<open>rax\<close> and \<open>ipc_call_to\<close> after it, so the effect comes at the end; what was written to ports stays
  written.
\<close>

definition overrun :: "(kstate \<Rightarrow> kstate) \<Rightarrow> kstate \<Rightarrow> kstate \<Rightarrow> kstate" where
  "overrun w s r =
     (if clobbered (pg r) \<and> \<not> clobbered (pg s) then (w r)\<lparr>pg := pg r, io_out := io_out r\<rparr> else r)"

definition isr_handler :: "kenv \<Rightarrow> trapframe \<Rightarrow> kstate \<Rightarrow> kstate" where
  "isr_handler env f s = overrun (e_overrun env) s (isr_code env f s)"

lemma overrun_frame [simp]:
  "pg (overrun w s r) = pg r" "io_out (overrun w s r) = io_out r"
  by (simp_all add: overrun_def)

lemma overrun_none: "clobbered (pg r) \<longrightarrow> clobbered (pg s) \<Longrightarrow> overrun w s r = r"
  by (auto simp: overrun_def)

lemma isr_frame [simp]:
  "pg (isr_handler env f s) = pg (isr_code env f s)" "io_out (isr_handler env f s) = io_out (isr_code env f s)"
  by (simp_all add: isr_handler_def)

lemma isr_code_eq:
  "\<not> clobbered (pg (isr_handler env f s)) \<Longrightarrow> isr_handler env f s = isr_code env f s"
  "pg (isr_code env f s) = pg s \<Longrightarrow> isr_handler env f s = isr_code env f s"
  unfolding isr_handler_def by (auto intro!: overrun_none)

section \<open>Initialisation\<close>

definition hal_traps_init :: "u8 \<Rightarrow> u8 \<Rightarrow> kstate \<Rightarrow> kstate" where
  "hal_traps_init m1 m2 s =
     (let mask' = NOT (push_bit 0 1) :: u16 in
      emit (pic_set_mask mask')
        ((emit (pic_remap m1 m2 (ucast VEC_IRQ_BASE) (ucast (VEC_IRQ_BASE + 8))) s)
           \<lparr>g_irq_tid := (\<lambda>i. if i < 16 then - 1 else g_irq_tid s i), g_irq_mask := mask'\<rparr>))"

definition hal_timer_init :: "u32 \<Rightarrow> kstate \<Rightarrow> kstate" where
  "hal_timer_init hz s = emit (pit_init hz) (s\<lparr>g_on_tick := True\<rparr>)"

section \<open>Steps of the machine\<close>

text \<open>
  Between two kernel entries a program computes, which the kernel sees only as changes to the
  memory its pages let it write; a program that runs can be interrupted, make a system call or
  fault, the idle thread can only be interrupted.  A panicked kernel makes no step.
\<close>

definition may_trap :: "kstate \<Rightarrow> trapframe \<Rightarrow> bool" where
  "may_trap s f \<longleftrightarrow>
     (case current s of
        Idle \<Rightarrow> VEC_IRQ_BASE \<le> vec f \<and> vec f < 48 \<and> \<not> from_user f
      | Slot i \<Rightarrow> (vec f < 48 \<or> vec f = SYSCALL_VECTOR) \<and> cs f = USER_CS)"

inductive kstep :: "kstate \<Rightarrow> kstate \<Rightarrow> bool" where
  trap: "\<not> halted s \<Longrightarrow> may_trap s f \<Longrightarrow> kstep s (isr_handler env f s)"
| store: "\<not> halted s \<Longrightarrow> current s = Slot i \<Longrightarrow> user_writable (pg s) va \<Longrightarrow>
    put_user (pg s) va b = Some pg' \<Longrightarrow> kstep s (overrun w s (s\<lparr>pg := pg'\<rparr>))"

inductive_cases kstepE: "kstep s s'"

inductive reachable :: "kstate \<Rightarrow> kstate \<Rightarrow> bool" for s0 where
  start: "reachable s0 s0"
| step: "reachable s0 s \<Longrightarrow> kstep s s' \<Longrightarrow> reachable s0 s'"

end
