(* ===== verification/KInv.thy ===== *)
theory KInv
  imports Kernel
begin

text \<open>
  The invariant of the kernel between entries, kept by every step of the machine: at most the
  current thread runs and its kernel stack is the one the processor switches to on a trap, every
  blocked thread has its reason, and no sender and receiver that could meet are both asleep.
  \<open>kmid\<close> is the part that holds inside an entry, when \<open>schedule\<close> has just switched to a
  thread that is still to be resumed.
\<close>

section \<open>The invariant\<close>

definition tss_ok :: "kstate \<Rightarrow> bool" where
  "tss_ok s \<longleftrightarrow> (\<forall>i. current s = Slot i \<longrightarrow> tss_rsp0 s = kstack_top (threads s i))"

definition kpre :: "kstate \<Rightarrow> bool" where
  "kpre s \<longleftrightarrow> sched_inv s \<and> ipc_inv s \<and> tss_ok s \<and>
     (\<forall>i. current s = Slot i \<longrightarrow> tstate (threads s i) \<noteq> T_RUNNABLE)"

definition kmid :: "kstate \<Rightarrow> bool" where
  "kmid s \<longleftrightarrow> running_ok s \<and> ipc_inv s \<and> tss_ok s"

definition kinv :: "kstate \<Rightarrow> bool" where
  "kinv s \<longleftrightarrow> kmid s \<and> (\<forall>i. current s = Slot i \<longrightarrow> kont (threads s i) = K_user)"

text \<open>What a handler must establish.\<close>

definition hok :: "kstate \<times> bool \<Rightarrow> bool" where
  "hok r \<longleftrightarrow> (if snd r then kmid (fst r) else kinv (fst r))"

lemma hok_simps [simp]: "hok (s, True) = kmid s" "hok (s, False) = kinv s"
  by (simp_all add: hok_def)

lemma schedule_kmid: "kpre s \<Longrightarrow> kmid (schedule s)"
proof -
  assume s: "kpre s"
  have "tss_ok (schedule s)"
    using s by (cases s rule: schedule_cases) (auto simp: kpre_def tss_ok_def threads_switch_to)
  with s show ?thesis
    by (simp add: kpre_def kmid_def schedule_running_ok schedule_ipc_inv)
qed

lemma kmid_current:
  assumes "kmid s" "current s = Slot i"
  shows "i < SCHED_MAX_THREADS" "tstate (threads s i) = T_RUNNING" "tid (threads s i) = int i"
  using assms running_ok_inv [of s] sched_invD(1,4) [of s i]
  by (auto simp: kmid_def running_ok_def)

lemma kmid_kpre: "kmid s \<Longrightarrow> kpre s"
  using kmid_current(2) [of s] by (auto simp: kmid_def kpre_def dest: running_ok_inv)

lemma kinv_kmid: "kinv s \<Longrightarrow> kmid s"
  by (simp add: kinv_def)

lemma kinv_caller:
  assumes "kinv s" shows "caller_ok s (current s)"
proof (unfold caller_ok_def, intro allI impI)
  fix i assume i: "current s = Slot i"
  note c = kmid_current [OF kinv_kmid [OF assms] i]
  have "thread_ok (threads s i)" "kont (threads s i) = K_user"
    using assms c(1) i by (auto simp: kinv_def kmid_def ipc_inv_def)
  then show "i < SCHED_MAX_THREADS \<and> tid (threads s i) = int i \<and> tstate (threads s i) = T_RUNNING \<and>
      ipc_state (threads s i) = IPC_NONE \<and> kont (threads s i) \<noteq> K_dead"
    using c by (auto simp: thread_ok_def in_recv_def)
qed

section \<open>Updates that keep it\<close>

lemma kmid_cong:
  "threads s' = threads s \<Longrightarrow> idle s' = idle s \<Longrightarrow> current s' = current s \<Longrightarrow> tss_rsp0 s' = tss_rsp0 s \<Longrightarrow>
   kmid s' = kmid s"
  by (simp add: kmid_def running_ok_def sched_inv_def tss_ok_def ipc_inv_def no_missed_def cong: tptr.case_cong)

lemma kinv_cong:
  "threads s' = threads s \<Longrightarrow> idle s' = idle s \<Longrightarrow> current s' = current s \<Longrightarrow> tss_rsp0 s' = tss_rsp0 s \<Longrightarrow>
   kinv s' = kinv s"
  using kmid_cong [of s' s] by (simp add: kinv_def)

lemma kinv_fields [simp]:
  "kinv (s\<lparr>pg := a\<rparr>) = kinv s" "kinv (s\<lparr>io_out := b\<rparr>) = kinv s" "kinv (s\<lparr>g_pager_tid := c\<rparr>) = kinv s"
  "kinv (s\<lparr>g_ticks := d\<rparr>) = kinv s" "kinv (s\<lparr>g_irq_tid := e\<rparr>) = kinv s" "kinv (s\<lparr>g_irq_mask := m\<rparr>) = kinv s"
  "kinv (s\<lparr>halted := h\<rparr>) = kinv s" "kinv (s\<lparr>g_on_tick := t\<rparr>) = kinv s" "kinv (emit os s) = kinv s"
  by (rule kinv_cong; simp add: emit_def)+

lemma kmid_upd:
  assumes s: "kmid s" and f: "same_sched (thr s p) (f (thr s p))"
  shows "kmid (upd_thr p f s)"
proof -
  note same = same_sched_cong [OF same_sched_upd(2) [of s p f, OF f]]
    same_sched_cong [OF same_sched_upd(3) [of s p f, OF f]]
  have "ipc_inv (upd_thr p f s)" using s f by (intro ipc_inv_frame) (simp_all add: kmid_def)
  moreover have "running_ok (upd_thr p f s)"
    using s unfolding kmid_def running_ok_def sched_inv_def same upd_thr_frame by blast
  moreover have "tss_ok (upd_thr p f s)"
    using s unfolding kmid_def tss_ok_def same upd_thr_frame by blast
  ultimately show ?thesis by (simp add: kmid_def)
qed

lemma kinv_upd:
  assumes s: "kinv s" and f: "same_sched (thr s p) (f (thr s p))"
  shows "kinv (upd_thr p f s)"
  using kmid_upd [where f = f, OF kinv_kmid [OF s] f] s
  unfolding kinv_def same_sched_cong [OF same_sched_upd(2) [of s p f, OF f]] upd_thr_frame by blast

lemma same_sched_updates [simp]:
  "same_sched t (t\<lparr>tf := x\<rparr>)" "same_sched t (t\<lparr>ipc_call_to := y\<rparr>)" "same_sched t t"
  "same_sched t (set_slot t i c)"
  by (simp_all add: same_sched_def set_slot_frame)

lemma same_sched_grant [simp]:
  "same_sched t (fst (endpoint_grant t e))" "same_sched t (fst (port_grant t q))"
  by (auto simp: endpoint_grant_def port_grant_def split: option.splits)

lemma kinv_set_rax [simp]: "kinv s \<Longrightarrow> kinv (set_rax p v s)"
  unfolding set_rax_def by (rule kinv_upd) simp_all

lemma kinv_panic [simp]:
  "kinv s \<Longrightarrow> kinv (panic_exception f s)" "kinv s \<Longrightarrow> kinv (page_fault_panic a f s)"
  "kinv s \<Longrightarrow> kinv (kernel_fault env s)"
  by (simp_all add: panic_exception_def page_fault_panic_def kernel_fault_def)

section \<open>Calls made by the current thread\<close>

definition kcall :: "kstate \<Rightarrow> nat \<Rightarrow> bool" where
  "kcall s i \<longleftrightarrow> kmid s \<and> current s = Slot i \<and> ipc_state (threads s i) = IPC_NONE \<and>
     kont (threads s i) \<noteq> K_dead"

lemma kcallD:
  assumes "kcall s i"
  shows "kmid s" "current s = Slot i" "i < SCHED_MAX_THREADS" "tstate (threads s i) = T_RUNNING"
    "tid (threads s i) = int i" "ipc_state (threads s i) = IPC_NONE" "kont (threads s i) \<noteq> K_dead"
    "ipc_inv s" "sched_inv s" "tss_ok s" "caller_ok s (Slot i)"
  using assms kmid_current [of s i] running_ok_inv [of s] by (auto simp: kcall_def kmid_def caller_ok_def)

lemma kinv_kcall: "kinv s \<Longrightarrow> current s = Slot i \<Longrightarrow> kcall s i"
  using kinv_caller [of s] by (simp add: kcall_def kinv_kmid caller_ok_def)

lemma kcall_kinv: "kcall s i \<Longrightarrow> kont (threads s i) = K_user \<Longrightarrow> kinv s"
  by (auto simp: kcall_def kinv_def)

text \<open>Another thread, or the same one up to its call state, may change.\<close>

lemma kcall_upd:
  assumes c: "kcall s i" and inv: "ipc_inv (upd_thr p f s)"
    and f: "tid (f (thr s p)) = tid (thr s p)" "kstack_top (f (thr s p)) = kstack_top (thr s p)"
    and st: "tstate (f (thr s p)) = tstate (thr s p) \<or> p \<noteq> Idle \<and> p \<noteq> Slot i \<and> tstate (f (thr s p)) \<noteq> T_RUNNING"
  shows "kmid (upd_thr p f s)"
proof -
  have "sched_inv (upd_thr p f s)"
    using f st kcallD(9) [OF c] by (intro sched_inv_upd_thr) (auto simp: sched_inv_def)
  moreover have "tstate (threads (upd_thr p f s) i) = T_RUNNING"
    using st kcallD(4) [OF c] by auto
  moreover have "tss_ok (upd_thr p f s)"
    using f(2) kcallD(10) [OF c] by (auto simp: tss_ok_def)
  ultimately show ?thesis
    using inv kcallD(2) [OF c] by (simp add: kmid_def running_ok_def)
qed

lemma kcall_stop_user: "kcall s i \<Longrightarrow> kinv (stop_at K_user (Slot i) s)"
proof -
  assume c: "kcall s i"
  have "ipc_inv (upd_thr (Slot i) (\<lambda>t. t\<lparr>kont := K_user\<rparr>) s)"
    using kcallD(4,6) [OF c] ipc_invD(1) [OF kcallD(8) [OF c]]
    by (intro ipc_inv_upd [OF kcallD(8) [OF c]]) (auto simp: thread_ok_def)
  then have "kmid (upd_thr (Slot i) (\<lambda>t. t\<lparr>kont := K_user\<rparr>) s)"
    by (rule kcall_upd [OF c]) simp_all
  then show ?thesis using kcallD(2) [OF c] by (simp add: kinv_def stop_at_def)
qed

lemma kpre_blocked:
  assumes c: "kcall s i" and inv: "ipc_inv u" and u: "u = upd_thr (Slot i) f s"
    and f: "\<And>t. tid (f t) = tid t" "\<And>t. kstack_top (f t) = kstack_top t"
      "\<And>t. tstate (f t) \<noteq> T_RUNNABLE"
  shows "kpre u"
proof -
  have "sched_inv u"
    unfolding u using f(1) kcallD(4,9) [OF c] by (intro sched_inv_upd_thr) (auto simp: sched_inv_def)
  moreover have "tss_ok u" using kcallD(10) [OF c] by (auto simp: u tss_ok_def f)
  ultimately show ?thesis
    using inv f(3) kcallD(2) [OF c] by (simp add: kpre_def u)
qed

lemma kcall_send:
  assumes c: "kcall s i" and k: "k = K_send \<or> k = K_fault_send"
    and send: "ipc_send_locked s (Slot i) dest msg = (s', r)"
  shows "if r = None then kpre (stop_at k (Slot i) s')
    else kcall s' i \<and> threads s' i = threads s i"
proof -
  note inv = send_ipc_inv [OF kcallD(8,11) [OF c] k send]
  show ?thesis
    using send
  proof (cases rule: ipc_send_cases)
    case dead
    then show ?thesis using c by simp
  next
    case (now d)
    then have d: "d \<noteq> i" using kcallD(4) [OF c] by (auto simp: receiver_ready_def)
    have "kmid s'"
      unfolding now(4) using d now inv by (intro kcall_upd [OF c]) (auto simp: deliver_def receiver_ready_def)
    then show ?thesis using c d now by (auto simp: kcall_def)
  next
    case (block d)
    have eq: "stop_at k (Slot i) s' = upd_thr (Slot i) (\<lambda>t. (stage_send msg dest t)\<lparr>kont := k\<rparr>) s"
      by (simp add: stop_at_def block(5) upd_thr.simps)
    then have "kpre (stop_at k (Slot i) s')"
      using inv block(6) by (intro kpre_blocked [OF c _ eq]) (simp_all add: stage_send_def)
    with block(6) show ?thesis by simp
  qed
qed

lemma kcall_recv:
  assumes c: "kcall s i" and k: "k = K_recv \<or> k = K_fault_recv"
    and recv: "ipc_recv_locked s (Slot i) src out = (s', r)"
  shows "if r = None then kpre (stop_at k (Slot i) s')
    else kcall s' i \<and> kont (threads s' i) = kont (threads s i)"
proof -
  note inv = recv_ipc_inv [OF kcallD(8,9,11) [OF c] k recv]
  show ?thesis
    using recv
  proof (cases rule: ipc_recv_cases)
    case irq
    have "kmid s'"
      unfolding irq(2) using irq inv by (intro kcall_upd [OF c]) simp_all
    then show ?thesis using c irq by (auto simp: kcall_def)
  next
    case (sender j)
    note j = find_waiting_sender_SomeD [OF sender(2)]
    then have ne: "j \<noteq> i" using kcallD(4) [OF c] by auto
    have "kmid s'"
      unfolding sender(3) using j ne sender inv by (intro kcall_upd [OF c]) (auto simp: release_sender_def)
    then show ?thesis using c ne sender by (auto simp: kcall_def)
  next
    case block
    have eq: "stop_at k (Slot i) s' = upd_thr (Slot i) (\<lambda>t. (stage_recv src t)\<lparr>kont := k\<rparr>) s"
      by (simp add: stop_at_def block(3) upd_thr.simps)
    then have "kpre (stop_at k (Slot i) s')"
      using inv block(4) by (intro kpre_blocked [OF c _ eq]) (simp_all add: stage_recv_def)
    with block(4) show ?thesis by simp
  qed
qed

text \<open>The end of a call that blocked.\<close>

lemma running_not_dead:
  assumes "kmid s" "current s = Slot i" shows "kont (threads s i) \<noteq> K_dead"
  using kmid_current [OF assms] assms(1) ipc_invD(1) [of s i]
  by (auto simp: kmid_def thread_ok_def in_recv_def)

lemma kmid_upd_cur:
  assumes s: "kmid s" and inv: "ipc_inv (upd_thr p f s)"
    and f: "tid (f (thr s p)) = tid (thr s p)" "kstack_top (f (thr s p)) = kstack_top (thr s p)"
      "tstate (f (thr s p)) = tstate (thr s p)"
  shows "kmid (upd_thr p f s)"
proof -
  have "sched_inv (upd_thr p f s)"
    using s f by (intro sched_inv_upd_thr) (auto simp: kmid_def running_ok_def sched_inv_def)
  moreover have "case current s of Idle \<Rightarrow> True | Slot i \<Rightarrow> tstate (threads (upd_thr p f s) i) = T_RUNNING"
    using s f(3) by (cases "current s") (auto simp: kmid_def running_ok_def)
  moreover have "tss_ok (upd_thr p f s)"
    using s f(2) by (auto simp: kmid_def tss_ok_def)
  ultimately show ?thesis
    using inv by (simp add: kmid_def running_ok_def)
qed

lemma kcall_send_resume:
  assumes s: "kmid s" "current s = Slot i"
  shows "kcall (fst (ipc_send_resume s (Slot i))) i"
proof -
  have "ipc_inv (fst (ipc_send_resume s (Slot i)))"
    using s(1) kmid_current [OF s] by (intro send_resume_ipc_inv) (auto simp: kmid_def)
  then have "kmid (fst (ipc_send_resume s (Slot i)))"
    unfolding ipc_send_resume_def fst_conv by (rule kmid_upd_cur [OF s(1)]) simp_all
  then show ?thesis
    using running_not_dead [OF s] s(2) by (simp add: kcall_def ipc_send_resume_def)
qed

lemma kcall_recv_resume:
  assumes s: "kmid s" "current s = Slot i" and r: "ipc_recv_resume s (Slot i) out = (s', r)"
  shows "kcall s' i"
proof -
  have inv: "ipc_inv s'"
    using s(1) kmid_current [OF s] by (intro recv_resume_ipc_inv [OF _ _ r]) (auto simp: kmid_def)
  obtain f where s': "s' = upd_thr (Slot i) f s"
    and f: "\<And>t. tid (f t) = tid t" "\<And>t. kstack_top (f t) = kstack_top t" "\<And>t. tstate (f t) = tstate t"
      "\<And>t. kont (f t) = kont t" "\<And>t. ipc_state (f t) = IPC_NONE"
  proof (cases "ipc_state (threads s i) = IPC_RECEIVING")
    case True
    then have "s' = upd_thr (Slot i) (\<lambda>t. t\<lparr>ipc_state := IPC_NONE,
        irq_pending := (if irq_pending t \<noteq> 0 then irq_pending t - 1 else irq_pending t)\<rparr>) s"
      using r by (simp add: ipc_recv_resume_def)
    then show thesis by (rule that) simp_all
  next
    case False
    then have "s' = upd_thr (Slot i) (\<lambda>t. t\<lparr>ipc_state := IPC_NONE\<rparr>) s"
      using r by (simp add: ipc_recv_resume_def)
    then show thesis by (rule that) simp_all
  qed
  have "kmid s'"
    using inv unfolding s' by (rule kmid_upd_cur [OF s(1)]) (simp_all add: f)
  then show ?thesis
    using running_not_dead [OF s] s(2) by (simp add: kcall_def s' f)
qed

section \<open>Every handler keeps the invariant\<close>

text \<open>A thread that dies, or that blocks, leaves a state in which the scheduler can go on.\<close>

lemma kpre_kill:
  assumes c: "kcall s i"
  shows "kpre (stop_at K_dead (Slot i) (upd_thr (Slot i) (\<lambda>t. t\<lparr>tstate := T_DEAD\<rparr>) s))"
proof -
  have eq: "stop_at K_dead (Slot i) (upd_thr (Slot i) (\<lambda>t. t\<lparr>tstate := T_DEAD\<rparr>) s) =
      upd_thr (Slot i) (\<lambda>t. t\<lparr>tstate := T_DEAD, kont := K_dead\<rparr>) s"
    by (simp add: stop_at_def upd_thr.simps)
  have "ipc_inv (upd_thr (Slot i) (\<lambda>t. t\<lparr>tstate := T_DEAD, kont := K_dead\<rparr>) s)"
    using ipc_invD(1) [OF kcallD(8) [OF c]]
    by (intro ipc_inv_upd [OF kcallD(8) [OF c]]) (auto simp: thread_ok_def)
  then show ?thesis
    unfolding eq by (rule kpre_blocked [OF c _ refl]) simp_all
qed

lemma kcall_upd_same:
  assumes "kcall s i" "same_sched (thr s p) (f (thr s p))"
  shows "kcall (upd_thr p f s) i"
  using kmid_upd [where f = f, OF kcallD(1) [OF assms(1)] assms(2)] kcallD(2,6,7) [OF assms(1)] assms(2)
  by (auto simp: kcall_def same_sched_def)

lemma kont_upd_same:
  "same_sched (thr s p) (f (thr s p)) \<Longrightarrow> kont (threads (upd_thr p f s) i) = kont (threads s i)"
  by (auto simp: same_sched_def)

lemma kcall_cong:
  "threads s' = threads s \<Longrightarrow> idle s' = idle s \<Longrightarrow> current s' = current s \<Longrightarrow> tss_rsp0 s' = tss_rsp0 s \<Longrightarrow>
   kcall s' i = kcall s i"
  using kmid_cong [of s' s] by (simp add: kcall_def)

lemma emit_frame [frame_simps, simp]:
  "threads (emit os s) = threads s" "idle (emit os s) = idle s" "current (emit os s) = current s"
  "tss_rsp0 (emit os s) = tss_rsp0 s" "pg (emit os s) = pg s" "progs (emit os s) = progs s"
  by (simp_all add: emit_def)

lemma panic_frame [frame_simps, simp]:
  "threads (kernel_fault env s) = threads s" "idle (kernel_fault env s) = idle s"
  "current (kernel_fault env s) = current s" "tss_rsp0 (kernel_fault env s) = tss_rsp0 s"
  by (simp_all add: kernel_fault_def page_fault_panic_def panic_exception_def)

lemma finish_recv_kcall:
  assumes "kcall s i"
  shows "kcall (finish_recv env (Slot i) from m s) i \<and>
    kont (threads (finish_recv env (Slot i) from m s) i) = kont (threads s i)"
proof (cases "copy_out (pg s) (rsi (tf (thr s (Slot i)))) m")
  case None
  then show ?thesis using assms kcall_cong [of "kernel_fault env s" s i]
    by (simp add: finish_recv_def)
next
  case (Some pg')
  have "kcall (s\<lparr>pg := pg'\<rparr>) i" using assms kcall_cong [of "s\<lparr>pg := pg'\<rparr>" s i] by simp
  then show ?thesis
    unfolding finish_recv_def Some Let_def option.case set_rax_def
    by (auto intro!: kcall_upd_same)
qed

lemma fault_verdict_hok: "kcall s i \<Longrightarrow> hok (fault_verdict (Slot i) m s)"
  by (simp add: fault_verdict_def kpre_kill schedule_kmid kcall_stop_user)

lemma fault_wait_hok:
  assumes c: "kcall s i" shows "hok (fault_wait env (Slot i) s)"
proof -
  obtain s1 r where r: "ipc_recv_locked s (Slot i) (g_pager_tid s) (e_junk env (tid (thr s (Slot i)))) = (s1, r)"
    by fastforce
  show ?thesis
    using kcall_recv [OF c disjI2 [OF refl] r]
    by (cases r) (simp_all add: fault_wait_def r schedule_kmid fault_verdict_hok case_prod_beta del: thr.simps)
qed

lemma forward_fault_hok:
  assumes c: "kcall s i" shows "hok (forward_fault env (Slot i) s)"
proof -
  obtain s1 r where r: "ipc_send_locked s (Slot i) (g_pager_tid s)
      (fault_msg (tid (thr s (Slot i))) (e_cr2 env)) = (s1, r)" by fastforce
  show ?thesis
    using kcall_send [OF c disjI2 [OF refl] r]
    by (cases r) (simp_all add: forward_fault_def r schedule_kmid fault_wait_hok del: thr.simps)
qed

lemma sys_send_hok:
  assumes k: "kinv s" and cur: "current s = Slot i"
  shows "hok (sys_send env (Slot i) f s)"
proof -
  let ?s1 = "upd_thr (Slot i) (\<lambda>t. t\<lparr>ipc_call_to := c_int (rdi f)\<rparr>) s"
  have k1: "kinv ?s1" using k by (intro kinv_upd) simp_all
  have c1: "kcall ?s1 i" using kinv_kcall [OF k1] cur by simp
  have user: "kont (threads ?s1 i) = K_user" using k1 cur by (simp add: kinv_def)
  show ?thesis
  proof (cases "copy_in (pg ?s1) (rsi f)")
    case None
    then show ?thesis using k k1 by (simp add: sys_send_def Let_def)
  next
    case (Some m)
    obtain s2 r where r: "ipc_send_locked ?s1 (Slot i) (c_int (rdi f)) m = (s2, r)" by fastforce
    note send = kcall_send [OF c1 disjI1 [OF refl] r]
    have eq: "sys_send env (Slot i) f s =
        (if \<not> ipc_send_allowed s (thr s (Slot i)) (c_int (rdi f)) then (set_rax (Slot i) ERR s, False)
         else case r of Some x \<Rightarrow> (set_rax (Slot i) (c_ret x) s2, False)
              | None \<Rightarrow> (schedule (stop_at K_send (Slot i) s2), True))"
      unfolding sys_send_def Let_def Some option.case r by simp
    show ?thesis
    proof (cases r)
      case None
      then show ?thesis using send k unfolding eq by (simp add: schedule_kmid)
    next
      case (Some x)
      then have "kinv s2" using send user by (intro kcall_kinv [of _ i]) simp_all
      then show ?thesis using Some k unfolding eq by simp
    qed
  qed
qed

lemma sys_recv_hok:
  assumes k: "kinv s" and cur: "current s = Slot i"
  shows "hok (sys_recv env (Slot i) f s)"
proof -
  obtain s1 r where r: "ipc_recv_locked s (Slot i) (c_int (rdi f)) (e_junk env (tid (thr s (Slot i)))) = (s1, r)"
    by fastforce
  have user: "kont (threads s i) = K_user" using k cur by (simp add: kinv_def)
  note recv = kcall_recv [OF kinv_kcall [OF k cur] disjI1 [OF refl] r]
  show ?thesis
  proof (cases r)
    case None
    then show ?thesis using recv by (simp add: sys_recv_def r schedule_kmid del: thr.simps)
  next
    case (Some x)
    then have "kcall s1 i" "kont (threads s1 i) = K_user" using recv user by simp_all
    then have "kinv (finish_recv env (Slot i) (fst x) (snd x) s1)"
      using finish_recv_kcall [of s1 i env "fst x" "snd x"] by (intro kcall_kinv [of _ i]) simp_all
    then show ?thesis by (simp add: sys_recv_def r Some case_prod_beta del: thr.simps)
  qed
qed

text \<open>The calls that do not block.\<close>

lemma kinv_new_thread:
  assumes k: "kinv s" and i: "free_thread s = Some i"
  shows "kinv (upd_thr (Slot i) (create_thread_in s i n) s)"
proof -
  note mid = kinv_kmid [OF k]
  have run: "running_ok s" and ipc: "ipc_inv s" and tss: "tss_ok s" using mid by (simp_all add: kmid_def)
  have ne: "current s \<noteq> Slot i"
    using kmid_current(2) [OF mid, of i] free_thread_SomeD(2) [OF i] by auto
  have new: "thread_create s n = (upd_thr (Slot i) (create_thread_in s i n) s, int i)"
    by (simp add: thread_create_def i)
  have "running_ok (upd_thr (Slot i) (create_thread_in s i n) s)"
    "ipc_inv (upd_thr (Slot i) (create_thread_in s i n) s)"
    using thread_create_running_ok [OF run, of n] create_ipc_inv [OF ipc, of n] by (simp_all add: new)
  moreover have "tss_ok (upd_thr (Slot i) (create_thread_in s i n) s)"
    using tss ne by (auto simp: tss_ok_def)
  ultimately show ?thesis
    using k ne by (auto simp: kinv_def kmid_def)
qed

lemma sys_spawn_kinv: "kinv s \<Longrightarrow> kinv (sys_spawn p f s)"
proof -
  assume k: "kinv s"
  obtain s1 c where c: "proc_spawn s (c_int (rdi f)) = (s1, c)" by fastforce
  have "kinv s1" using c
    by (cases rule: proc_spawn_cases) (use k kinv_new_thread [OF k] in simp_all)
  then have "kinv (if c \<ge> 0 then upd_thr p (\<lambda>t. fst (endpoint_grant t c)) s1 else s1)"
    by (auto intro: kinv_upd)
  then show ?thesis by (simp add: sys_spawn_def c)
qed

lemma sys_simple_kinv [simp]:
  assumes "kinv s"
  shows "kinv (sys_map p f s)" "kinv (sys_outb p f s)" "kinv (sys_inb env p f s)" "kinv (sys_inw env p f s)"
    "kinv (sys_tinfo p f s)" "kinv (sys_irq_register p f s)" "kinv (sys_map_phys p f s)"
  using assms
  by (simp_all add: sys_map_def sys_outb_def sys_inb_def sys_inw_def sys_tinfo_def sys_irq_register_def
      sys_map_phys_def Let_def split: prod.split)

lemma sys_grant_kinv [simp]:
  assumes k: "kinv s"
  shows "kinv (sys_grant_io p f s)" "kinv (sys_grant_cap p f s)"
proof -
  have "kinv (upd_thr (Slot d) (\<lambda>t. fst (port_grant (threads s d) q)) s)"
    "kinv (upd_thr (Slot d) (\<lambda>t. fst (endpoint_grant (threads s d) e)) s)" for d q e
    using k by (auto intro!: kinv_upd)
  then show "kinv (sys_grant_io p f s)" "kinv (sys_grant_cap p f s)"
    using k by (simp_all add: sys_grant_io_def sys_grant_cap_def Let_def split: option.split)
qed

lemma do_syscall_hok:
  assumes k: "kinv s" and cur: "current s = Slot i"
  shows "hok (do_syscall env (Slot i) f s)"
  using k sys_send_hok [OF k cur] sys_recv_hok [OF k cur] sys_spawn_kinv [OF k]
    schedule_kmid [OF kpre_kill [OF kinv_kcall [OF k cur]]]
  unfolding do_syscall_def Let_def by (simp split: if_split)

lemma timer_irq_hok:
  assumes k: "kinv s" shows "hok (timer_irq (current s) s)"
proof -
  let ?s = "emit (pic_send_eoi 0) (s\<lparr>g_ticks := g_ticks s + 1\<rparr>)"
  have k1: "kinv ?s" using k by simp
  have cur: "current ?s = current s" by simp
  have "kpre (stop_at K_user (current s) ?s)"
  proof (cases "current s")
    case Idle
    have "kpre ?s" by (rule kmid_kpre [OF kinv_kmid [OF k1]])
    then show ?thesis
      using Idle by (simp add: kpre_def stop_at_def sched_inv_def tss_ok_def ipc_inv_def no_missed_def)
  next
    case (Slot i)
    have "kinv (stop_at K_user (Slot i) ?s)"
      using kinv_kcall [OF k1, of i] Slot by (intro kcall_stop_user) simp
    with Slot show ?thesis by (simp add: kmid_kpre kinv_kmid)
  qed
  with k1 show ?thesis by (simp add: timer_irq_def Let_def schedule_kmid)
qed

lemma notify_simps [simp]:
  "kont (notify t) = kont t" "tid (notify t) = tid t" "kstack_top (notify t) = kstack_top t"
  "ipc_state (notify t) = ipc_state t" "ipc_peer (notify t) = ipc_peer t"
  "irq_pending (notify t) = irq_pending t + 1" "ctable (notify t) = ctable t" "tf (notify t) = tf t"
  "ipc_buf (notify t) = ipc_buf t" "ipc_from (notify t) = ipc_from t" "ipc_call_to (notify t) = ipc_call_to t"
  "tstate (notify t) = (if tstate t = T_BLOCKED \<and> ipc_state t = IPC_RECEIVING then T_RUNNABLE else tstate t)"
  by (simp_all add: notify_def Let_def)

lemma notify_ok: "thread_ok t \<Longrightarrow> thread_ok (notify t)"
  by (auto simp: thread_ok_def in_send_def in_recv_def)

lemma notify_kinv:
  assumes k: "kinv s" shows "kinv (upd_thr (Slot d) notify s)"
proof -
  have run: "running_ok s" and ipc: "ipc_inv s" and tss: "tss_ok s" using k by (simp_all add: kinv_def kmid_def)
  have "thread_ok (threads (upd_thr (Slot d) notify s) i)" if "i < SCHED_MAX_THREADS" for i
    using notify_ok ipc_invD(1) [OF ipc that] by simp
  then have "ipc_inv (upd_thr (Slot d) notify s)"
    by (rule ipc_inv_step [OF ipc]) (auto simp: is_sender_def receiver_ready_def split: if_splits)
  moreover have "running_ok (upd_thr (Slot d) notify s)"
  proof -
    have "sched_inv (upd_thr (Slot d) notify s)"
      using running_ok_inv [OF run] by (rule sched_inv_upd_thr) (simp_all split: if_splits)
    moreover have "tstate (threads (upd_thr (Slot d) notify s) i) = T_RUNNING" if "current s = Slot i" for i
      using run that by (simp add: running_ok_def)
    ultimately show ?thesis by (auto simp: running_ok_def split: tptr.split)
  qed
  moreover have "tss_ok (upd_thr (Slot d) notify s)" using tss by (auto simp: tss_ok_def)
  moreover have "kont (threads (upd_thr (Slot d) notify s) i) = kont (threads s i)" for i by simp
  ultimately show ?thesis using k by (simp add: kinv_def kmid_def)
qed

lemma device_irq_kinv: "kinv s \<Longrightarrow> kinv (device_irq irq s)"
  by (auto simp: device_irq_def Let_def notify_kinv split: option.split)

section \<open>Resuming threads\<close>

lemma run_kont_hok:
  assumes s: "kmid s" "current s = Slot i"
  shows "hok (run_kont env (Slot i) s)"
proof (cases "kont (threads s i)")
  case (K_start g)
  have c: "kcall s i"
    using kmid_current [OF s] s K_start ipc_invD(1) [of s i] by (auto simp: kcall_def kmid_def thread_ok_def in_recv_def)
  let ?s = "user_bootstrap (Slot i) (progs s g) s"
  have "kcall (s\<lparr>tss_rsp0 := kstack_top (threads s i)\<rparr>) i"
    using c s(2) kcallD(10) [OF c] kcall_cong [of "s\<lparr>tss_rsp0 := kstack_top (threads s i)\<rparr>" s i]
    by (simp add: tss_ok_def)
  then have "kcall ?s i"
    by (auto simp: user_bootstrap_def arch_enter_user_def intro!: kcall_upd_same)
  then show ?thesis
    using K_start by (simp add: run_kont_def kcall_stop_user)
next
  case K_user
  then show ?thesis using s by (simp add: run_kont_def kinv_def)
next
  case K_send
  have "kcall (set_rax (Slot i) x (fst (ipc_send_resume s (Slot i)))) i" for x
    unfolding set_rax_def by (rule kcall_upd_same [OF kcall_send_resume [OF s]]) simp
  then show ?thesis
    using K_send by (simp add: run_kont_def kcall_stop_user case_prod_beta)
next
  case K_recv
  have "kcall (fst (ipc_recv_resume s (Slot i) out)) i" for out
    by (rule kcall_recv_resume [OF s prod.collapse [symmetric]])
  with K_recv show ?thesis
    by (simp add: run_kont_def Let_def kcall_stop_user case_prod_beta finish_recv_kcall)
next
  case K_fault_send
  then show ?thesis
    using fault_wait_hok [OF kcall_send_resume [OF s]] by (simp add: run_kont_def)
next
  case K_fault_recv
  have "kcall (fst (ipc_recv_resume s (Slot i) out)) i" for out
    by (rule kcall_recv_resume [OF s prod.collapse [symmetric]])
  with K_fault_recv show ?thesis
    by (simp add: run_kont_def Let_def case_prod_beta fault_verdict_hok)
next
  case K_dead
  then show ?thesis using running_not_dead [OF s] by simp
qed

lemma resume_kinv: "kmid s \<Longrightarrow> kinv (resume env s)"
proof (induction env s rule: resume.induct)
  case (1 env s)
  show ?case
  proof (cases "current s")
    case Idle
    then show ?thesis using 1(2) by (simp add: resume.simps kinv_def)
  next
    case (Slot i)
    obtain s' again where r: "run_kont env (Slot i) s = (s', again)" by fastforce
    have "hok (s', again)" using run_kont_hok [OF 1(2) Slot, of env] r by simp
    then show ?thesis
      using 1(1) [OF Slot r [symmetric]] Slot r
      by (cases again) (simp_all add: resume.simps [of env s])
  qed
qed

lemma then_resume_kinv: "hok r \<Longrightarrow> kinv (then_resume env r)"
  by (cases r) (auto simp: then_resume_def resume_kinv hok_def)

section \<open>The record of stray stores\<close>

text \<open>Only RECV can set it, and nothing clears it.\<close>

definition kept :: "kstate \<Rightarrow> kstate \<Rightarrow> bool" where
  "kept s s' \<longleftrightarrow> kmem_top (pg s') = kmem_top (pg s) \<and> (clobbered (pg s) \<longrightarrow> clobbered (pg s'))"

lemma kept_refl: "pg s' = pg s \<Longrightarrow> kept s s'"
  by (simp add: kept_def)

lemma kept_trans: "kept s s' \<Longrightarrow> kept s' s'' \<Longrightarrow> kept s s''"
  by (simp add: kept_def)

lemma pg_frame [frame_simps, simp]:
  "pg (set_rax p v s) = pg s" "pg (save_frame f s) = pg s" "pg (kernel_fault env s) = pg s"
  "pg (panic_exception f s) = pg s" "pg (page_fault_panic a f s) = pg s" "pg (user_bootstrap p pr s) = pg s"
  "pg (fst (ipc_send_resume s p)) = pg s" "pg (fst (ipc_recv_resume s p out)) = pg s"
  "pg (fst (fault_verdict p m s)) = pg s" "pg (fst (timer_irq p s)) = pg s" "pg (device_irq n s) = pg s"
  by (simp_all add: set_rax_def save_frame_def kernel_fault_def page_fault_panic_def panic_exception_def emit_def
      user_bootstrap_def arch_enter_user_def ipc_send_resume_def ipc_recv_resume_def fault_verdict_def timer_irq_def
      device_irq_def Let_def split: option.split)

lemma pg_ipc:
  "ipc_send_locked s p d m = (s', r) \<Longrightarrow> pg s' = pg s"
  "ipc_recv_locked s p src out = (s', x) \<Longrightarrow> pg s' = pg s"
  by (erule ipc_send_cases; simp) (erule ipc_recv_cases; simp)

lemma pg_wait: "pg (fst (fault_wait env p s)) = pg s" "pg (fst (forward_fault env p s)) = pg s"
proof -
  show w: "pg (fst (fault_wait env p s)) = pg s" for s
    by (auto simp: fault_wait_def split: prod.split option.split dest!: pg_ipc(2))
  then show "pg (fst (forward_fault env p s)) = pg s"
    by (auto simp: forward_fault_def split: prod.split option.split dest!: pg_ipc(1))
qed

lemma copy_out_flags: "copy_out g p m = Some g' \<Longrightarrow> kmem_top g' = kmem_top g \<and> (clobbered g \<longrightarrow> clobbered g')"
  by (auto simp: copy_out_def split: if_splits)

lemma kept_finish_recv: "kept s (finish_recv env p from m s)"
  by (auto simp: finish_recv_def kept_def Let_def split: option.split dest!: copy_out_flags)

lemma kept_run_kont: "kept s (fst (run_kont env p s))"
proof -
  have "kept s (stop_at K_user p (finish_recv env p a m (fst (ipc_recv_resume s p out))))" for a m out
    using kept_finish_recv [of "fst (ipc_recv_resume s p out)" env p a m] by (simp add: kept_def)
  then show ?thesis
    by (cases "kont (thr s p)") (auto simp: run_kont_def Let_def case_prod_beta kept_def pg_wait)
qed

lemma kept_resume: "kept s (resume env s)"
proof (induction env s rule: resume.induct)
  case (1 env s)
  show ?case
  proof (cases "current s")
    case (Slot i)
    obtain s' again where r: "run_kont env (Slot i) s = (s', again)" by fastforce
    have "kept s s'" using kept_run_kont [of s env "Slot i"] r by simp
    then show ?thesis
      using 1 [OF Slot r [symmetric]] Slot r by (cases again) (auto simp: resume.simps [of env s] intro: kept_trans)
  qed (simp add: resume.simps kept_refl)
qed

lemma kept_then: "kept s (fst r) \<Longrightarrow> kept s (then_resume env r)"
  using kept_resume by (auto simp: then_resume_def split: prod.split intro: kept_trans)

lemma flags_simple [simp]:
  "clobbered (pg (sys_map p f s)) = clobbered (pg s)" "kmem_top (pg (sys_map p f s)) = kmem_top (pg s)"
  "clobbered (pg (sys_map_phys p f s)) = clobbered (pg s)" "kmem_top (pg (sys_map_phys p f s)) = kmem_top (pg s)"
  by (auto simp: sys_map_def sys_map_phys_def Let_def split: prod.split dest!: vmm_map_flags)

lemma pg_simple [frame_simps, simp]:
  "pg (sys_spawn p f s) = pg s" "pg (sys_outb p f s) = pg s" "pg (sys_inb env p f s) = pg s"
  "pg (sys_inw env p f s) = pg s" "pg (sys_grant_io p f s) = pg s" "pg (sys_tinfo p f s) = pg s"
  "pg (sys_irq_register p f s) = pg s" "pg (sys_grant_cap p f s) = pg s"
proof -
  obtain s1 c where c: "proc_spawn s (c_int (rdi f)) = (s1, c)" by fastforce
  then have "pg s1 = pg s" by (cases rule: proc_spawn_cases) simp_all
  then show "pg (sys_spawn p f s) = pg s" by (simp add: sys_spawn_def c)
qed (simp_all add: sys_outb_def sys_inb_def sys_inw_def sys_grant_io_def sys_tinfo_def sys_irq_register_def
      sys_grant_cap_def Let_def split: option.split)

lemma pg_sys_send: "pg (fst (sys_send env p f s)) = pg s"
  by (auto simp: sys_send_def Let_def split: option.split prod.split dest!: pg_ipc(1))

lemma kept_sys_recv: "kept s (fst (sys_recv env p f s))"
proof -
  obtain s1 r where r: "ipc_recv_locked s p (c_int (rdi f)) (e_junk env (tid (thr s p))) = (s1, r)" by fastforce
  have "pg s1 = pg s" by (rule pg_ipc(2) [OF r])
  then show ?thesis
    using kept_finish_recv [of s1 env p "fst (the r)" "snd (the r)"]
    by (auto simp: sys_recv_def r kept_def split: option.split)
qed

lemma kept_do_syscall: "kept s (fst (do_syscall env p f s))"
  using kept_sys_recv [of s env p f] pg_sys_send [of env p f s]
  unfolding do_syscall_def Let_def by (simp add: kept_def)

lemma kept_isr: "kept s (isr_code env f s)"
proof -
  have 0: "kept s (then_resume env r)" if "kept (save_frame f s) (fst r)" for r
    using kept_then [OF that] by (simp add: kept_def)
  have pf: "pg (fst (page_fault env p f u)) = pg u" for p u by (simp add: page_fault_def pg_wait)
  have "kept s (then_resume env (timer_irq (current s) (save_frame f s)))"
    "kept s (then_resume env (do_syscall env (current s) f (save_frame f s)))"
    "kept s (then_resume env (page_fault env (current s) f (save_frame f s)))"
    by (intro 0; simp add: kept_refl kept_do_syscall pf)+
  then show ?thesis
    unfolding isr_code_def Let_def by (simp add: kept_refl)
qed

lemma kept_handler: "kept s (isr_handler env f s)"
  using kept_isr by (simp add: kept_def)

section \<open>Every step keeps the invariant\<close>

lemma save_frame_kinv: "kinv s \<Longrightarrow> kinv (save_frame f s)"
  unfolding save_frame_def by (rule kinv_upd) simp_all

lemma save_frame_current [simp]: "current (save_frame f s) = current s"
  by (simp add: save_frame_def)

lemma isr_code_kinv:
  assumes k: "kinv s" and may: "may_trap s f"
  shows "kinv (isr_code env f s)"
proof -
  let ?s = "save_frame f s"
  have k0: "kinv ?s" using k by (rule save_frame_kinv)
  have timer: "kinv (then_resume env (timer_irq (current s) ?s))"
    using timer_irq_hok [OF k0] by (intro then_resume_kinv) simp
  have irq: "kinv (device_irq n ?s)" for n using k0 by (rule device_irq_kinv)
  show ?thesis
  proof (cases "current s")
    case Idle
    then have "VEC_IRQ_BASE \<le> vec f" "vec f < 48" using may by (simp_all add: may_trap_def)
    then have "vec f \<noteq> SYSCALL_VECTOR" "vec f \<noteq> VEC_PF" "\<not> vec f < VEC_IRQ_BASE" by auto
    then show ?thesis using timer irq k0 by (simp add: isr_code_def Let_def)
  next
    case (Slot i)
    have sys: "kinv (then_resume env (do_syscall env (Slot i) f ?s))"
      using do_syscall_hok [OF k0, of i] Slot by (intro then_resume_kinv) simp
    have "hok (page_fault env (Slot i) f ?s)"
      using forward_fault_hok [OF kinv_kcall [OF k0, of i]] Slot k0 by (simp add: page_fault_def)
    then have pf: "kinv (then_resume env (page_fault env (Slot i) f ?s))" by (rule then_resume_kinv)
    show ?thesis using Slot sys pf timer irq k0 by (simp add: isr_code_def Let_def)
  qed
qed

lemma isr_handler_kinv:
  "kinv s \<Longrightarrow> may_trap s f \<Longrightarrow> \<not> clobbered (pg (isr_handler env f s)) \<Longrightarrow> kinv (isr_handler env f s)"
  by (metis isr_code_eq(1) isr_code_kinv)

lemma kstep_clobbered: "kstep s s' \<Longrightarrow> clobbered (pg s) \<Longrightarrow> clobbered (pg s')"
  by (induction rule: kstep.induct) (use kept_isr in \<open>auto simp: kept_def put_user_def\<close>)

lemma kstep_kinv:
  assumes "kstep s s'" and k: "kinv s" and c: "\<not> clobbered (pg s')"
  shows "kinv s'"
  using assms(1)
proof cases
  case (trap f env)
  then show ?thesis using isr_handler_kinv [OF k] c by simp
next
  case (store i va b pg' w)
  then have "overrun w s (s\<lparr>pg := pg'\<rparr>) = s\<lparr>pg := pg'\<rparr>" using c by (intro overrun_none) simp
  then show ?thesis using k store by simp
qed

lemma reachable_kinv: "reachable s0 s \<Longrightarrow> kinv s0 \<Longrightarrow> \<not> clobbered (pg s) \<Longrightarrow> kinv s"
proof (induction rule: reachable.induct)
  case (step s s')
  then show ?case using kstep_clobbered [OF step(2)] kstep_kinv [OF step(2)] by blast
qed

end
