(* ===== verification/KMain.thy ===== *)
theory KMain
  imports KInv
begin

text \<open>
  Boot (\<^verbatim>\<open>kernel/main.c\<close>): the order in which \<open>kmain\<close> brings the kernel up, and
  the state it leaves, from which every later state is reached.  The values the interrupt
  controllers return, the linker symbol, the memory map and the embedded programs are arguments;
  \<open>None\<close> is a page fault while the programs are loaded.
\<close>

record boot_info =
  b_kernel_end :: u64
  b_regions :: "mem_region list"
  b_ram_top :: u64
  b_pic1 :: u8
  b_pic2 :: u8
  b_images :: "nat \<Rightarrow> u8 list"
  b_bases :: "nat \<Rightarrow> u64"

abbreviation TIMER_HZ :: u32 where "TIMER_HZ \<equiv> 100"
abbreviation PROG_INIT :: int where "PROG_INIT \<equiv> 0"

definition kputs :: "string \<Rightarrow> kstate \<Rightarrow> kstate" where
  "kputs m s = emit (concat (map hal_console_putc (str m))) s"

definition proc_start_init :: "kstate \<Rightarrow> kstate" where
  "proc_start_init s = fst (proc_spawn s PROG_INIT)"

text \<open>Up to the loading of the programs, and after it.\<close>

definition kmain_init :: "boot_info \<Rightarrow> kstate \<Rightarrow> kstate" where
  "kmain_init b s =
     (let s1 = kputs ''Kernel Started\<newline>'' (emit arch_uart_init s);
          s2 = hal_traps_init (b_pic1 b) (b_pic2 b) s1;
          s3 = s2\<lparr>pg := (pg s2)\<lparr>pg_pmm := pmm_init (b_kernel_end b) (b_regions b) (b_ram_top b) (pg_pmm (pg s2)),
                  kmem_top := push_bit PAGE_SHIFT (reserved_frames (b_kernel_end b) (b_ram_top b)),
                  clobbered := False\<rparr>\<rparr>
      in (sched_init s3)\<lparr>progs := mk_progs (b_images b) (b_bases b)\<rparr>)"

definition kmain_start :: "kstate \<Rightarrow> kstate" where
  "kmain_start s =
     kputs ''[mukern] init loaded; kernel idle.\<newline>'' (hal_timer_init TIMER_HZ (proc_start_init s))"

definition kmain :: "boot_info \<Rightarrow> kstate \<Rightarrow> kstate option" where
  "kmain b s =
     (let s1 = kmain_init b s
      in case rootfs_load_all (progs s1) (pg s1) of
           None \<Rightarrow> None
         | Some pg' \<Rightarrow> Some (kmain_start (s1\<lparr>pg := pg'\<rparr>)))"

section \<open>The state after boot\<close>

text \<open>The kernel's variables in static storage are zero when \<open>kmain\<close> starts.\<close>

definition static_zero :: "kstate \<Rightarrow> bool" where
  "static_zero s \<longleftrightarrow> (\<forall>i<SCHED_MAX_THREADS. threads s i = zero_thread) \<and> \<not> halted s"

lemma sched_init_kinv:
  assumes "\<And>i. i < SCHED_MAX_THREADS \<Longrightarrow> threads s i = zero_thread"
  shows "kinv (sched_init s)"
proof -
  have "thread_ok (threads (sched_init s) i)" "\<not> is_sender (threads (sched_init s) i) d"
    if "i < SCHED_MAX_THREADS" for i d
    using assms [OF that] that by (simp_all add: sched_init_def thread_ok_def is_sender_def)
  then have "ipc_inv (sched_init s)" by (simp add: ipc_inv_def no_missed_def)
  moreover have "current (sched_init s) = Idle" by (simp add: sched_init_def)
  ultimately show ?thesis
    by (simp add: kinv_def kmid_def tss_ok_def sched_init_running_ok)
qed

lemma kputs_frame [simp]:
  "threads (kputs m s) = threads s" "current (kputs m s) = current s" "kinv (kputs m s) = kinv s"
  "progs (kputs m s) = progs s" "pg (kputs m s) = pg s" "io_out (kputs m s) = io_out s @ puts_raw (str m)"
  by (simp_all add: kputs_def emit_def puts_raw_def kinv_fields(2))

lemma free_thread_after_init: "free_thread (sched_init s) = Some 0"
  by (simp add: free_thread_def first_fit_Some_iff sched_init_def)

lemma free_thread_cong: "threads s' = threads s \<Longrightarrow> free_thread s' = free_thread s"
  by (simp add: free_thread_def)

lemma kmain_init_threads:
  assumes "static_zero s"
  shows "kinv ((kmain_init b s)\<lparr>pg := pg'\<rparr>)" "current (kmain_init b s) = Idle"
    "progs (kmain_init b s) = mk_progs (b_images b) (b_bases b)"
    "i < SCHED_MAX_THREADS \<Longrightarrow> tstate (threads (kmain_init b s) i) = T_UNUSED"
    "free_thread (kmain_init b s) = Some 0" "halted (kmain_init b s) = False"
proof -
  obtain s3 where s5: "kmain_init b s = (sched_init s3)\<lparr>progs := mk_progs (b_images b) (b_bases b)\<rparr>"
    and t3: "threads s3 = threads s" "halted s3 = halted s"
    by (rule that, unfold kmain_init_def Let_def, rule refl) (simp_all add: hal_traps_init_def kputs_def emit_def Let_def)
  have z3: "threads s3 i = zero_thread" if "i < SCHED_MAX_THREADS" for i
    using assms that by (simp add: t3 static_zero_def)
  show "kinv ((kmain_init b s)\<lparr>pg := pg'\<rparr>)"
    using sched_init_kinv [OF z3] kinv_cong [of "(kmain_init b s)\<lparr>pg := pg'\<rparr>" "sched_init s3"] by (simp add: s5)
  show "free_thread (kmain_init b s) = Some 0"
    using free_thread_after_init [of s3] free_thread_cong [of "kmain_init b s" "sched_init s3"] by (simp add: s5)
  have "halted (sched_init s3) = halted s3" by (simp add: sched_init_def)
  then show "halted (kmain_init b s) = False" using assms by (simp add: s5 t3 static_zero_def)
qed (simp_all add: kmain_init_def sched_init_def Let_def)

lemma kmain_start_simps:
  assumes free: "free_thread s = Some 0"
  shows "threads (kmain_start s) = (threads s)(0 := create_thread_in s 0 0 (threads s 0))"
    "current (kmain_start s) = current s" "g_on_tick (kmain_start s)" "halted (kmain_start s) = halted s"
    "progs (kmain_start s) = progs s" "pg (kmain_start s) = pg s"
    "kinv s \<Longrightarrow> kinv (kmain_start s)"
proof -
  have start: "proc_start_init s = upd_thr (Slot 0) (create_thread_in s 0 0) s"
    by (simp add: proc_start_init_def proc_spawn_def thread_create_def free)
  show "threads (kmain_start s) = (threads s)(0 := create_thread_in s 0 0 (threads s 0))"
    unfolding kmain_start_def hal_timer_init_def start by (rule ext) simp
  show "current (kmain_start s) = current s" "g_on_tick (kmain_start s)" "halted (kmain_start s) = halted s"
    "progs (kmain_start s) = progs s" "pg (kmain_start s) = pg s"
    by (simp_all add: kmain_start_def hal_timer_init_def start kputs_def emit_def)
  show "kinv s \<Longrightarrow> kinv (kmain_start s)"
    using kinv_new_thread [OF _ free] by (simp add: kmain_start_def hal_timer_init_def start)
qed

definition booted :: "boot_info \<Rightarrow> paging \<Rightarrow> kstate \<Rightarrow> kstate" where
  "booted b pg' s = kmain_start ((kmain_init b s)\<lparr>pg := pg'\<rparr>)"

lemma kmain_booted: "kmain b s = Some s' \<Longrightarrow> \<exists>pg'. s' = booted b pg' s"
  by (auto simp: kmain_def booted_def Let_def split: option.splits)

lemma booted_facts:
  assumes z: "static_zero s"
  shows "kinv (booted b pg' s)" "current (booted b pg' s) = Idle" "g_on_tick (booted b pg' s)"
    "\<not> halted (booted b pg' s)" "kont (threads (booted b pg' s) 0) = K_start 0"
    "tstate (threads (booted b pg' s) 0) = T_RUNNABLE"
    "i < SCHED_MAX_THREADS \<Longrightarrow> i \<noteq> 0 \<Longrightarrow> tstate (threads (booted b pg' s) i) = T_UNUSED"
proof -
  let ?u = "(kmain_init b s)\<lparr>pg := pg'\<rparr>"
  note init = kmain_init_threads [OF z]
  have free: "free_thread ?u = Some 0" using init(5) free_thread_cong [of ?u "kmain_init b s"] by simp
  note st = kmain_start_simps [OF free]
  show "kinv (booted b pg' s)" unfolding booted_def by (rule st(7) [OF init(1)])
  show "current (booted b pg' s) = Idle" "g_on_tick (booted b pg' s)" "\<not> halted (booted b pg' s)"
    "kont (threads (booted b pg' s) 0) = K_start 0" "tstate (threads (booted b pg' s) 0) = T_RUNNABLE"
    by (simp_all add: booted_def st init)
  show "i < SCHED_MAX_THREADS \<Longrightarrow> i \<noteq> 0 \<Longrightarrow> tstate (threads (booted b pg' s) i) = T_UNUSED"
    by (simp add: booted_def st init)
qed

lemma booted_pg:
  assumes "static_zero s" shows "pg (booted b pg' s) = pg'"
  using kmain_init_threads(5) [OF assms, where b = b] free_thread_cong [of "(kmain_init b s)\<lparr>pg := pg'\<rparr>" "kmain_init b s"]
  by (simp add: booted_def kmain_start_simps)

lemma reachable_booted:
  "static_zero s \<Longrightarrow> reachable (booted b pg' s) s' \<Longrightarrow> \<not> clobbered (pg s') \<Longrightarrow> kinv s'"
  by (rule reachable_kinv [OF _ booted_facts(1)])

section \<open>A concrete start\<close>

definition zero_kstate :: kstate where
  "zero_kstate = \<lparr>threads = (\<lambda>_. zero_thread), idle = zero_thread, current = Idle, stacks = 0x200000,
     tss_rsp0 = 0, progs = (\<lambda>_. \<lparr>image = [], pr_base = 0, pr_stack_top = 0\<rparr>), g_on_tick = False,
     g_pager_tid = - 1, g_ticks = 0, g_irq_tid = (\<lambda>_. 0), g_irq_mask = 0xFFFF, pg = demo_paging,
     io_out = [], halted = False\<rparr>"

definition demo_boot :: boot_info where
  "demo_boot = \<lparr>b_kernel_end = 0x2000, b_regions = [\<lparr>r_base = 0, r_len = 0x8000\<rparr>],
     b_ram_top = 0x8000, b_pic1 = 0xFF, b_pic2 = 0xFF, b_images = (\<lambda>_. [0x90]),
     b_bases = (\<lambda>i. 0x400000000000 + 0x100000 * of_nat i)\<rparr>"

definition demo_env :: kenv where
  "demo_env = \<lparr>e_inb = (\<lambda>_. 0), e_inw = (\<lambda>_. 0), e_cr2 = 0, e_kframe = zero_tf, e_kcr2 = 0,
     e_junk = (\<lambda>_. zero_msg), e_overrun = (\<lambda>s. s)\<rparr>"

definition timer_frame :: trapframe where
  "timer_frame = zero_tf\<lparr>vec := VEC_TIMER, cs := 0x08\<rparr>"

definition demo_start :: kstate where
  "demo_start = booted demo_boot demo_paging zero_kstate"

definition syscall_frame :: "u64 \<Rightarrow> u64 \<Rightarrow> u64 \<Rightarrow> u64 \<Rightarrow> trapframe" where
  "syscall_frame n a b c = zero_tf\<lparr>vec := SYSCALL_VECTOR, cs := USER_CS, rax := n, rdi := a, rsi := b, rdx := c\<rparr>"

text \<open>The first timer tick starts the root task, which then waits for a message.\<close>

definition demo_run :: kstate where
  "demo_run = isr_handler demo_env timer_frame demo_start"

definition demo_wait :: kstate where
  "demo_wait = isr_handler demo_env (syscall_frame SYS_RECV ERR 0 0) demo_run"

lemma zero_kstate_static: "static_zero zero_kstate"
  by (simp add: static_zero_def zero_kstate_def)

lemma demo_start_trap: "reachable demo_start (isr_handler demo_env timer_frame demo_start)"
proof (rule reachable.step [OF reachable.start kstep.trap])
  show "\<not> halted demo_start" "may_trap demo_start timer_frame"
    unfolding demo_start_def
    by (simp_all add: booted_facts [OF zero_kstate_static] may_trap_def timer_frame_def from_user_def zero_tf_def)
qed

text \<open>With one runnable thread in slot 0 the idle thread gives way to it.\<close>

lemma first_tick:
  assumes k: "kinv s" and cur: "current s = Idle" and tick: "g_on_tick s"
    and r: "tstate (threads s 0) = T_RUNNABLE" "kont (threads s 0) = K_start g"
    and rest: "\<And>i. i < SCHED_MAX_THREADS \<Longrightarrow> i \<noteq> 0 \<Longrightarrow> tstate (threads s i) \<noteq> T_RUNNABLE"
    and f: "vec f = VEC_TIMER"
  shows "current (isr_handler env f s) = Slot 0 \<and> halted (isr_handler env f s) = halted s \<and>
    rip (tf (threads (isr_handler env f s) 0)) = pr_base (progs s g) \<and>
    tf_rsp (tf (threads (isr_handler env f s) 0)) = pr_stack_top (progs s g) \<and>
    cs (tf (threads (isr_handler env f s) 0)) = USER_CS \<and>
    irq_pending (threads (isr_handler env f s) 0) = irq_pending (threads s 0) \<and>
    pg (isr_handler env f s) = pg s \<and>
    (\<forall>i. i \<noteq> 0 \<longrightarrow> threads (isr_handler env f s) i = threads s i)"
proof -
  define s1 where "s1 = stop_at K_user Idle (emit (pic_send_eoi 0) ((save_frame f s)\<lparr>g_ticks := g_ticks s + 1\<rparr>))"
  have t1: "threads s1 = threads s" "current s1 = Idle" "progs s1 = progs s" "halted s1 = halted s"
    by (simp_all add: s1_def stop_at_def save_frame_def cur upd_thr.simps emit_def)
  have "pick_next s1 = Some 0"
    unfolding pick_next_Some_iff using r(1) rest by (auto simp: t1)
  then have sch: "schedule s1 = switch_to s1 (Slot 0)"
    by (simp add: schedule_def switch_target_def t1)
  have cur2: "current (schedule s1) = Slot 0" by (simp add: sch)
  have th2: "threads (schedule s1) i = (if i = 0 then (threads s 0)\<lparr>tstate := T_RUNNING\<rparr> else threads s i)" for i
    by (auto simp: sch threads_switch_to t1)
  have isr: "isr_code env f s = resume env (schedule s1)"
    using f tick cur by (simp add: isr_code_def Let_def timer_irq_def then_resume_def s1_def save_frame_def emit_def)
  also have "\<dots> = stop_at K_user (Slot 0) (user_bootstrap (Slot 0) (progs s g) (schedule s1))"
    using r(2) by (simp add: resume.simps [of env "schedule s1"] cur2 run_kont_def th2 t1)
  finally have eq: "isr_code env f s = stop_at K_user (Slot 0) (user_bootstrap (Slot 0) (progs s g) (schedule s1))" .
  have "pg s1 = pg s" by (simp add: s1_def)
  then have "pg (isr_code env f s) = pg s" by (simp add: eq)
  then show ?thesis
    unfolding isr_code_eq(2) [OF \<open>pg (isr_code env f s) = pg s\<close>] eq by (simp add: user_bootstrap_def arch_enter_user_def stop_at_def th2 cur2 t1)
qed

lemma recv_idles:
  assumes k: "kinv s" and cur: "current s = Slot i" and f: "vec f = SYSCALL_VECTOR" "rax f = SYS_RECV"
    and irq: "irq_pending (threads s i) = 0"
    and rest: "\<And>j. j < SCHED_MAX_THREADS \<Longrightarrow> j \<noteq> i \<Longrightarrow> tstate (threads s j) \<notin> {T_RUNNABLE, T_BLOCKED}"
  shows "current (isr_handler env f s) = Idle \<and> tstate (threads (isr_handler env f s) i) = T_BLOCKED \<and>
    ipc_state (threads (isr_handler env f s) i) = IPC_RECEIVING \<and> pg (isr_handler env f s) = pg s"
proof -
  have run: "tstate (threads s i) = T_RUNNING" using kmid_current [OF kinv_kmid [OF k] cur] by simp
  let ?s = "save_frame f s" and ?src = "c_int (rdi f)"
  have t0: "threads ?s j = (if j = i then (threads s i)\<lparr>tf := f\<rparr> else threads s j)" for j
    by (simp add: save_frame_def cur)
  have none: "find_waiting_sender ?s (thr ?s (Slot i)) ?src = None"
    unfolding find_waiting_sender_None_iff using rest run by (auto simp: t0)
  define s1 where "s1 = stop_at K_recv (Slot i) (upd_thr (Slot i) (stage_recv ?src) ?s)"
  have t1: "current s1 = Slot i" "threads s1 j = (if j = i then (stage_recv ?src ((threads s i)\<lparr>tf := f\<rparr>))\<lparr>kont := K_recv\<rparr> else threads s j)" for j
    by (simp_all add: s1_def stop_at_def t0 cur)
  have "pick_next s1 = None"
    unfolding pick_next_None_iff using rest by (auto simp: t1(2) stage_recv_def)
  then have sch: "schedule s1 = switch_to s1 Idle" by (simp add: schedule_def switch_target_def t1(1))
  have "isr_code env f s = resume env (schedule s1)"
    using f irq none cur
    by (simp add: isr_code_def Let_def do_syscall_def sys_recv_def ipc_recv_locked_def t0 then_resume_def s1_def)
  also have "\<dots> = schedule s1" by (simp add: resume.simps sch)
  finally have eq: "isr_code env f s = schedule s1" .
  have "pg s1 = pg s" by (simp add: s1_def)
  then have "pg (isr_code env f s) = pg s" by (simp add: eq)
  then show ?thesis
    unfolding isr_code_eq(2) [OF \<open>pg (isr_code env f s) = pg s\<close>] eq by (simp add: sch threads_switch_to t1 stage_recv_def)
qed

lemma demo_run_reachable: "reachable (booted demo_boot demo_paging zero_kstate) demo_run"
  using demo_start_trap by (simp add: demo_start_def demo_run_def)

lemma demo_run_facts:
  "current demo_run = Slot 0 \<and> \<not> halted demo_run \<and> \<not> clobbered (pg demo_run) \<and> irq_pending (threads demo_run 0) = 0 \<and>
   (\<forall>i<SCHED_MAX_THREADS. i \<noteq> 0 \<longrightarrow> tstate (threads demo_run i) = T_UNUSED)"
proof -
  note b = booted_facts [OF zero_kstate_static, where b = demo_boot and pg' = demo_paging, folded demo_start_def]
  have irq: "irq_pending (threads demo_start 0) = 0"
    using kmain_init_threads(5) [OF zero_kstate_static]
      free_thread_cong [of "(kmain_init demo_boot zero_kstate)\<lparr>pg := demo_paging\<rparr>" "kmain_init demo_boot zero_kstate"]
    by (simp add: demo_start_def booted_def kmain_start_simps)
  have "tstate (threads demo_start i) \<noteq> T_RUNNABLE" if "i < SCHED_MAX_THREADS" "i \<noteq> 0" for i
    using b(7) [OF that] by simp
  from first_tick [OF b(1,2,3,6,5) this, of timer_frame demo_env] irq b(4,7) show ?thesis
    by (simp add: demo_run_def timer_frame_def)
       (simp add: demo_start_def booted_pg [OF zero_kstate_static] demo_paging_def)
qed

lemma demo_wait_reachable: "reachable (booted demo_boot demo_paging zero_kstate) demo_wait"
  unfolding demo_wait_def
proof (rule reachable.step [OF demo_run_reachable kstep.trap])
  show "may_trap demo_run (syscall_frame SYS_RECV ERR 0 0)"
    using demo_run_facts by (simp add: may_trap_def syscall_frame_def)
qed (use demo_run_facts in simp)

lemma demo_wait_facts: "current demo_wait = Idle \<and> tstate (threads demo_wait 0) = T_BLOCKED \<and>
    ipc_state (threads demo_wait 0) = IPC_RECEIVING \<and> \<not> clobbered (pg demo_wait)"
  unfolding demo_wait_def
  using recv_idles [OF reachable_booted [OF zero_kstate_static demo_run_reachable], of 0] demo_run_facts
  by (simp add: syscall_frame_def)

section \<open>Properties\<close>

text \<open>C1: In every state reached after boot without a store into the memory of the kernel (a RECV can
  make one, decent programs do not) the running thread is exactly the current one, it has
  nothing left to do in the kernel, and a trap would enter on that thread's own kernel stack.\<close>

theorem reachable_running:
  assumes "static_zero s" and "reachable (booted b pg' s) s'" and "\<not> clobbered (pg s')"
  shows "(\<forall>i<SCHED_MAX_THREADS. tstate (threads s' i) = T_RUNNING \<longleftrightarrow> current s' = Slot i) \<and>
    (\<forall>i. current s' = Slot i \<longrightarrow> i < SCHED_MAX_THREADS \<and> tid (threads s' i) = int i \<and>
       kont (threads s' i) = K_user \<and> tss_rsp0 s' = kstack_top (threads s' i))"
proof -
  have k: "kinv s'" by (rule reachable_booted [OF assms])
  then have inv: "sched_inv s'" by (simp add: kinv_def kmid_def running_ok_inv)
  note cur = kmid_current [OF kinv_kmid [OF k]]
  have "tstate (threads s' i) = T_RUNNING \<longleftrightarrow> current s' = Slot i" if "i < SCHED_MAX_THREADS" for i
    using sched_invD(5) [OF inv that] cur(2) by blast
  moreover have "kont (threads s' i) = K_user \<and> tss_rsp0 s' = kstack_top (threads s' i)" if "current s' = Slot i" for i
    using k that unfolding kinv_def kmid_def tss_ok_def by blast
  ultimately show ?thesis using cur(1,3) by blast
qed

theorem reachable_running_witness: "tss_rsp0 demo_run = kstack_top (threads demo_run 0)"
  using reachable_running [OF zero_kstate_static demo_run_reachable] demo_run_facts by simp

text \<open>C2: No rendezvous is ever missed: in no state reached after boot without a store into the memory
  of the kernel is one thread blocked sending to a
  second while the second is blocked receiving from the first or from anyone.\<close>

theorem no_missed_rendezvous:
  assumes "static_zero s" and "reachable (booted b pg' s) s'" and "\<not> clobbered (pg s')"
    and "i < SCHED_MAX_THREADS" and "j < SCHED_MAX_THREADS"
  shows "\<not> (tstate (threads s' i) = T_BLOCKED \<and> ipc_state (threads s' i) = IPC_SENDING \<and>
      ipc_peer (threads s' i) = int j \<and>
      tstate (threads s' j) = T_BLOCKED \<and> ipc_state (threads s' j) = IPC_RECEIVING \<and>
      (ipc_peer (threads s' j) = IPC_ANY \<or> ipc_peer (threads s' j) = int i))"
proof -
  have "ipc_inv s'" using reachable_booted [OF assms(1-3)] by (simp add: kinv_def kmid_def)
  from ipc_invD(2) [OF this assms(4,5)] show ?thesis
    by (auto simp: is_sender_def receiver_ready_def)
qed

theorem no_missed_rendezvous_witness:
  "\<not> (tstate (threads demo_wait 1) = T_BLOCKED \<and> ipc_state (threads demo_wait 1) = IPC_SENDING \<and>
      ipc_peer (threads demo_wait 1) = int 0 \<and>
      tstate (threads demo_wait 0) = T_BLOCKED \<and> ipc_state (threads demo_wait 0) = IPC_RECEIVING \<and>
      (ipc_peer (threads demo_wait 0) = IPC_ANY \<or> ipc_peer (threads demo_wait 0) = int 1))"
  by (rule no_missed_rendezvous [OF zero_kstate_static demo_wait_reachable]) (simp_all add: demo_wait_facts)

text \<open>C3: A driver never sleeps on an interrupt: in every state reached after boot without a store
  into the memory of the kernel a thread that is
  blocked receiving has no interrupt pending, and every blocked thread is in a send or a receive.\<close>

theorem no_sleeping_interrupt:
  assumes "static_zero s" and "reachable (booted b pg' s) s'" and "\<not> clobbered (pg s')"
    and "i < SCHED_MAX_THREADS" and "tstate (threads s' i) = T_BLOCKED"
  shows "ipc_state (threads s' i) = IPC_SENDING \<or>
    ipc_state (threads s' i) = IPC_RECEIVING \<and> irq_pending (threads s' i) = 0"
proof -
  have "thread_ok (threads s' i)"
    using reachable_booted [OF assms(1-3)] assms(4) by (simp add: kinv_def kmid_def ipc_inv_def)
  with assms(5) show ?thesis by (auto simp: thread_ok_def)
qed

theorem no_sleeping_interrupt_witness: "irq_pending (threads demo_wait 0) = 0"
  using no_sleeping_interrupt [OF zero_kstate_static demo_wait_reachable, of 0] demo_wait_facts by simp


text \<open>C15: After boot nothing runs but the idle thread, and the first timer tick starts the root
  task in user mode, at the load address of its program and on its own stack.\<close>

theorem first_tick_starts_init:
  assumes "static_zero s" and "vec f = VEC_TIMER"
  shows "current (booted b pg' s) = Idle \<and> current (isr_handler env f (booted b pg' s)) = Slot 0 \<and>
    rip (tf (threads (isr_handler env f (booted b pg' s)) 0)) = b_bases b 0 \<and>
    tf_rsp (tf (threads (isr_handler env f (booted b pg' s)) 0)) = b_bases b 0 + STK_OFFSET \<and>
    cs (tf (threads (isr_handler env f (booted b pg' s)) 0)) = USER_CS"
proof -
  note b = booted_facts [OF assms(1), where b = b and pg' = pg']
  have progs: "progs (booted b pg' s) = mk_progs (b_images b) (b_bases b)"
    using kmain_init_threads(3,5) [OF assms(1)]
      free_thread_cong [of "(kmain_init b s)\<lparr>pg := pg'\<rparr>" "kmain_init b s"]
    by (simp add: booted_def kmain_start_simps)
  have "tstate (threads (booted b pg' s) i) \<noteq> T_RUNNABLE" if "i < SCHED_MAX_THREADS" "i \<noteq> 0" for i
    using b(7) [OF that] by simp
  from first_tick [OF b(1,2,3,6,5) this assms(2), of env] b(2) show ?thesis
    by (simp add: progs mk_progs_def)
qed

theorem first_tick_starts_init_witness:
  "rip (tf (threads (isr_handler demo_env timer_frame (booted demo_boot demo_paging zero_kstate)) 0)) = 0x400000000000"
  using first_tick_starts_init [OF zero_kstate_static, of timer_frame demo_boot demo_paging demo_env]
  by (simp add: timer_frame_def demo_boot_def)

end
