(* ===== verification/Boot.thy ===== *)
theory Boot
  imports Load KMain
begin

text \<open>
  From the boot loader to the first program: the page tables that \<^verbatim>\<open>loader.S\<close> builds
  (the first GiB mapped to itself with 2 MiB pages), the load addresses of the programs from the
  Makefile, and the theorem that with enough memory \<open>kmain\<close> returns with every program loaded.
\<close>

section \<open>The page tables of the boot code\<close>

text \<open>
  \<open>pml4\<close>, \<open>pdpt\<close> and \<open>pd\<close> are the addresses of the three tables in the zeroed \<^verbatim>\<open>.bss\<close>
  section; \<open>i\<close> is the loop counter in \<^verbatim>\<open>ecx\<close>.
\<close>

definition fill_pd :: "u64 \<Rightarrow> nat \<Rightarrow> (u64 \<Rightarrow> u64) \<Rightarrow> (u64 \<Rightarrow> u64)" where
  "fill_pd pd n m = fold (\<lambda>i m. m(entry_addr pd i := of_nat (0x200000 * i) OR 0x83)) [0..<n] m"

definition boot_long_mode :: "u64 \<Rightarrow> u64 \<Rightarrow> u64 \<Rightarrow> paging \<Rightarrow> paging" where
  "boot_long_mode pml4 pdpt pd s =
     (let m = (pmem s)(pml4 := pdpt OR 3);
          m = m(pdpt := pd OR 3);
          m = fill_pd pd 512 m
      in s\<lparr>pmem := m, cr3 := pml4\<rparr>)"

text \<open>Where the linker puts the tables: in the kernel image, which ends in the first GiB.\<close>

definition tables_placed :: "u64 \<Rightarrow> u64 \<Rightarrow> u64 \<Rightarrow> u64 \<Rightarrow> paging \<Rightarrow> bool" where
  "tables_placed pml4 pdpt pd ke s \<longleftrightarrow> ke \<le> 0x40000000 \<and> distinct [pml4, pdpt, pd] \<and>
     (\<forall>t\<in>{pml4, pdpt, pd}. aligned t \<and> t \<noteq> 0 \<and> t < ke) \<and>
     (\<forall>t\<in>{pml4, pdpt}. \<forall>i<512. pmem s (entry_addr t i) = 0)"

definition boot_lvl :: "u64 \<Rightarrow> u64 \<Rightarrow> u64 \<Rightarrow> u64 \<Rightarrow> nat" where
  "boot_lvl pml4 pdpt pd t = (if t = pml4 then 4 else if t = pdpt then 3 else if t = pd then 2 else 0)"

lemma fill_pd_at:
  assumes "aligned pd" "aligned t" "i < 512"
  shows "n \<le> 512 \<Longrightarrow> fill_pd pd n m (entry_addr t i) =
    (if t = pd \<and> i < n then of_nat (0x200000 * i) OR 0x83 else m (entry_addr t i))"
proof (induction n)
  case 0
  then show ?case by (simp add: fill_pd_def)
next
  case (Suc n)
  have "fill_pd pd (Suc n) m = (fill_pd pd n m)(entry_addr pd n := of_nat (0x200000 * n) OR 0x83)"
    by (simp add: fill_pd_def)
  moreover have "entry_addr t i = entry_addr pd n \<longleftrightarrow> t = pd \<and> i = n"
    using Suc.prems by (intro entry_addr_inj assms) simp
  ultimately show ?case using Suc by (auto simp: less_Suc_eq)
qed

lemma boot_entry:
  assumes p: "tables_placed pml4 pdpt pd ke s" and t: "t \<in> {pml4, pdpt, pd}" and i: "i < 512"
  shows "pmem (boot_long_mode pml4 pdpt pd s) (entry_addr t i) =
    (if t = pd then of_nat (0x200000 * i) OR 0x83
     else if i = 0 then (if t = pml4 then pdpt else pd) OR 3 else 0)"
proof -
  have al: "aligned pml4" "aligned pdpt" "aligned pd" "aligned t"
    using p t by (auto simp: tables_placed_def)
  have e: "entry_addr t i = q \<longleftrightarrow> t = q \<and> i = 0" if "aligned q" for q
    using entry_addr_inj [OF al(4) that i, of 0] by (simp add: entry_addr_def)
  have "fill_pd pd 512 m (entry_addr t i) =
      (if t = pd then of_nat (0x200000 * i) OR 0x83 else m (entry_addr t i))" for m
    using fill_pd_at [OF al(3,4) i, of 512 m] i by simp
  moreover have "((pmem s)(pml4 := a, pdpt := b)) (entry_addr t i) =
      (if t = pdpt \<and> i = 0 then b else if t = pml4 \<and> i = 0 then a else pmem s (entry_addr t i))" for a b
    unfolding fun_upd_apply e [OF al(1)] e [OF al(2)] by auto
  ultimately have "pmem (boot_long_mode pml4 pdpt pd s) (entry_addr t i) =
      (if t = pd then of_nat (0x200000 * i) OR 0x83 else if t = pdpt \<and> i = 0 then pd OR 3
       else if t = pml4 \<and> i = 0 then pdpt OR 3 else pmem s (entry_addr t i))"
    by (simp add: boot_long_mode_def Let_def)
  with p t i show ?thesis by (auto simp: tables_placed_def)
qed

lemma link3:
  assumes "aligned t" "t < 0x40000000"
  shows "links (t OR 3)" "child (t OR 3) = t" "(t OR 3) AND PTE_USER = 0"
proof -
  have low: "\<not> bit t n" if "n < 12" for n using assms(1) that by (simp add: aligned_bits)
  have high: "n < 30" if "bit t n" for n
    using bit_small_word [of t 30 n] assms(2) that by (simp add: word_less_nat_alt)
  have three: "bit (3 :: u64) n \<longleftrightarrow> n < 2" for n
  proof -
    have "(3 :: u64) = mask 2" by (simp add: mask_eq_exp_minus_1)
    then show ?thesis by (simp only: bit_mask_iff) auto
  qed
  have "PTE_PS = 2 ^ 7" by simp
  then have "(t OR 3) AND PTE_PS = 0"
    using low by (simp only: and_exp_eq_0_iff_not_bit) (simp add: bit_or_iff three)
  moreover have "present (t OR 3)" unfolding present_bit bit_or_iff three by simp
  ultimately show "links (t OR 3)" by (simp add: links_def)
  have "PTE_USER = 2 ^ 2" by simp
  then show "(t OR 3) AND PTE_USER = 0"
    using low by (simp only: and_exp_eq_0_iff_not_bit) (simp add: bit_or_iff three)
  show "child (t OR 3) = t"
  proof (rule bit_word_eqI)
    fix n
    show "bit (child (t OR 3)) n = bit t n"
      using low [of n] high [of n] unfolding bit_child bit_or_iff three by (cases "12 \<le> n") auto
  qed
qed

lemma large_page: "\<not> links (w OR 0x83)"
proof -
  have "(0x83 :: u64) AND 2 ^ 7 \<noteq> 0" by simp
  then have "bit (0x83 :: u64) 7" by (simp only: and_exp_eq_0_iff_not_bit) simp
  then have "(w OR 0x83) AND 2 ^ 7 \<noteq> 0" by (simp only: and_exp_eq_0_iff_not_bit) (simp add: bit_or_iff)
  then show ?thesis by (simp add: links_def)
qed

section \<open>Frames above the kernel\<close>

lemma unat_page_align_up:
  assumes "unat x + 4095 < 2 ^ 64"
  shows "unat x \<le> unat (page_align_up x)" "unat (page_align_up x) \<le> unat x + 4095"
    "unat (page_align_up x) mod 4096 = 0"
proof -
  let ?y = "x + PAGE_MASK"
  have y: "unat ?y = unat x + 4095" using assms by (simp add: unat_word_ariths)
  have up: "page_align_up x = page_align_down ?y" by (simp add: page_align_up_def page_align_down_def)
  have "?y - page_align_down ?y < PAGE_SIZE"
    using in_page_iff(1) [OF aligned_page_align_down] by blast
  then have k: "unat (?y - page_align_down ?y) < 4096" by (simp only: word_less_nat_alt) simp
  have "unat (page_align_down ?y) + unat (?y - page_align_down ?y) = unat ?y"
    using aligned_small [OF aligned_page_align_down k, of ?y] by simp
  with y k show "unat x \<le> unat (page_align_up x)" "unat (page_align_up x) \<le> unat x + 4095"
    unfolding up by linarith+
  show "unat (page_align_up x) mod 4096 = 0"
    using aligned_page_align_down [of ?y] unfolding up aligned_def .
qed

lemma reserved_above:
  assumes "ke \<le> 0x40000000" "ram_top \<le> 0x40000000"
  shows "unat ke \<le> 4096 * unat (reserved_frames ke ram_top)"
proof -
  let ?d = "(drop_bit PAGE_SHIFT ram_top + 7) div 8"
  have r: "unat ram_top \<le> 0x40000000" "unat ke \<le> 0x40000000"
    using assms by (simp_all add: word_le_nat_alt)
  have "unat (drop_bit PAGE_SHIFT ram_top) = unat ram_top div 4096"
    by (simp only: unat_drop_bit_eq) (simp add: drop_bit_eq_div)
  then have "unat (drop_bit PAGE_SHIFT ram_top) \<le> 0x40000" using r by simp
  then have "unat (drop_bit PAGE_SHIFT ram_top + 7) \<le> 0x40007" by (simp add: unat_word_ariths)
  then have d: "unat ?d \<le> 0x8000" by (simp add: unat_div_distrib)
  let ?y = "page_align_up ke + ?d"
  have k: "unat ke \<le> unat (page_align_up ke)" "unat (page_align_up ke) \<le> unat ke + 4095"
    using unat_page_align_up [of ke] r by simp_all
  have y: "unat ?y = unat (page_align_up ke) + unat ?d"
    using k r d by (simp add: unat_word_ariths)
  have "unat ?y + 4095 < 2 ^ 64" using y k r d by simp
  note u = unat_page_align_up [OF this]
  have "unat (reserved_frames ke ram_top) = unat (page_align_up ?y) div 4096"
    unfolding reserved_frames_def by (simp only: unat_drop_bit_eq) (simp add: drop_bit_eq_div)
  then have "4096 * unat (reserved_frames ke ram_top) = unat (page_align_up ?y)" using u(3) by auto
  then show ?thesis using u(1) y k by linarith
qed

lemma kernel_not_avail:
  assumes "ke \<le> 0x40000000" "ram_top \<le> 0x40000000" "t < ke"
  shows "t \<notin> avail (pmm_init ke rs ram_top p)"
proof
  assume "t \<in> avail (pmm_init ke rs ram_top p)"
  then obtain f where f: "t = push_bit 12 f" "f < drop_bit 12 ram_top" "reserved_frames ke ram_top \<le> f"
    by (auto simp: avail_def free_set_pmm_init)
  have "f < 2 ^ 52" using f(2) drop_bit_page_less [of ram_top] by simp
  then have "unat t = 4096 * unat f"
    unfolding f(1) by (simp add: push_bit_eq_mult unat_word_ariths word_less_nat_alt)
  moreover have "unat (reserved_frames ke ram_top) \<le> unat f" using f(3) by (simp add: word_le_nat_alt)
  moreover have "unat t < unat ke" using assms(3) by (simp add: word_less_nat_alt)
  ultimately show False using reserved_above [OF assms(1,2)] by linarith
qed

lemma card_avail: "pmm_inv p \<Longrightarrow> card (avail p) = unat (free_frames p)"
proof -
  assume "pmm_inv p"
  then have wf: "pmm_wf p" by (simp add: pmm_inv_def)
  have "inj_on (push_bit PAGE_SHIFT) (free_set p)"
    using push_bit_frame_inj free_set_small [OF wf] by (auto intro: inj_onI)
  then have "card (avail p) = card (free_set p)" by (simp add: avail_def card_image)
  with wf show ?thesis by (simp add: pmm_wf_def count_ok_def)
qed

text \<open>The tables of the boot code are well formed for the paging code.\<close>

lemma boot_tables_ok:
  assumes p: "tables_placed pml4 pdpt pd ke s" and ram: "ram_top \<le> 0x40000000"
  shows "tables_ok (boot_lvl pml4 pdpt pd)
    ((boot_long_mode pml4 pdpt pd s)\<lparr>pg_pmm := pmm_init ke rs ram_top q\<rparr>)" (is "tables_ok ?l ?s")
proof -
  have t: "aligned t" "t \<noteq> 0" "t < ke" "t < 0x40000000" if "t \<in> {pml4, pdpt, pd}" for t
    using p that by (auto simp: tables_placed_def)
  have ke: "ke \<le> 0x40000000" and dist: "distinct [pml4, pdpt, pd]" using p by (simp_all add: tables_placed_def)
  have lv: "t \<in> {pml4, pdpt, pd}" if "?l t \<noteq> 0" for t using that by (auto simp: boot_lvl_def split: if_splits)
  have cr: "read_cr3 ?s = pml4"
  proof -
    have "read_cr3 ?s = child pml4" by (simp add: read_cr3_def child_def boot_long_mode_def Let_def)
    also have "\<dots> = child (child (pml4 OR 3))" using link3(2) [OF t(1,4), of pml4] by simp
    also have "\<dots> = child (pml4 OR 3)" by (rule bit_word_eqI) (simp add: bit_child)
    finally show ?thesis using link3(2) [OF t(1,4), of pml4] by simp
  qed
  have ent: "(t = pml4 \<and> child (pmem ?s (entry_addr t i)) = pdpt \<or>
      t = pdpt \<and> child (pmem ?s (entry_addr t i)) = pd) \<and> i = 0"
    if "2 \<le> ?l t" "i < 512" "links (pmem ?s (entry_addr t i))" for t i
  proof -
    have tt: "t \<in> {pml4, pdpt, pd}" using that(1) by (intro lv) simp
    have "\<not> links 0" by (simp add: links_def present_def)
    then show ?thesis
      using that(3) tt dist large_page link3(2) [OF t(1,4), of pdpt] link3(2) [OF t(1,4), of pd]
      by (auto simp: boot_entry [OF p tt that(2)] split: if_splits)
  qed
  have "tree_wf ?l ?s"
    unfolding tree_wf_def cr
  proof (intro conjI allI impI)
    fix x assume "?l x \<noteq> 0"
    then have x: "x \<in> {pml4, pdpt, pd}" by (rule lv)
    show "aligned x" "x \<noteq> 0" using t [OF x] by auto
    show "x \<notin> avail (pg_pmm ?s)" using kernel_not_avail [OF ke ram t(3) [OF x]] by simp
  next
    fix x i assume "2 \<le> ?l x \<and> i < 512 \<and> links (pmem ?s (entry_addr x i))"
    then show "?l (child (pmem ?s (entry_addr x i))) = ?l x - 1"
      using ent [of x i] dist by (auto simp: boot_lvl_def)
  next
    fix x i x' i'
    assume "2 \<le> ?l x \<and> 2 \<le> ?l x' \<and> i < 512 \<and> i' < 512 \<and> links (pmem ?s (entry_addr x i)) \<and>
      links (pmem ?s (entry_addr x' i')) \<and> child (pmem ?s (entry_addr x i)) = child (pmem ?s (entry_addr x' i'))"
    then show "x = x'" "i = i'" using ent [of x i] ent [of x' i'] dist by auto
  qed (simp add: boot_lvl_def)
  moreover have "pmm_inv (pmm_init ke rs ram_top q)"
  proof (rule pmm_init_inv)
    have "0 < unat ke" using t(2,3) [of pml4] by (simp add: word_less_nat_alt)
    then show "0 < reserved_frames ke ram_top"
      using reserved_above [OF ke ram] by (simp add: word_less_nat_alt)
  qed
  moreover have "drop_bit 12 ram_top \<le> 2 ^ 40"
  proof -
    have "unat (drop_bit 12 ram_top) = unat ram_top div 4096"
      by (simp only: unat_drop_bit_eq) (simp add: drop_bit_eq_div)
    then show ?thesis using ram by (simp add: word_le_nat_alt)
  qed
  ultimately show ?thesis by (simp add: tables_ok_def total_pmm_init)
qed

section \<open>Where the programs go\<close>

definition prog_bases :: "u64 list" where
  "prog_bases =
     [0x400000000000, 0x400000100000, 0x400000200000, 0x400000300000,
      0x400000500000, 0x400000600000, 0x400000700000, 0x400000800000,
      0x400000900000, 0x400000A00000, 0x400000C00000, 0x400000D00000]"

text \<open>The bytes of its image and of its stack that a program may use.\<close>

definition area :: "prog \<Rightarrow> u64 set" where
  "area pr = {x. unat (x - pr_base pr) < unat IMG_BYTES \<or> unat (x - (pr_stack_top pr - STK_BYTES)) < unat STK_BYTES}"

definition prog_byte :: "prog \<Rightarrow> u64 \<Rightarrow> u8" where
  "prog_byte pr x = (let k = unat (x - pr_base pr) in if k < length (image pr) then image pr ! k else 0)"

definition loaded :: "paging \<Rightarrow> prog \<Rightarrow> bool" where
  "loaded s pr \<longleftrightarrow> (\<forall>x\<in>area pr. phys s x \<noteq> None \<and> user_byte s x = prog_byte pr x)"

lemma area_span:
  assumes "prog_fits pr"
  shows "x \<in> area pr \<longleftrightarrow> (let k = unat (x - pr_base pr) in k < 0x10000 \<or> 0x7C000 \<le> k \<and> k < 0x80000)"
    and "area pr \<subseteq> span pr"
proof -
  have st: "pr_stack_top pr - STK_BYTES = pr_base pr + 0x7C000" using assms by (simp add: prog_fits_def)
  show i: "x \<in> area pr \<longleftrightarrow> (let k = unat (x - pr_base pr) in k < 0x10000 \<or> 0x7C000 \<le> k \<and> k < 0x80000)" for x
    unfolding area_def st off_shift Let_def mem_Collect_eq by auto
  show "area pr \<subseteq> span pr" using i by (auto simp: span_def Let_def)
qed

lemma load_spec_area: "prog_fits pr \<Longrightarrow> x \<in> area pr \<Longrightarrow> load_spec pr (\<lambda>_. None) x = Some (prog_byte pr x)"
  by (auto simp: load_spec_at area_span prog_byte_def Let_def)

text \<open>Loading programs with separate spans, with 80 frames for each.\<close>

theorem load_all:
  assumes ok: "tables_ok lvl s" and ap: "apart U D lvl s" and frames: "n + 80 * PROG_COUNT \<le> card (avail (pg_pmm s))"
    and fits: "\<And>i. i < PROG_COUNT \<Longrightarrow> prog_fits (pf i)"
    and walk: "\<And>i x. i < PROG_COUNT \<Longrightarrow> x \<in> span (pf i) \<Longrightarrow> walk_open s x"
    and apart: "\<And>i j. i < j \<Longrightarrow> j < PROG_COUNT \<Longrightarrow> span (pf i) \<inter> span (pf j) = {}"
  shows "\<exists>s'. rootfs_load_all pf s = Some s' \<and> (\<exists>lvl'. tables_ok lvl' s' \<and> apart U D lvl' s') \<and>
    n \<le> card (avail (pg_pmm s')) \<and> walk_open s' = walk_open s \<and> (\<forall>i<PROG_COUNT. loaded s' (pf i)) \<and>
    inj_on (phys s') (\<Union>i<PROG_COUNT. area (pf i))"
proof -
  let ?ps = "map pf [0..<PROG_COUNT]"
  have empty: "holds U D s (\<lambda>_. None) (n + 80 * length ?ps)"
    using ok ap frames by (auto simp: holds_def backed_def)
  have srt: "sorted_wrt (\<lambda>p q. span p \<inter> span q = {}) ?ps"
    unfolding sorted_wrt_map using apart by (simp add: sorted_wrt_iff_nth_less)
  have fits': "prog_fits pr" if "pr \<in> set ?ps" for pr using fits that by auto
  have open_spans: "walk_open s x" if "pr \<in> set ?ps" "x \<in> span pr" for pr x
    using that walk by auto
  obtain s' where
    s': "fold (\<lambda>pr so. case so of None \<Rightarrow> None | Some s' \<Rightarrow> load_one s' pr) ?ps (Some s) = Some s'"
      "holds U D s' (fold load_spec ?ps (\<lambda>_. None)) n" "walk_open s' = walk_open s"
    using fold_load_holds [OF empty fits' _ srt] open_spans by blast
  have at: "fold load_spec ?ps (\<lambda>_. None) x = Some (prog_byte (pf i) x)"
    if "i < PROG_COUNT" "x \<in> area (pf i)" for i x
  proof -
    have f: "prog_fits (pf i)" by (rule fits [OF that(1)])
    have "fold load_spec ?ps (\<lambda>_. None) x = load_spec (pf i) (\<lambda>_. None) x"
      using that area_span(2) [OF f] by (intro fold_load_at [OF fits' srt]) auto
    then show ?thesis using load_spec_area [OF f that(2)] by simp
  qed
  have "rootfs_load_all pf s = Some s'"
    using s'(1) unfolding rootfs_load_all_def fold_map comp_def by simp
  moreover have "\<exists>lvl'. tables_ok lvl' s' \<and> apart U D lvl' s'" "n \<le> card (avail (pg_pmm s'))"
    using s'(2) by (auto simp: holds_def)
  moreover have "loaded s' (pf i)" if "i < PROG_COUNT" for i
    unfolding loaded_def using holds_read(1) [OF s'(2) at [OF that]] by blast
  moreover have "inj_on (phys s') (\<Union>i<PROG_COUNT. area (pf i))"
    by (rule inj_on_subset [OF holds_read(2) [OF s'(2)]]) (use at in blast)
  ultimately show ?thesis using s'(3) by blast
qed

section \<open>The programs of the build\<close>

lemma span_range:
  assumes "prog_fits pr" and "x \<in> span pr"
  shows "unat (pr_base pr) \<le> unat x \<and> unat x < unat (pr_base pr) + 0x80000"
proof -
  define d where "d = x - pr_base pr"
  have d: "unat d < 0x80000" using assms(2) by (simp add: span_def d_def)
  have "x = pr_base pr + d" by (simp add: d_def)
  then have "unat x = unat (pr_base pr) + unat d"
    using d assms(1) by (simp add: unat_word_ariths prog_fits_def)
  with d show ?thesis by simp
qed

lemma base_bounds:
  "i < PROG_COUNT \<Longrightarrow> aligned (prog_bases ! i) \<and> 2 ^ 46 \<le> unat (prog_bases ! i) \<and>
     unat (prog_bases ! i) \<le> 2 ^ 46 + 0xD00000"
  "i < j \<Longrightarrow> j < PROG_COUNT \<Longrightarrow> unat (prog_bases ! i) + 0x80000 \<le> unat (prog_bases ! j)"
proof -
  have "list_all (\<lambda>b. aligned b \<and> 2 ^ 46 \<le> unat b \<and> unat b \<le> 2 ^ 46 + 0xD00000) prog_bases"
    by (simp add: prog_bases_def aligned_def)
  then show "i < PROG_COUNT \<Longrightarrow> aligned (prog_bases ! i) \<and> 2 ^ 46 \<le> unat (prog_bases ! i) \<and>
     unat (prog_bases ! i) \<le> 2 ^ 46 + 0xD00000"
    by (simp add: list_all_length prog_bases_def)
  have "sorted_wrt (\<lambda>a b. unat a + 0x80000 \<le> unat b) prog_bases"
    by (simp add: prog_bases_def)
  then show "i < j \<Longrightarrow> j < PROG_COUNT \<Longrightarrow> unat (prog_bases ! i) + 0x80000 \<le> unat (prog_bases ! j)"
    by (simp add: sorted_wrt_iff_nth_less prog_bases_def)
qed

lemma build_progs:
  assumes all: "\<forall>i<PROG_COUNT. length (images i) \<le> 0x10000 \<and> bases i = prog_bases ! i"
  shows "i < PROG_COUNT \<Longrightarrow> prog_fits (mk_progs images bases i)"
    and "i < PROG_COUNT \<Longrightarrow> x \<in> span (mk_progs images bases i) \<Longrightarrow> va_index 39 x = 128"
    and "i < j \<Longrightarrow> j < PROG_COUNT \<Longrightarrow> span (mk_progs images bases i) \<inter> span (mk_progs images bases j) = {}"
proof -
  have fits: "prog_fits (mk_progs images bases k)" if "k < PROG_COUNT" for k
    using all that base_bounds(1) [OF that] by (auto simp: prog_fits_def mk_progs_def)
  have rg: "unat (prog_bases ! k) \<le> unat y \<and> unat y < unat (prog_bases ! k) + 0x80000"
    if "k < PROG_COUNT" "y \<in> span (mk_progs images bases k)" for k y
    using span_range [OF fits [OF that(1)] that(2)] all that(1) by (simp add: mk_progs_def)
  show "i < PROG_COUNT \<Longrightarrow> prog_fits (mk_progs images bases i)" by (rule fits)
  show "va_index 39 x = 128" if "i < PROG_COUNT" "x \<in> span (mk_progs images bases i)"
  proof -
    have "2 ^ 46 \<le> unat x" "unat x < 2 ^ 46 + 0xD80000"
      using rg [OF that] base_bounds(1) [OF that(1)] by linarith+
    then have "unat x div 2 ^ 39 = 128" by (intro div_nat_eqI) simp_all
    moreover have "unat (drop_bit 39 x) = unat x div 2 ^ 39"
      by (simp only: unat_drop_bit_eq) (simp add: drop_bit_eq_div)
    ultimately have "unat (drop_bit 39 x) = 128" by simp
    then have "drop_bit 39 x = 128" by (simp add: word_unat_eq_iff)
    then show ?thesis by (simp add: va_index_def)
  qed
  show "span (mk_progs images bases i) \<inter> span (mk_progs images bases j) = {}" if "i < j" "j < PROG_COUNT"
    using rg [of i] rg [of j] base_bounds(2) [OF that] that by fastforce
qed

lemma kmain_init_pg:
  "pg (kmain_init b s) = (pg s)\<lparr>pg_pmm := pmm_init (b_kernel_end b) (b_regions b) (b_ram_top b) (pg_pmm (pg s)),
     kmem_top := push_bit PAGE_SHIFT (reserved_frames (b_kernel_end b) (b_ram_top b)), clobbered := False\<rparr>"
  by (simp add: kmain_init_def sched_init_def hal_traps_init_def kputs_def emit_def Let_def)

text \<open>What the build and the machine give: images of at most 64 KiB at the addresses of the
  Makefile, at most 1 GiB of memory, and enough of it free.\<close>

definition boot_pmm :: "boot_info \<Rightarrow> pmm \<Rightarrow> pmm" where
  "boot_pmm b p = pmm_init (b_kernel_end b) (b_regions b) (b_ram_top b) p"

definition boot_fits :: "boot_info \<Rightarrow> pmm \<Rightarrow> bool" where
  "boot_fits b p \<longleftrightarrow>
     (\<forall>i<PROG_COUNT. length (b_images b i) \<le> 0x10000 \<and> b_bases b i = prog_bases ! i) \<and>
     b_ram_top b \<le> 0x40000000 \<and> 960 \<le> free_frames (boot_pmm b p)"

text \<open>The boot code maps no 4 KiB page, and nothing at all outside the first entry of its root.\<close>

lemma boot_walks:
  assumes pl: "tables_placed pml4 pdpt pd ke g" and ram: "ram_top \<le> 0x40000000"
    and s0_def: "s0 = (boot_long_mode pml4 pdpt pd g)\<lparr>pg_pmm := pmm_init ke rs ram_top q, kmem_top := kt, clobbered := c\<rparr>"
  shows "mapping s0 v = None" and "va_index 39 v \<noteq> 0 \<Longrightarrow> walk_open s0 v" and "root_closed s0"
proof -
  let ?l = "boot_lvl pml4 pdpt pd"
  have ok: "tables_ok ?l s0" using boot_tables_ok [OF pl ram, of rs q] by (simp add: s0_def)
  have cr: "read_cr3 s0 = pml4"
  proof -
    have "?l (read_cr3 s0) = 4" using ok tree_wfD(1) by (auto simp: tables_ok_def)
    then show ?thesis by (auto simp: boot_lvl_def split: if_splits)
  qed
  have dist: "pml4 \<noteq> pd" "pdpt \<noteq> pd" "pml4 \<noteq> pdpt" using pl by (auto simp: tables_placed_def)
  have c: "child (pdpt OR 3) = pdpt" "child (pd OR 3) = pd"
    using pl by (auto simp: tables_placed_def intro!: link3(2))
  have e: "pmem s0 (entry_addr pml4 i) = (if i = 0 then pdpt OR 3 else 0)"
    "pmem s0 (entry_addr pdpt i) = (if i = 0 then pd OR 3 else 0)"
    "\<not> links (pmem s0 (entry_addr pd i))" if "i < 512" for i
    using boot_entry [OF pl, of pml4 i] boot_entry [OF pl, of pdpt i] boot_entry [OF pl, of pd i] that dist large_page
    by (simp_all add: s0_def)
  note e' = e(1) [OF va_index_less] e(2) [OF va_index_less] e(3) [OF va_index_less]
  have z: "\<not> links 0" "\<not> present 0" by (simp_all add: links_def present_def)
  show "mapping s0 v = None" by (simp add: mapping_def va_path_def cr Let_def e' c z)
  show "va_index 39 v \<noteq> 0 \<Longrightarrow> walk_open s0 v" by (simp add: walk_open_def va_path_def cr Let_def e' z)
  have "aligned pdpt" "pdpt < 0x40000000" using pl by (auto simp: tables_placed_def)
  with e(1) [of 0] show "root_closed s0" by (simp add: root_closed_def cr link3)
qed

text \<open>Device memory: frames that hold no table of the boot code, do not lie in the kernel's memory
  and are not the allocator's.\<close>

definition devices_apart :: "u64 \<Rightarrow> u64 \<Rightarrow> u64 \<Rightarrow> boot_info \<Rightarrow> pmm \<Rightarrow> u64 set \<Rightarrow> bool" where
  "devices_apart pml4 pdpt pd b p D \<longleftrightarrow> D \<inter> (avail (boot_pmm b p) \<union> {pml4, pdpt, pd}) = {} \<and>
     (\<forall>d\<in>D. d < KERNEL_BASE \<or> push_bit PAGE_SHIFT (reserved_frames (b_kernel_end b) (b_ram_top b)) \<le> d)"

text \<open>The allocator owns only frames above the kernel's memory.\<close>

lemma avail_above:
  assumes "u \<in> avail (boot_pmm b p)"
  shows "push_bit PAGE_SHIFT (reserved_frames (b_kernel_end b) (b_ram_top b)) \<le> u"
proof -
  obtain f where f: "u = push_bit 12 f" "f < drop_bit 12 (b_ram_top b)" "reserved_frames (b_kernel_end b) (b_ram_top b) \<le> f"
    using assms by (auto simp: avail_def boot_pmm_def free_set_pmm_init)
  have "f < 2 ^ 52" using f(2) drop_bit_page_less [of "b_ram_top b"] by simp
  moreover have "unat (push_bit 12 x) = 4096 * unat x" if "x < 2 ^ 52" for x :: u64
    using that by (simp add: push_bit_eq_mult unat_word_ariths word_less_nat_alt)
  ultimately show ?thesis using f(1,3) by (simp add: word_le_nat_alt word_less_nat_alt)
qed

lemma boot_loads:
  assumes z: "static_zero s" and pl: "tables_placed pml4 pdpt pd (b_kernel_end b) g"
    and pg: "pg s = boot_long_mode pml4 pdpt pd g" and fits: "boot_fits b (pg_pmm (pg s))"
    and dev: "devices_apart pml4 pdpt pd b (pg_pmm (pg s)) D"
  obtains pg' lvl where "kmain b s = Some (booted b pg' s)" "pg (booted b pg' s) = pg'"
    "progs (booted b pg' s) = mk_progs (b_images b) (b_bases b)"
    "\<forall>i<PROG_COUNT. loaded pg' (mk_progs (b_images b) (b_bases b) i)"
    "inj_on (phys pg') (\<Union>i<PROG_COUNT. area (mk_progs (b_images b) (b_bases b) i))"
    "tables_ok lvl pg'" "apart (avail (boot_pmm b (pg_pmm (pg s))) \<union> D) D lvl pg'"
    "\<forall>v. va_index 39 v \<noteq> 0 \<longrightarrow> walk_open pg' v"
    "unat (free_frames (boot_pmm b (pg_pmm (pg s)))) - 960 \<le> card (avail (pg_pmm pg'))"
proof -
  let ?l = "boot_lvl pml4 pdpt pd" and ?pf = "mk_progs (b_images b) (b_bases b)"
    and ?U = "avail (boot_pmm b (pg_pmm (pg s))) \<union> D"
  define s0 where "s0 = pg (kmain_init b s)"
  have s0: "s0 = (boot_long_mode pml4 pdpt pd g)\<lparr>pg_pmm :=
      pmm_init (b_kernel_end b) (b_regions b) (b_ram_top b) (pg_pmm (pg s)),
      kmem_top := push_bit PAGE_SHIFT (reserved_frames (b_kernel_end b) (b_ram_top b)), clobbered := False\<rparr>"
    by (simp add: s0_def kmain_init_pg pg)
  have ram: "b_ram_top b \<le> 0x40000000" using fits by (simp add: boot_fits_def)
  have ok: "tables_ok ?l s0" using boot_tables_ok [OF pl ram] by (simp add: s0)
  note walks = boot_walks [OF pl ram s0]
  have pm: "pg_pmm s0 = boot_pmm b (pg_pmm (pg s))" by (simp add: s0 boot_pmm_def)
  have "\<not> in_kernel s0 u" if "u \<in> ?U" for u
    using that dev avail_above [of u b "pg_pmm (pg s)"] by (auto simp: in_kernel_def s0 devices_apart_def)
  moreover have "\<not> clobbered s0" by (simp add: s0)
  ultimately have ap: "apart ?U D ?l s0"
    using dev pm walks(3) by (auto simp: apart_def devices_apart_def walks(1) boot_lvl_def)
  have bl: "\<forall>i<PROG_COUNT. length (b_images b i) \<le> 0x10000 \<and> b_bases b i = prog_bases ! i"
    using fits by (simp add: boot_fits_def)
  note bp = build_progs [OF bl]
  let ?n = "unat (free_frames (boot_pmm b (pg_pmm (pg s)))) - 960"
  have "960 \<le> unat (free_frames (pg_pmm s0))"
    using fits by (simp add: boot_fits_def boot_pmm_def s0 word_le_nat_alt)
  then have card: "?n + 80 * PROG_COUNT \<le> card (avail (pg_pmm s0))"
    using ok by (simp add: tables_ok_def card_avail pm)
  have walk: "walk_open s0 x" if "i < PROG_COUNT" "x \<in> span (?pf i)" for i x
    using bp(2) [OF that] by (intro walks(2)) simp
  have "\<exists>s'. rootfs_load_all ?pf s0 = Some s' \<and> (\<exists>lvl'. tables_ok lvl' s' \<and> apart ?U D lvl' s') \<and>
      ?n \<le> card (avail (pg_pmm s')) \<and> walk_open s' = walk_open s0 \<and> (\<forall>i<PROG_COUNT. loaded s' (?pf i)) \<and>
      inj_on (phys s') (\<Union>i<PROG_COUNT. area (?pf i))"
    by (rule load_all [OF ok ap card]) (fact bp(1) walk bp(3))+
  then obtain pg' lvl where
    l: "rootfs_load_all ?pf s0 = Some pg'" "tables_ok lvl pg'" "apart ?U D lvl pg'" "walk_open pg' = walk_open s0"
      "?n \<le> card (avail (pg_pmm pg'))"
      "\<forall>i<PROG_COUNT. loaded pg' (?pf i)" "inj_on (phys pg') (\<Union>i<PROG_COUNT. area (?pf i))" by blast
  note init = kmain_init_threads [OF z, where b = b]
  have free: "free_thread ((kmain_init b s)\<lparr>pg := pg'\<rparr>) = Some 0"
    using init(5) free_thread_cong [of "(kmain_init b s)\<lparr>pg := pg'\<rparr>" "kmain_init b s"] by simp
  show thesis
  proof (rule that [of pg' lvl])
    show "kmain b s = Some (booted b pg' s)"
      using l(1) init(3) by (simp add: kmain_def Let_def booted_def s0_def)
    show "pg (booted b pg' s) = pg'" "progs (booted b pg' s) = ?pf"
      using init(3) by (simp_all add: booted_def kmain_start_simps [OF free])
  qed (use l walks(2) in auto)
qed

section \<open>Properties\<close>

text \<open>C5: Boot completes: from the page tables that the boot code builds, with images of at most
  64 KiB and 960 free frames, \<open>kmain\<close> returns without a fault; every program then lies at its load
  address, the rest of its image and its stack are zero, no two of these bytes share memory, and
  the first timer tick starts the root task at its first byte.\<close>

theorem boot_completes:
  assumes "static_zero s" and "tables_placed pml4 pdpt pd (b_kernel_end b) g"
    and "pg s = boot_long_mode pml4 pdpt pd g" and "boot_fits b (pg_pmm (pg s))"
    and "vec f = VEC_TIMER"
  shows "\<exists>s'. kmain b s = Some s' \<and> (\<forall>i<PROG_COUNT. loaded (pg s') (progs s' i)) \<and>
    inj_on (phys (pg s')) (\<Union>i<PROG_COUNT. area (progs s' i)) \<and> paging_inv (pg s') \<and>
    rip (tf (threads (isr_handler env f s') 0)) = pr_base (progs s' 0)"
proof -
  have dev: "devices_apart pml4 pdpt pd b (pg_pmm (pg s)) {}" by (simp add: devices_apart_def)
  obtain pg' lvl where b: "kmain b s = Some (booted b pg' s)" "pg (booted b pg' s) = pg'"
    "progs (booted b pg' s) = mk_progs (b_images b) (b_bases b)"
    "\<forall>i<PROG_COUNT. loaded pg' (mk_progs (b_images b) (b_bases b) i)"
    "inj_on (phys pg') (\<Union>i<PROG_COUNT. area (mk_progs (b_images b) (b_bases b) i))" "tables_ok lvl pg'"
    by (rule boot_loads [OF assms(1-4) dev])
  then have "paging_inv pg'" by (auto simp: paging_inv_iff)
  have k: "tstate (threads (booted b pg' s) i) \<noteq> T_RUNNABLE" if "i < SCHED_MAX_THREADS" "i \<noteq> 0" for i
    using booted_facts(7) [OF assms(1) that] by simp
  note bf = booted_facts(1,2,3,6,5) [OF assms(1), where b = b and pg' = pg']
  from first_tick [OF bf k assms(5), of env] b \<open>paging_inv pg'\<close> show ?thesis
    by (intro exI [of _ "booted b pg' s"]) simp
qed

text \<open>A machine with 7 MiB of memory above the first, and programs of one byte.\<close>

definition big_boot :: boot_info where
  "big_boot = demo_boot\<lparr>b_kernel_end := 0x6000, b_regions := [\<lparr>r_base = 0x100000, r_len = 0x700000\<rparr>],
     b_ram_top := 0x800000, b_bases := (\<lambda>i. prog_bases ! i)\<rparr>"

definition blank_paging :: paging where
  "blank_paging = demo_paging\<lparr>pmem := (\<lambda>_. 0)\<rparr>"

definition big_start :: kstate where
  "big_start = zero_kstate\<lparr>pg := boot_long_mode 0x1000 0x2000 0x3000 blank_paging\<rparr>"

lemma big_free:
  "free_set (pmm_init 0x6000 [\<lparr>r_base = 0x100000, r_len = 0x700000\<rparr>] 0x800000 p) = {f. 0x100 \<le> f \<and> f < 0x800}"
proof -
  have rs: "reserved_frames 0x6000 0x800000 = 7" by (simp add: reserved_frames_def page_align_up_def)
  show ?thesis
    by (auto simp: free_set_pmm_init rs region_frames_def page_align_up_def intro: order_trans [of _ "0x100"])
qed

lemma big_frames: "card (free_set (pmm_init 0x6000 [\<lparr>r_base = 0x100000, r_len = 0x700000\<rparr>] 0x800000 p)) = 1792"
proof -
  have "free_set (pmm_init 0x6000 [\<lparr>r_base = 0x100000, r_len = 0x700000\<rparr>] 0x800000 p) = {f. 0x100 \<le> f \<and> f < 0x800}"
    by (rule big_free)
  also have "\<dots> = of_nat ` {0x100..<0x800}" using of_nat_range [of "0x100" "0x800"] by simp
  also have "card \<dots> = card {0x100..<0x800 :: nat}"
  proof (rule card_image, rule inj_onI)
    fix x y :: nat assume a: "x \<in> {0x100..<0x800}" "y \<in> {0x100..<0x800}" "(of_nat x :: u64) = of_nat y"
    have "unat (of_nat z :: u64) = z" if "z \<in> {0x100..<0x800}" for z
      using that by (simp add: unat_of_nat take_bit_nat_eq_self)
    with a show "x = y" by metis
  qed
  finally show ?thesis by simp
qed

lemma big_count: "unat (free_frames (boot_pmm big_boot p)) = 1792"
proof -
  have "count_ok (pmm_init 0x6000 [\<lparr>r_base = 0x100000, r_len = 0x700000\<rparr>] 0x800000 p)" by (rule count_ok_pmm_init)
  then show ?thesis by (simp add: boot_pmm_def big_boot_def demo_boot_def count_ok_def big_frames)
qed

lemma big_fits: "boot_fits big_boot p" "tables_placed 0x1000 0x2000 0x3000 (b_kernel_end big_boot) blank_paging"
  "static_zero big_start"
proof -
  show "boot_fits big_boot p"
    using big_count [of p] by (simp add: boot_fits_def word_le_nat_alt) (simp add: big_boot_def demo_boot_def)
  show "tables_placed 0x1000 0x2000 0x3000 (b_kernel_end big_boot) blank_paging"
    by (simp add: tables_placed_def big_boot_def blank_paging_def aligned_def)
  show "static_zero big_start" using zero_kstate_static by (simp add: static_zero_def big_start_def)
qed

theorem boot_completes_witness:
  "\<exists>s'. kmain big_boot big_start = Some s' \<and> loaded (pg s') (progs s' 11) \<and>
     rip (tf (threads (isr_handler demo_env timer_frame s') 0)) = pr_base (progs s' 0)"
  using boot_completes [OF big_fits(3) big_fits(2) _ big_fits(1), of timer_frame demo_env]
  by (auto simp: big_start_def timer_frame_def)

end
