(* ===== verification/Confine.thy ===== *)
theory Confine
  imports KMain
begin

text \<open>
  What a program can bring about through the kernel.  Authority (capability tables) changes
  only by the system calls that grant it, and a kernel entry writes to an I/O port only if the
  port is one of the kernel's own or the caller holds a capability for it.
\<close>

section \<open>Authority that does not change\<close>

definition same_caps :: "kstate \<Rightarrow> kstate \<Rightarrow> bool" where
  "same_caps s s' \<longleftrightarrow> (\<forall>i. ctable (threads s' i) = ctable (threads s i))"

lemma same_caps_refl [simp]: "same_caps s s"
  by (simp add: same_caps_def)

lemma same_caps_trans: "same_caps s s' \<Longrightarrow> same_caps s' s'' \<Longrightarrow> same_caps s s''"
  by (simp add: same_caps_def)

lemma same_capsD: "same_caps s s' \<Longrightarrow> ctable (threads s' i) = ctable (threads s i)"
  by (simp add: same_caps_def)

lemma same_caps_upd: "(\<And>t. ctable (f t) = ctable t) \<Longrightarrow> same_caps s (upd_thr p f s)"
  by (simp add: same_caps_def)

lemma same_caps_cong: "threads s' = threads s \<Longrightarrow> same_caps s s'"
  by (simp add: same_caps_def)

lemma same_caps_schedule: "same_caps s u \<Longrightarrow> same_caps s (schedule u)"
  by (simp add: same_caps_def)

lemma same_caps_stop: "same_caps s u \<Longrightarrow> same_caps s (stop_at k p u)"
  by (simp add: same_caps_def stop_at_def)

lemma same_caps_rax: "same_caps s u \<Longrightarrow> same_caps s (set_rax p v u)"
  by (simp add: same_caps_def set_rax_def)

lemma set_rax_ctable [simp]: "ctable (threads (set_rax p v s) j) = ctable (threads s j)"
  by (simp add: set_rax_def)

lemma same_caps_fields [simp]:
  "same_caps s (u\<lparr>pg := a\<rparr>) = same_caps s u" "same_caps s (u\<lparr>g_ticks := b\<rparr>) = same_caps s u"
  "same_caps s (u\<lparr>tss_rsp0 := c\<rparr>) = same_caps s u" "same_caps s (emit os u) = same_caps s u"
  "same_caps s (kernel_fault env u) = same_caps s u" "same_caps s (page_fault_panic ad fr u) = same_caps s u"
  "same_caps s (panic_exception fr u) = same_caps s u"
  by (simp_all add: same_caps_def panic_exception_def page_fault_panic_def)

lemmas same_caps_intros = same_caps_refl same_caps_upd same_caps_schedule same_caps_stop same_caps_rax

lemma same_caps_send: "ipc_send_locked s p d m = (s', r) \<Longrightarrow> same_caps s s'"
  by (erule ipc_send_cases) (auto simp: same_caps_def deliver_def stage_send_def)

lemma same_caps_recv: "ipc_recv_locked s p src out = (s', r) \<Longrightarrow> same_caps s s'"
  by (erule ipc_recv_cases) (auto simp: same_caps_def release_sender_def stage_recv_def)

lemma same_caps_resumes:
  "same_caps s (fst (ipc_send_resume s p))" "same_caps s (fst (ipc_recv_resume s p out))"
  by (auto simp: same_caps_def ipc_send_resume_def ipc_recv_resume_def)

lemma same_caps_upd': "same_caps s u \<Longrightarrow> (\<And>t. ctable (f t) = ctable t) \<Longrightarrow> same_caps s (upd_thr p f u)"
  by (simp add: same_caps_def)

lemma same_caps_finish_recv: "same_caps s u \<Longrightarrow> same_caps s (finish_recv env p from m u)"
  by (auto simp: finish_recv_def Let_def split: option.split intro!: same_caps_rax same_caps_upd')

lemma same_caps_verdict: "same_caps s u \<Longrightarrow> same_caps s (fst (fault_verdict p m u))"
  by (auto simp: fault_verdict_def intro!: same_caps_schedule same_caps_stop same_caps_upd')

lemma same_caps_wait: "same_caps s u \<Longrightarrow> same_caps s (fst (fault_wait env p u))"
  by (auto simp: fault_wait_def split: prod.split option.split
      intro!: same_caps_verdict same_caps_schedule same_caps_stop
      dest!: same_caps_recv intro: same_caps_trans)

lemma same_caps_run_kont: "same_caps s (fst (run_kont env p s))"
proof -
  have "same_caps s (fst (ipc_recv_resume s p out))" for out by (rule same_caps_resumes)
  then show ?thesis
    by (auto simp: run_kont_def Let_def case_prod_beta user_bootstrap_def arch_enter_user_def
        split: kont.split
        intro!: same_caps_stop same_caps_upd' same_caps_rax same_caps_finish_recv same_caps_verdict
          same_caps_wait same_caps_resumes)
qed

lemma same_caps_resume: "same_caps s (resume env s)"
proof (induction env s rule: resume.induct)
  case (1 env s)
  show ?case
  proof (cases "current s")
    case (Slot i)
    obtain s' again where r: "run_kont env (Slot i) s = (s', again)" by fastforce
    have "same_caps s s'" using same_caps_run_kont [of s env "Slot i"] r by simp
    then show ?thesis
      using 1 [OF Slot r [symmetric]] Slot r
      by (cases again) (auto simp: resume.simps [of env s] intro: same_caps_trans)
  qed (simp add: resume.simps)
qed

lemma same_caps_then: "same_caps s (fst r) \<Longrightarrow> same_caps s (then_resume env r)"
  using same_caps_resume by (auto simp: then_resume_def split: prod.split intro: same_caps_trans)

lemma same_caps_isr_parts:
  "same_caps s (save_frame f s)" "same_caps s (device_irq n s)" "same_caps s (fst (timer_irq p s))"
  "same_caps s (fst (forward_fault env p s))" "same_caps s (fst (page_fault env p f s))"
proof -
  show "same_caps s (save_frame f s)" unfolding save_frame_def by (rule same_caps_upd) simp
  have n: "same_caps s (upd_thr (Slot d) notify s)" for d by (rule same_caps_upd) simp
  show "same_caps s (device_irq n s)"
    by (auto simp: device_irq_def Let_def n split: option.split)
  show "same_caps s (fst (timer_irq p s))"
    by (auto simp: timer_irq_def Let_def intro!: same_caps_schedule same_caps_stop)
  show ff: "same_caps s (fst (forward_fault env p s))"
    by (auto simp: forward_fault_def split: prod.split option.split
      intro!: same_caps_wait same_caps_schedule same_caps_stop dest!: same_caps_send)
  show "same_caps s (fst (page_fault env p f s))"
    using ff by (auto simp: page_fault_def)
qed

lemma same_caps_sys_send: "same_caps s (fst (sys_send env p f s))"
proof -
  let ?s = "upd_thr p (\<lambda>t. t\<lparr>ipc_call_to := c_int (rdi f)\<rparr>) s"
  have 1: "same_caps s ?s" by (rule same_caps_upd) simp
  have 2: "same_caps s u" if "ipc_send_locked ?s p d m = (u, r)" for u r d m
    using same_caps_trans [OF 1 same_caps_send [OF that]] .
  show ?thesis
    unfolding sys_send_def Let_def
    by (auto simp: 1 split: option.split prod.split intro!: same_caps_rax same_caps_schedule same_caps_stop dest: 2)
qed

lemma same_caps_sys_recv: "same_caps s (fst (sys_recv env p f s))"
  by (auto simp: sys_recv_def split: option.split prod.split
      intro!: same_caps_finish_recv same_caps_schedule same_caps_stop dest!: same_caps_recv)

lemma same_caps_simple:
  "same_caps s (sys_map p f s)" "same_caps s (sys_outb p f s)" "same_caps s (sys_inb env p f s)"
  "same_caps s (sys_inw env p f s)" "same_caps s (sys_tinfo p f s)" "same_caps s (sys_map_phys p f s)"
  "same_caps s (sys_irq_register p f s)"
  by (simp_all add: same_caps_def sys_map_def sys_outb_def sys_inb_def sys_inw_def sys_tinfo_def
      sys_map_phys_def sys_irq_register_def Let_def split: prod.split)

lemma same_caps_syscall:
  assumes "rax f \<noteq> SYS_SPAWN" "rax f \<noteq> SYS_GRANT_IO" "rax f \<noteq> SYS_GRANT_CAP"
  shows "same_caps s (fst (do_syscall env p f s))"
proof -
  have exit: "same_caps s (schedule (stop_at K_dead p (upd_thr p (\<lambda>t. t\<lparr>tstate := T_DEAD\<rparr>) s)))"
    by (intro same_caps_schedule same_caps_stop same_caps_upd) simp
  have rax: "same_caps s (set_rax p v s)" "same_caps s (set_rax p v (s\<lparr>g_pager_tid := x\<rparr>))"
    "same_caps s (set_rax p v (emit os s))" for v x os
    by (simp_all add: same_caps_def)
  show ?thesis
    unfolding do_syscall_def Let_def
    by (simp add: assms exit rax same_caps_sys_send same_caps_sys_recv same_caps_simple)
qed

section \<open>Where authority comes from\<close>

lemma has_port_ctable: "ctable t = ctable t' \<Longrightarrow> cap_has_port (Some t) q = cap_has_port (Some t') q"
  by (simp add: has_port_iff)

lemma has_endpoint_ctable: "ctable t = ctable t' \<Longrightarrow> cap_has_endpoint (Some t) e = cap_has_endpoint (Some t') e"
  by (simp add: has_endpoint_iff)

lemma endpoint_grant_port [simp]:
  "cap_has_port (Some (fst (endpoint_grant t e))) q = cap_has_port (Some t) q"
  by (auto simp: endpoint_grant_def has_port_set_slot free_slot_SomeD cap_covers_port_def split: option.split)

lemma port_grant_endpoint [simp]:
  "cap_has_endpoint (Some (fst (port_grant t r))) e = cap_has_endpoint (Some t) e"
  by (auto simp: port_grant_def has_endpoint_set_slot free_slot_SomeD split: option.split)

lemma create_no_caps:
  "\<not> cap_has_port (Some (create_thread_in s i n t)) q" "\<not> cap_has_endpoint (Some (create_thread_in s i n t)) e"
  by (simp_all add: create_thread_in_def cap_clear_empty)

lemma spawn_ports:
  assumes "cap_has_port (Some (threads (sys_spawn p f s) j)) q"
  shows "cap_has_port (Some (threads s j)) q"
proof -
  obtain s1 c where c: "proc_spawn s (c_int (rdi f)) = (s1, c)" by fastforce
  have "cap_has_port (Some (threads s1 j)) q"
    using assms has_port_ctable [OF set_rax_ctable]
    by (auto simp: sys_spawn_def c split: if_splits)
  with c show ?thesis
    by (cases rule: proc_spawn_cases) (auto simp: create_no_caps split: if_splits)
qed

lemma spawn_endpoints:
  assumes "cap_has_endpoint (Some (threads (sys_spawn p f s) j)) e"
  shows "cap_has_endpoint (Some (threads s j)) e \<or> p = Slot j \<and> free_thread s = Some (nat e) \<and> 0 \<le> e"
proof -
  obtain s1 c where c: "proc_spawn s (c_int (rdi f)) = (s1, c)" by fastforce
  have "cap_has_endpoint (Some (threads s1 j)) e \<or> p = Slot j \<and> 0 \<le> c \<and> e = c"
    using assms has_endpoint_ctable [OF set_rax_ctable]
    by (auto simp: sys_spawn_def c split: if_splits dest: ep.grant_only)
  with c show ?thesis
    by (cases rule: proc_spawn_cases) (auto simp: create_no_caps split: if_splits)
qed

lemma do_syscall_ports:
  assumes "cap_has_port (Some (threads (fst (do_syscall env p f s)) j)) q"
  shows "cap_has_port (Some (threads s j)) q \<or>
    rax f = SYS_GRANT_IO \<and> tid (thr s p) = 0 \<and> c_int (rdi f) = int j \<and>
    in_port_range (ucast (rsi f), ucast (rdx f)) q"
proof (cases "rax f = SYS_SPAWN \<or> rax f = SYS_GRANT_IO \<or> rax f = SYS_GRANT_CAP")
  case False
  then show ?thesis using assms has_port_ctable [OF same_capsD [OF same_caps_syscall]] by blast
next
  case True
  then show ?thesis
  proof (elim disjE)
    assume n: "rax f = SYS_SPAWN"
    then have "fst (do_syscall env p f s) = sys_spawn p f s" by (simp add: do_syscall_def Let_def)
    with assms show ?thesis by (simp add: spawn_ports)
  next
    assume n: "rax f = SYS_GRANT_IO"
    then have eq: "fst (do_syscall env p f s) = sys_grant_io p f s" by (simp add: do_syscall_def Let_def)
    show ?thesis
      using assms n unfolding eq sys_grant_io_def Let_def
      by (auto simp: has_port_ctable [OF set_rax_ctable] split: if_splits option.splits dest: io.grant_only)
  next
    assume n: "rax f = SYS_GRANT_CAP"
    then have eq: "fst (do_syscall env p f s) = sys_grant_cap p f s" by (simp add: do_syscall_def Let_def)
    show ?thesis
      using assms unfolding eq sys_grant_cap_def Let_def
      by (auto simp: has_port_ctable [OF set_rax_ctable] split: if_splits option.splits)
  qed
qed

lemma do_syscall_endpoints:
  assumes "cap_has_endpoint (Some (threads (fst (do_syscall env p f s)) j)) e"
  shows "cap_has_endpoint (Some (threads s j)) e \<or>
    rax f = SYS_SPAWN \<and> p = Slot j \<and> free_thread s = Some (nat e) \<and> 0 \<le> e \<or>
    rax f = SYS_GRANT_CAP \<and> c_int (rdi f) = int j \<and> e = c_int (rsi f) \<and>
      (tid (thr s p) = 0 \<or> cap_has_endpoint (Some (thr s p)) e)"
proof (cases "rax f = SYS_SPAWN \<or> rax f = SYS_GRANT_IO \<or> rax f = SYS_GRANT_CAP")
  case False
  then show ?thesis using assms has_endpoint_ctable [OF same_capsD [OF same_caps_syscall]] by blast
next
  case True
  then show ?thesis
  proof (elim disjE)
    assume n: "rax f = SYS_SPAWN"
    then have "fst (do_syscall env p f s) = sys_spawn p f s" by (simp add: do_syscall_def Let_def)
    with assms n spawn_endpoints show ?thesis by metis
  next
    assume n: "rax f = SYS_GRANT_IO"
    then have eq: "fst (do_syscall env p f s) = sys_grant_io p f s" by (simp add: do_syscall_def Let_def)
    show ?thesis
      using assms unfolding eq sys_grant_io_def Let_def
      by (auto simp: has_endpoint_ctable [OF set_rax_ctable] split: if_splits option.splits)
  next
    assume n: "rax f = SYS_GRANT_CAP"
    then have eq: "fst (do_syscall env p f s) = sys_grant_cap p f s" by (simp add: do_syscall_def Let_def)
    show ?thesis
      using assms n unfolding eq sys_grant_cap_def Let_def
      by (auto simp: has_endpoint_ctable [OF set_rax_ctable] split: if_splits option.splits dest: ep.grant_only)
  qed
qed

section \<open>A whole kernel entry\<close>

lemma then_resume_caps: "ctable (threads (then_resume env r) j) = ctable (threads (fst r) j)"
  using same_caps_then [OF same_caps_refl, of r env] by (simp add: same_caps_def)

lemma isr_code_same_caps:
  assumes "vec f \<noteq> SYSCALL_VECTOR"
  shows "same_caps s (isr_code env f s)"
  using assms unfolding isr_code_def Let_def
  by (auto intro!: same_caps_then intro: same_caps_trans same_caps_isr_parts)

lemma save_frame_thr [simp]:
  "ctable (threads (save_frame f s) j) = ctable (threads s j)" "tid (thr (save_frame f s) p) = tid (thr s p)"
  "free_thread (save_frame f s) = free_thread s"
  "cap_has_port (Some (thr (save_frame f s) p)) q = cap_has_port (Some (thr s p)) q"
  "cap_has_endpoint (Some (thr (save_frame f s) p)) e = cap_has_endpoint (Some (thr s p)) e"
  by (auto simp: save_frame_def free_thread_def has_port_iff has_endpoint_iff intro: first_fit_cong)

lemma isr_syscall:
  "vec f = SYSCALL_VECTOR \<Longrightarrow>
   isr_code env f s = then_resume env (do_syscall env (current s) f (save_frame f s))"
  by (simp add: isr_code_def Let_def)

lemma isr_ports:
  assumes "cap_has_port (Some (threads (isr_code env f s) j)) q"
  shows "cap_has_port (Some (threads s j)) q \<or>
    vec f = SYSCALL_VECTOR \<and> rax f = SYS_GRANT_IO \<and> tid (thr s (current s)) = 0 \<and>
    c_int (rdi f) = int j \<and> in_port_range (ucast (rsi f), ucast (rdx f)) q"
proof (cases "vec f = SYSCALL_VECTOR")
  case True
  then have "cap_has_port (Some (threads (fst (do_syscall env (current s) f (save_frame f s))) j)) q"
    using assms has_port_ctable [OF then_resume_caps] by (simp add: isr_syscall)
  from do_syscall_ports [OF this] True show ?thesis
    using has_port_ctable [OF save_frame_thr(1)] by simp
next
  case False
  then show ?thesis using assms has_port_ctable [OF same_capsD [OF isr_code_same_caps]] by blast
qed

lemma isr_endpoints:
  assumes "cap_has_endpoint (Some (threads (isr_code env f s) j)) e"
  shows "cap_has_endpoint (Some (threads s j)) e \<or>
    vec f = SYSCALL_VECTOR \<and> (rax f = SYS_SPAWN \<and> current s = Slot j \<and> free_thread s = Some (nat e) \<and> 0 \<le> e \<or>
      rax f = SYS_GRANT_CAP \<and> c_int (rdi f) = int j \<and> e = c_int (rsi f) \<and>
      (tid (thr s (current s)) = 0 \<or> cap_has_endpoint (Some (thr s (current s))) e))"
proof (cases "vec f = SYSCALL_VECTOR")
  case True
  then have "cap_has_endpoint (Some (threads (fst (do_syscall env (current s) f (save_frame f s))) j)) e"
    using assms has_endpoint_ctable [OF then_resume_caps] by (simp add: isr_syscall)
  from do_syscall_endpoints [OF this] True show ?thesis
    using has_endpoint_ctable [OF save_frame_thr(1)] by simp
next
  case False
  then show ?thesis using assms has_endpoint_ctable [OF same_capsD [OF isr_code_same_caps]] by blast
qed

section \<open>Port writes\<close>

definition kernel_ports :: "u16 set" where
  "kernel_ports = {PIC1_CMD, PIC1_DATA, PIC2_CMD, PIC2_DATA, UART_COM1}"

definition writes :: "u16 set \<Rightarrow> kstate \<Rightarrow> kstate \<Rightarrow> bool" where
  "writes P s s' \<longleftrightarrow> (\<exists>os. io_out s' = io_out s @ os \<and> fst ` set os \<subseteq> P)"

lemma writes_refl: "io_out s' = io_out s \<Longrightarrow> writes P s s'"
  by (simp add: writes_def)

lemma writes_trans: "writes P s s' \<Longrightarrow> writes P s' s'' \<Longrightarrow> writes P s s''"
  unfolding writes_def by fastforce

lemma writes_cong: "io_out s'' = io_out s' \<Longrightarrow> writes P s s'' = writes P s s'"
  by (simp add: writes_def)

lemma writes_emit: "fst ` set os \<subseteq> P \<Longrightarrow> writes P s u \<Longrightarrow> writes P s (emit os u)"
  unfolding writes_def emit_def by fastforce

lemma puts_ports: "fst ` set (puts_raw xs) \<subseteq> {UART_COM1}"
  by (auto simp: puts_raw_def hal_console_putc_def arch_uart_putc_def split: if_splits)

lemma putc_ports: "fst ` set (hal_console_putc c) \<subseteq> {UART_COM1}"
  by (auto simp: hal_console_putc_def arch_uart_putc_def split: if_splits)

lemma eoi_ports: "fst ` set (pic_send_eoi n) \<subseteq> {PIC1_CMD, PIC2_CMD}"
  by (auto simp: pic_send_eoi_def split: if_splits)

lemma mask_ports: "fst ` set (pic_set_mask m) \<subseteq> {PIC1_DATA, PIC2_DATA}"
  by (auto simp: pic_set_mask_def)

lemma writes_panic:
  assumes "UART_COM1 \<in> P"
  shows "writes P s u \<Longrightarrow> writes P s (panic_exception f u)" "writes P s u \<Longrightarrow> writes P s (page_fault_panic a f u)"
    "writes P s u \<Longrightarrow> writes P s (kernel_fault env u)"
proof -
  have sub: "fst ` set (puts_raw xs) \<subseteq> P" for xs
    using order_trans [OF puts_ports [of xs]] assms by simp
  have e: "writes P s (panic_exception f u)" if "writes P s u" for f u
  proof -
    have "fst ` set (puts_raw xs @ hal_console_putc c) \<subseteq> P" for xs c
      using puts_ports [of xs] putc_ports [of c] assms by auto
    then show ?thesis
      unfolding panic_exception_def using writes_emit [OF _ that] by (simp add: writes_def)
  qed
  have pf: "writes P s (page_fault_panic a f u)" if "writes P s u" for a f u
    unfolding page_fault_panic_def by (intro e writes_emit [OF sub that])
  show "writes P s u \<Longrightarrow> writes P s (panic_exception f u)" by (rule e)
  show "writes P s u \<Longrightarrow> writes P s (page_fault_panic a f u)" by (rule pf)
  show "writes P s u \<Longrightarrow> writes P s (kernel_fault env u)" unfolding kernel_fault_def by (rule pf)
qed

lemma io_frames [simp]:
  "io_out (set_rax p v s) = io_out s"
  "io_out (fst (ipc_send_resume s p)) = io_out s" "io_out (fst (ipc_recv_resume s p out)) = io_out s"
  "io_out (user_bootstrap p pr s) = io_out s" "io_out (save_frame f s) = io_out s"
  by (simp_all add: set_rax_def ipc_send_resume_def ipc_recv_resume_def user_bootstrap_def arch_enter_user_def
      save_frame_def)

lemma io_ipc:
  "ipc_send_locked s p d m = (s', r) \<Longrightarrow> io_out s' = io_out s"
  "ipc_recv_locked s p src out = (s', x) \<Longrightarrow> io_out s' = io_out s"
  by (erule ipc_send_cases; simp) (erule ipc_recv_cases; simp)

lemma writes_finish_recv:
  assumes "UART_COM1 \<in> P" and "writes P s u" shows "writes P s (finish_recv env p from m u)"
  using writes_panic [OF assms(1)] assms(2)
  by (auto simp: finish_recv_def Let_def writes_def split: option.split)

lemma writes_verdict: "writes P s u \<Longrightarrow> writes P s (fst (fault_verdict p m u))"
  by (simp add: fault_verdict_def writes_def)

lemma writes_wait: "writes P s u \<Longrightarrow> writes P s (fst (fault_wait env p u))"
  by (auto simp: fault_wait_def writes_def fault_verdict_def split: prod.split option.split dest!: io_ipc(2))

lemma writes_run_kont: "UART_COM1 \<in> P \<Longrightarrow> writes P s (fst (run_kont env p s))"
proof -
  assume u: "UART_COM1 \<in> P"
  have r: "writes P s (fst (ipc_recv_resume s p out))" "writes P s (fst (ipc_send_resume s p))" for out
    by (simp_all add: writes_refl)
  have c: "writes P s (stop_at k p v)" if "writes P s v" for k v
    using that by (simp add: writes_def)
  show ?thesis
    by (cases "kont (thr s p)")
       (simp_all add: run_kont_def Let_def case_prod_beta c r writes_refl writes_finish_recv [OF u]
          writes_verdict writes_wait)
qed

lemma writes_resume: "UART_COM1 \<in> P \<Longrightarrow> writes P s (resume env s)"
proof (induction env s rule: resume.induct)
  case (1 env s)
  show ?case
  proof (cases "current s")
    case (Slot i)
    obtain s' again where r: "run_kont env (Slot i) s = (s', again)" by fastforce
    have "writes P s s'" using writes_run_kont [OF 1(2), of s env "Slot i"] r by simp
    then show ?thesis
      using 1(1) [OF Slot r [symmetric] _ 1(2)] Slot r
      by (cases again) (auto simp: resume.simps [of env s] intro: writes_trans)
  qed (simp add: resume.simps writes_refl)
qed

lemma writes_then: "UART_COM1 \<in> P \<Longrightarrow> writes P s (fst r) \<Longrightarrow> writes P s (then_resume env r)"
  using writes_resume by (auto simp: then_resume_def split: prod.split intro: writes_trans)

definition allowed_ports :: "kstate \<Rightarrow> tptr \<Rightarrow> trapframe \<Rightarrow> u16 set" where
  "allowed_ports s p f = kernel_ports \<union> {q. rax f = SYS_OUTB \<and> cap_has_port (Some (thr s p)) q}"

lemma uart_allowed: "UART_COM1 \<in> kernel_ports" "UART_COM1 \<in> allowed_ports s p f"
  by (simp_all add: kernel_ports_def allowed_ports_def)

lemma io_spawn: "io_out (sys_spawn p f s) = io_out s"
proof -
  obtain s1 c where c: "proc_spawn s (c_int (rdi f)) = (s1, c)" by fastforce
  then have "io_out s1 = io_out s" by (cases rule: proc_spawn_cases) simp_all
  then show ?thesis by (simp add: sys_spawn_def c)
qed

lemma io_simple [simp]:
  "io_out (sys_map p f s) = io_out s" "io_out (sys_inb env p f s) = io_out s"
  "io_out (sys_inw env p f s) = io_out s" "io_out (sys_tinfo p f s) = io_out s"
  "io_out (sys_map_phys p f s) = io_out s" "io_out (sys_grant_io p f s) = io_out s"
  "io_out (sys_grant_cap p f s) = io_out s"
  by (simp_all add: sys_map_def sys_inb_def sys_inw_def sys_tinfo_def sys_map_phys_def sys_grant_io_def
      sys_grant_cap_def Let_def split: prod.split option.split)

lemma writes_sys_send: "UART_COM1 \<in> P \<Longrightarrow> writes P s (fst (sys_send env p f s))"
proof -
  assume u: "UART_COM1 \<in> P"
  let ?s = "upd_thr p (\<lambda>t. t\<lparr>ipc_call_to := c_int (rdi f)\<rparr>) s"
  have k: "writes P s (kernel_fault env ?s)" by (intro writes_panic(3) u writes_refl) simp
  have i: "io_out x = io_out s" if "ipc_send_locked ?s p d m = (x, r)" for d m x r
    using io_ipc(1) [OF that] by simp
  show ?thesis
    using k unfolding sys_send_def Let_def
    by (auto split: option.split prod.split intro!: writes_refl dest: i)
qed

lemma writes_sys_recv: "UART_COM1 \<in> P \<Longrightarrow> writes P s (fst (sys_recv env p f s))"
  by (auto simp: sys_recv_def split: prod.split option.split
      intro!: writes_finish_recv intro: writes_refl dest!: io_ipc(2))

lemma do_syscall_writes: "writes (allowed_ports s p f) s (fst (do_syscall env p f s))"
proof -
  let ?P = "allowed_ports s p f"
  note uart = uart_allowed(2) [of s p f]
  have e: "writes ?P s (set_rax p v (emit os u))" if "fst ` set os \<subseteq> ?P" "io_out u = io_out s" for os u v
    using writes_emit [OF that(1) writes_refl [OF that(2)]] by (simp add: writes_def)
  have r: "writes ?P s (set_rax p v u)" if "io_out u = io_out s" for v u
    using that by (simp add: writes_refl)
  have putc: "fst ` set (hal_console_putc c) \<subseteq> ?P" for c
    using order_trans [OF putc_ports [of c]] uart by simp
  have mask: "fst ` set (pic_set_mask m) \<subseteq> ?P" for m
    using order_trans [OF mask_ports [of m], of ?P] by (simp add: allowed_ports_def kernel_ports_def)
  have out: "writes ?P s (sys_outb p f s)" if n: "rax f = SYS_OUTB"
  proof (cases "cap_has_port (Some (thr s p)) (ucast (rdi f))")
    case True
    then have "fst ` set [(ucast (rdi f) :: u16, ucast (rsi f) :: u8)] \<subseteq> ?P"
      using n by (simp add: allowed_ports_def)
    then show ?thesis using True e by (simp add: sys_outb_def)
  qed (simp add: sys_outb_def r)
  have irq: "writes ?P s (sys_irq_register p f s)"
    using e mask r by (simp add: sys_irq_register_def Let_def)
  show ?thesis
    unfolding do_syscall_def Let_def
    by (simp add: e [OF putc] r writes_sys_send [OF uart] writes_sys_recv [OF uart] out irq
        writes_refl io_spawn)
qed

lemma allowed_save_frame: "allowed_ports (save_frame f s) p g = allowed_ports s p g"
  by (simp add: allowed_ports_def)

lemma writes_forward: "writes P s (fst (forward_fault env p s))"
  by (auto simp: forward_fault_def split: prod.split option.split
      intro!: writes_wait intro: writes_refl dest!: io_ipc(1))

lemma isr_writes:
  "writes (kernel_ports \<union> {q. vec f = SYSCALL_VECTOR \<and> rax f = SYS_OUTB \<and> cap_has_port (Some (thr s (current s))) q})
     s (isr_code env f s)"
proof -
  define P where "P = kernel_ports \<union> {q. vec f = SYSCALL_VECTOR \<and> rax f = SYS_OUTB \<and> cap_has_port (Some (thr s (current s))) q}"
  let ?s = "save_frame f s" and ?p = "current s"
  have u: "UART_COM1 \<in> P" by (simp add: P_def kernel_ports_def)
  have 0: "writes Q s v" if "writes Q ?s v" for Q v using that by (simp add: writes_def)
  have eoi: "fst ` set (pic_send_eoi n) \<subseteq> P" for n
    using order_trans [OF eoi_ports [of n], of P] by (simp add: P_def kernel_ports_def)
  have "io_out (fst (timer_irq ?p ?s)) = io_out ?s @ pic_send_eoi 0"
    by (simp add: timer_irq_def Let_def emit_def)
  then have "writes P ?s (fst (timer_irq ?p ?s))" using eoi [of 0] by (simp add: writes_def)
  then have t: "writes P s (then_resume env (timer_irq ?p ?s))" by (intro 0 writes_then u)
  have y: "writes P s (then_resume env (do_syscall env ?p f ?s))" if "vec f = SYSCALL_VECTOR"
  proof -
    have "allowed_ports ?s ?p f \<subseteq> P" using that by (auto simp: P_def allowed_ports_def)
    then have "writes P ?s (fst (do_syscall env ?p f ?s))"
      using do_syscall_writes [of ?s ?p f env] unfolding writes_def by blast
    then show ?thesis by (intro 0 writes_then u)
  qed
  have "writes P ?s (page_fault_panic a f ?s)" for a
    by (rule writes_panic(2) [OF u writes_refl [OF refl]])
  then have f: "writes P s (then_resume env (page_fault env ?p f ?s))"
    by (intro 0 writes_then u) (simp add: page_fault_def writes_forward)
  have x: "writes P s (panic_exception f ?s)"
    by (intro 0 writes_panic(1) u writes_refl) simp
  have d: "writes P s (device_irq n ?s)" for n
    unfolding device_irq_def Let_def
    by (intro 0 writes_emit eoi writes_refl) (simp split: option.split)
  show ?thesis
    unfolding P_def [symmetric] using t y f x d unfolding isr_code_def Let_def by (simp add: writes_refl)
qed

section \<open>A concrete state\<close>

text \<open>The root task runs in slot 0; slots 1 to 3 hold threads that wait to run.\<close>

definition demo_kstate :: kstate where
  "demo_kstate = zero_kstate\<lparr>threads := (\<lambda>i.
       if i = 0 then zero_thread\<lparr>tstate := T_RUNNING, kont := K_user, tid := 0, ipc_call_to := - 1\<rparr>
       else if i \<le> 3 then zero_thread\<lparr>tstate := T_RUNNABLE, kont := K_user, tid := int i, ipc_call_to := - 1\<rparr>
       else zero_thread\<lparr>tid := int i, ipc_call_to := - 1\<rparr>), current := Slot 0\<rparr>"

section \<open>Properties\<close>

text \<open>C6: As long as no store hits the memory of the kernel, a thread comes to hold authority over an
  I/O port only by a SYS\_GRANT\_IO that the root task (tid 0) makes for a range covering that
  port.\<close>

theorem port_authority_source:
  assumes "cap_has_port (Some (threads (isr_handler env f s) j)) q"
    and "\<not> cap_has_port (Some (threads s j)) q" and "\<not> clobbered (pg (isr_handler env f s))"
  shows "vec f = SYSCALL_VECTOR \<and> rax f = SYS_GRANT_IO \<and> tid (thr s (current s)) = 0 \<and>
    c_int (rdi f) = int j \<and> in_port_range (ucast (rsi f), ucast (rdx f)) q"
  using isr_ports [of env f s j q] isr_code_eq(1) [OF assms(3)] assms(1,2) by metis

theorem port_authority_source_witness:
  "cap_has_port (Some (threads (isr_handler demo_env (syscall_frame SYS_GRANT_IO 1 0x3F8 8) demo_kstate) 1)) 0x3FB \<and>
   tid (thr demo_kstate (current demo_kstate)) = 0"
proof -
  have "cap_has_port (Some (threads (isr_handler demo_env (syscall_frame SYS_GRANT_IO 1 0x3F8 8) demo_kstate) 1)) 0x3FB"
    "\<not> cap_has_port (Some (threads demo_kstate 1)) 0x3FB"
    "\<not> clobbered (pg (isr_handler demo_env (syscall_frame SYS_GRANT_IO 1 0x3F8 8) demo_kstate))"
    by code_simp+
  then show ?thesis using port_authority_source by blast
qed

text \<open>C7: As long as no store hits the memory of the kernel, a thread comes to hold an endpoint only
  as the parent of the thread it has just
  spawned, or by a SYS\_GRANT\_CAP of the root task or of a thread that holds the endpoint itself.\<close>

theorem endpoint_authority_source:
  assumes "cap_has_endpoint (Some (threads (isr_handler env f s) j)) e"
    and "\<not> cap_has_endpoint (Some (threads s j)) e" and "\<not> clobbered (pg (isr_handler env f s))"
  shows "vec f = SYSCALL_VECTOR \<and> (rax f = SYS_SPAWN \<and> current s = Slot j \<and> free_thread s = Some (nat e) \<or>
    rax f = SYS_GRANT_CAP \<and> c_int (rdi f) = int j \<and> e = c_int (rsi f) \<and>
      (tid (thr s (current s)) = 0 \<or> cap_has_endpoint (Some (thr s (current s))) e))"
  using isr_endpoints [of env f s j e] isr_code_eq(1) [OF assms(3)] assms(1,2) by metis

theorem endpoint_authority_source_witness:
  "cap_has_endpoint (Some (threads (isr_handler demo_env (syscall_frame SYS_GRANT_CAP 2 1 0) demo_kstate) 2)) 1 \<and>
   c_int 2 = int 2"
proof -
  have "cap_has_endpoint (Some (threads (isr_handler demo_env (syscall_frame SYS_GRANT_CAP 2 1 0) demo_kstate) 2)) 1"
    "\<not> cap_has_endpoint (Some (threads demo_kstate 2)) 1" "rdi (syscall_frame SYS_GRANT_CAP 2 1 0) = 2"
    "rax (syscall_frame SYS_GRANT_CAP 2 1 0) \<noteq> SYS_SPAWN"
    "\<not> clobbered (pg (isr_handler demo_env (syscall_frame SYS_GRANT_CAP 2 1 0) demo_kstate))"
    by code_simp+
  then show ?thesis using endpoint_authority_source by metis
qed

text \<open>C8: Whatever the entry, the kernel writes only to its own ports (interrupt controllers and
  serial port), and beyond these only to ports the calling program holds a capability for, on its
  SYS\_OUTB.\<close>

theorem port_writes_confined:
  "\<exists>os. io_out (isr_handler env f s) = io_out s @ os \<and>
     fst ` set os \<subseteq> kernel_ports \<union>
       {q. vec f = SYSCALL_VECTOR \<and> rax f = SYS_OUTB \<and> cap_has_port (Some (thr s (current s))) q}"
  using isr_writes [of f s env] by (simp add: writes_def)

lemma ipc_send_allowed_iff:
  "ipc_send_allowed s t dest \<longleftrightarrow> tid t = 0 \<or> dest = 0 \<or> cap_has_endpoint (Some t) dest \<or>
     (\<exists>d<SCHED_MAX_THREADS. dest = int d \<and> (ipc_call_to (threads s d) = tid t \<or>
        tstate (threads s d) = T_BLOCKED \<and> ipc_state (threads s d) = IPC_RECEIVING \<and> ipc_peer (threads s d) = tid t))"
  by (auto simp: ipc_send_allowed_def Let_def split: option.splits)

lemma send_refused:
  assumes "vec f = SYSCALL_VECTOR" and "rax f = SYS_SEND" and "t = thr s (current s)"
    and "tid t \<noteq> 0" and "c_int (rdi f) \<noteq> 0" and "\<not> cap_has_endpoint (Some t) (c_int (rdi f))"
    and "\<And>d. d < SCHED_MAX_THREADS \<Longrightarrow> c_int (rdi f) = int d \<Longrightarrow> ipc_call_to (threads s d) \<noteq> tid t \<and>
      \<not> (tstate (threads s d) = T_BLOCKED \<and> ipc_state (threads s d) = IPC_RECEIVING \<and> ipc_peer (threads s d) = tid t)"
  shows "isr_handler env f s = set_rax (current s) ERR (save_frame f s)"
proof -
  let ?s = "save_frame f s" and ?p = "current s"
  have d: "ipc_call_to (threads ?s j) = ipc_call_to (threads s j)" "tstate (threads ?s j) = tstate (threads s j)"
    "ipc_state (threads ?s j) = ipc_state (threads s j)" "ipc_peer (threads ?s j) = ipc_peer (threads s j)" for j
    by (auto simp: save_frame_def)
  have "\<not> ipc_send_allowed ?s (thr ?s ?p) (c_int (rdi f))"
    using assms(3-7) unfolding ipc_send_allowed_iff by (auto simp: d)
  then have eq: "isr_code env f s = set_rax ?p ERR ?s"
    using assms(1,2) by (simp add: isr_syscall do_syscall_def Let_def sys_send_def then_resume_def)
  have "isr_handler env f s = isr_code env f s" by (rule isr_code_eq(2)) (simp add: eq)
  with eq show ?thesis by simp
qed

text \<open>C9: A SEND is refused, with -1 and no other effect, unless the caller or the destination is
  the root task, the caller holds the endpoint, or the destination has an open call to the caller
  or is blocked receiving from the caller in particular.\<close>

theorem send_mediation:
  assumes "vec f = SYSCALL_VECTOR" and "rax f = SYS_SEND" and "t = thr s (current s)"
    and "tid t \<noteq> 0" and "c_int (rdi f) \<noteq> 0" and "\<not> cap_has_endpoint (Some t) (c_int (rdi f))"
    and "\<And>d. d < SCHED_MAX_THREADS \<Longrightarrow> c_int (rdi f) = int d \<Longrightarrow> ipc_call_to (threads s d) \<noteq> tid t \<and>
      \<not> (tstate (threads s d) = T_BLOCKED \<and> ipc_state (threads s d) = IPC_RECEIVING \<and> ipc_peer (threads s d) = tid t)"
  shows "isr_handler env f s = set_rax (current s) ERR (save_frame f s)"
  using assms by (rule send_refused)

theorem send_mediation_witness:
  "isr_handler demo_env (syscall_frame SYS_SEND 2 0x100 0) (demo_kstate\<lparr>current := Slot 1\<rparr>) =
   set_rax (Slot 1) ERR (save_frame (syscall_frame SYS_SEND 2 0x100 0) (demo_kstate\<lparr>current := Slot 1\<rparr>))"
proof -
  have d: "c_int 2 = 2" by code_simp
  have "\<not> cap_has_endpoint (Some (threads demo_kstate 1)) 2" by code_simp
  then show ?thesis
    using send_mediation [of "syscall_frame SYS_SEND 2 0x100 0" "threads demo_kstate 1" "demo_kstate\<lparr>current := Slot 1\<rparr>" demo_env]
    by (simp add: syscall_frame_def d demo_kstate_def)
qed

text \<open>An exception other than a page fault stops the whole machine, also when a user program
  causes it: the kernel panics and makes no further step.\<close>

theorem user_exception_panics:
  assumes "vec f < VEC_IRQ_BASE" and "vec f \<noteq> VEC_PF"
  shows "halted (isr_handler env f s) \<and> \<not> kstep (isr_handler env f s) s'"
proof -
  have "vec f \<noteq> VEC_TIMER" "vec f \<noteq> SYSCALL_VECTOR" using assms(1) by auto
  then have eq: "isr_code env f s = panic_exception f (save_frame f s)"
    using assms by (simp add: isr_code_def Let_def)
  have "isr_handler env f s = isr_code env f s" by (rule isr_code_eq(2)) (simp add: eq)
  then have "halted (isr_handler env f s)" by (simp add: eq panic_exception_def)
  then show ?thesis by (auto elim: kstepE)
qed

theorem user_exception_panics_witness:
  "halted (isr_handler demo_env (zero_tf\<lparr>vec := 0, cs := USER_CS\<rparr>) demo_kstate)"
  using user_exception_panics [of "zero_tf\<lparr>vec := 0, cs := USER_CS\<rparr>"] by simp

text \<open>C30: A SEND or RECV whose buffer pointer is not mapped stops the machine: a permitted SEND
  reads the message before it does anything else, and the page fault this causes is the kernel's
  own.\<close>

theorem bad_pointer_panics:
  assumes "vec f = SYSCALL_VECTOR" and "rax f = SYS_SEND" and "\<not> msg_mapped (pg s) (rsi f)"
    and "tid (thr s (current s)) = 0 \<or> c_int (rdi f) = 0 \<or> cap_has_endpoint (Some (thr s (current s))) (c_int (rdi f))"
  shows "halted (isr_handler env f s)"
proof -
  let ?s = "save_frame f s" and ?p = "current s"
  have pg: "pg ?s = pg s" by (simp add: save_frame_def)
  have "ipc_send_allowed ?s (thr ?s ?p) (c_int (rdi f))"
    unfolding ipc_send_allowed_iff save_frame_thr using assms(4) by blast
  moreover have "copy_in (pg s) (rsi f) = None" using assms(3) by (simp add: copy_in_def)
  ultimately have "fst (do_syscall env ?p f ?s) =
      kernel_fault env (upd_thr ?p (\<lambda>t. t\<lparr>ipc_call_to := c_int (rdi f)\<rparr>) ?s) \<and>
      \<not> snd (do_syscall env ?p f ?s)"
    using assms(2) by (simp add: do_syscall_def Let_def sys_send_def pg)
  then have eq: "isr_code env f s = kernel_fault env (upd_thr ?p (\<lambda>t. t\<lparr>ipc_call_to := c_int (rdi f)\<rparr>) ?s)"
    using assms(1) by (simp add: isr_syscall then_resume_def case_prod_beta)
  have "isr_handler env f s = isr_code env f s" by (rule isr_code_eq(2)) (simp add: eq)
  then show ?thesis by (simp add: eq kernel_fault_def page_fault_panic_def panic_exception_def)
qed

theorem bad_pointer_panics_witness:
  "halted (isr_handler demo_env (syscall_frame SYS_SEND 0 0x700000000000 0) (demo_kstate\<lparr>current := Slot 1\<rparr>))"
proof -
  have "\<not> msg_mapped (pg demo_kstate) 0x700000000000" by code_simp
  then show ?thesis
    by (intro bad_pointer_panics) (simp_all add: syscall_frame_def c_int_def)
qed

end
