(* ===== verification/Fair.thy ===== *)
theory Fair
  imports Confine
begin

text \<open>
  What happens to a thread that waits to run while others use the kernel.  Nothing that other
  threads or devices do changes it (\<open>keeps\<close>), and each call of \<open>schedule\<close> brings the round-robin
  scan nearer to it, so it runs after a bounded number of timer ticks.
\<close>

section \<open>A thread that waits is left alone\<close>

definition keeps :: "nat \<Rightarrow> kstate \<Rightarrow> kstate \<Rightarrow> bool" where
  "keeps j s s' \<longleftrightarrow> current s' = current s \<and> g_on_tick s' = g_on_tick s \<and>
     (\<forall>i. tid (threads s' i) = tid (threads s i)) \<and>
     tstate (threads s' j) = tstate (threads s j) \<and> kont (threads s' j) = kont (threads s j) \<and>
     ipc_state (threads s' j) = ipc_state (threads s j) \<and> ipc_buf (threads s' j) = ipc_buf (threads s j) \<and>
     ipc_from (threads s' j) = ipc_from (threads s j) \<and> tf (threads s' j) = tf (threads s j)"

definition parked :: "nat \<Rightarrow> kstate \<Rightarrow> bool" where
  "parked j s \<longleftrightarrow> j < SCHED_MAX_THREADS \<and> tstate (threads s j) = T_RUNNABLE \<and> current s \<noteq> Slot j"

lemma emit_on_tick [simp]: "g_on_tick (emit os s) = g_on_tick s"
  by (simp add: emit_def)

lemma keeps_refl [simp]: "keeps j s s"
  by (simp add: keeps_def)

lemma keeps_trans: "keeps j s s' \<Longrightarrow> keeps j s' s'' \<Longrightarrow> keeps j s s''"
  by (simp add: keeps_def)

lemma keeps_parked: "keeps j s s' \<Longrightarrow> parked j s \<Longrightarrow> parked j s'"
  by (simp add: keeps_def parked_def)

lemma keeps_upd_other:
  "keeps j s u \<Longrightarrow> p \<noteq> Slot j \<Longrightarrow> (\<And>t. tid (f t) = tid t) \<Longrightarrow> keeps j s (upd_thr p f u)"
  by (simp add: keeps_def)

lemma keeps_cong:
  "keeps j s u \<Longrightarrow> threads u' = threads u \<Longrightarrow> current u' = current u \<Longrightarrow> g_on_tick u' = g_on_tick u \<Longrightarrow> keeps j s u'"
  by (simp add: keeps_def)

lemma keeps_fields [simp]:
  "keeps j s (u\<lparr>pg := a\<rparr>) = keeps j s u" "keeps j s (u\<lparr>g_ticks := b\<rparr>) = keeps j s u"
  "keeps j s (u\<lparr>tss_rsp0 := c\<rparr>) = keeps j s u" "keeps j s (emit os u) = keeps j s u"
  "keeps j s (u\<lparr>g_pager_tid := d\<rparr>) = keeps j s u" "keeps j s (u\<lparr>g_irq_tid := e\<rparr>) = keeps j s u"
  "keeps j s (u\<lparr>g_irq_mask := g\<rparr>) = keeps j s u" "keeps j s (u\<lparr>halted := h\<rparr>) = keeps j s u"
  by (simp_all add: keeps_def)

lemma keeps_panic [simp]:
  "keeps j s (kernel_fault env u) = keeps j s u" "keeps j s (page_fault_panic ad fr u) = keeps j s u"
  "keeps j s (panic_exception fr u) = keeps j s u"
  by (simp_all add: kernel_fault_def page_fault_panic_def panic_exception_def)

lemma keeps_stop: "keeps j s u \<Longrightarrow> p \<noteq> Slot j \<Longrightarrow> keeps j s (stop_at k p u)"
  unfolding stop_at_def by (rule keeps_upd_other) simp_all

lemma keeps_rax: "keeps j s u \<Longrightarrow> p \<noteq> Slot j \<Longrightarrow> keeps j s (set_rax p v u)"
  unfolding set_rax_def by (rule keeps_upd_other) simp_all

lemma keeps_send:
  assumes j: "parked j s" and p: "p \<noteq> Slot j" and r: "ipc_send_locked s p d m = (s', r)"
  shows "keeps j s s'"
  using r
proof (cases rule: ipc_send_cases)
  case (now d)
  then have "d \<noteq> j" using j by (auto simp: parked_def receiver_ready_def)
  with now show ?thesis by (auto simp: keeps_def deliver_def)
qed (use p in \<open>auto simp: keeps_def stage_send_def\<close>)

lemma keeps_recv:
  assumes j: "parked j s" and p: "p \<noteq> Slot j" and r: "ipc_recv_locked s p src out = (s', r)"
  shows "keeps j s s'"
  using r
proof (cases rule: ipc_recv_cases)
  case (sender i)
  then have "i \<noteq> j" using j find_waiting_sender_SomeD(2) [OF sender(2)] by (auto simp: parked_def)
  with sender show ?thesis by (auto simp: keeps_def release_sender_def)
qed (use p in \<open>auto simp: keeps_def stage_recv_def\<close>)

lemma keeps_resumes:
  "p \<noteq> Slot j \<Longrightarrow> keeps j s (fst (ipc_send_resume s p))"
  "p \<noteq> Slot j \<Longrightarrow> keeps j s (fst (ipc_recv_resume s p out))"
  by (auto simp: ipc_send_resume_def ipc_recv_resume_def keeps_def)

text \<open>
  What a handler of another thread leaves: a state that keeps the waiting thread, or such a state
  from which the scheduler has switched.
\<close>

definition step_keeps :: "nat \<Rightarrow> kstate \<Rightarrow> kstate \<times> bool \<Rightarrow> bool" where
  "step_keeps j s r \<longleftrightarrow> (if snd r then \<exists>u. keeps j s u \<and> fst r = schedule u else keeps j s (fst r))"

lemma step_keeps_simps [simp]:
  "step_keeps j s (u, False) = keeps j s u" "step_keeps j s (v, True) = (\<exists>u. keeps j s u \<and> v = schedule u)"
  by (simp_all add: step_keeps_def)

lemma step_keepsI: "keeps j s u \<Longrightarrow> step_keeps j s (schedule u, True)"
  by auto

lemma switch_exI: "keeps j s u \<Longrightarrow> \<exists>u'. keeps j s u' \<and> schedule u = schedule u'"
  by blast

lemma keeps_finish_recv: "keeps j s u \<Longrightarrow> p \<noteq> Slot j \<Longrightarrow> keeps j s (finish_recv env p from m u)"
  by (auto simp: finish_recv_def Let_def split: option.split intro!: keeps_rax keeps_upd_other)

lemma keeps_verdict: "keeps j s u \<Longrightarrow> p \<noteq> Slot j \<Longrightarrow> step_keeps j s (fault_verdict p m u)"
  unfolding fault_verdict_def by (simp add: keeps_stop) (metis keeps_stop keeps_upd_other thread.select_convs(3) thread.surjective thread.update_convs(2))

lemma keeps_wait:
  assumes "keeps j s u" and "parked j s" and p: "p \<noteq> Slot j"
  shows "step_keeps j s (fault_wait env p u)"
proof -
  obtain v r where r: "ipc_recv_locked u p (g_pager_tid u) (e_junk env (tid (thr u p))) = (v, r)" by fastforce
  have v: "keeps j s v" using assms keeps_recv [OF keeps_parked [OF assms(1,2)] p r] keeps_trans by blast
  show ?thesis
    by (cases r) (simp_all add: fault_wait_def r case_prod_beta keeps_verdict [OF v p]
        step_keepsI [OF keeps_stop [OF v p]] del: step_keeps_simps(2))
qed

lemma keeps_run_kont:
  assumes j: "parked j s" and p: "p \<noteq> Slot j"
  shows "step_keeps j s (run_kont env p s)"
  using keeps_resumes [OF p, of s] keeps_wait [OF keeps_resumes(1) [OF p] j p]
  by (cases "kont (thr s p)")
     (auto simp: run_kont_def Let_def case_prod_beta user_bootstrap_def arch_enter_user_def
        intro!: keeps_stop keeps_upd_other keeps_rax keeps_finish_recv keeps_verdict p)


lemma keeps_upd_grant:
  "keeps j s u \<Longrightarrow> keeps j s (upd_thr (Slot d) (\<lambda>t. fst (endpoint_grant (threads u d) e)) u)"
  "keeps j s u \<Longrightarrow> keeps j s (upd_thr (Slot d) (\<lambda>t. fst (port_grant (threads u d) q)) u)"
  by (auto simp: keeps_def endpoint_grant_def port_grant_def set_slot_frame split: option.split)

lemma keeps_spawn:
  assumes j: "parked j s" and p: "p \<noteq> Slot j"
  shows "keeps j s (sys_spawn p f s)"
proof -
  obtain s1 c where c: "proc_spawn s (c_int (rdi f)) = (s1, c)" by fastforce
  then have "keeps j s s1"
  proof (cases rule: proc_spawn_cases)
    case (new i)
    then have "i \<noteq> j" using j free_thread_SomeD [OF new(1)] by (auto simp: parked_def)
    with new show ?thesis by (auto simp: keeps_def)
  qed simp_all
  then have "keeps j s (upd_thr p (\<lambda>t. fst (endpoint_grant t c)) s1)"
    using p by (rule keeps_upd_other) (simp add: endpoint_grant_def set_slot_frame split: option.split)
  with \<open>keeps j s s1\<close> show ?thesis
    by (simp add: sys_spawn_def c Let_def keeps_rax p)
qed

lemma keeps_simple [simp]:
  assumes "keeps j s u" and "p \<noteq> Slot j"
  shows "keeps j s (sys_map p f u)" "keeps j s (sys_outb p f u)" "keeps j s (sys_inb env p f u)"
    "keeps j s (sys_inw env p f u)" "keeps j s (sys_tinfo p f u)" "keeps j s (sys_irq_register p f u)"
    "keeps j s (sys_map_phys p f u)" "keeps j s (sys_grant_io p f u)" "keeps j s (sys_grant_cap p f u)"
  using assms
  by (auto simp: sys_map_def sys_outb_def sys_inb_def sys_inw_def sys_tinfo_def sys_irq_register_def
      sys_map_phys_def sys_grant_io_def sys_grant_cap_def Let_def keeps_rax keeps_upd_grant
      split: prod.split option.split intro!: keeps_rax)

lemma keeps_call_to: "p \<noteq> Slot j \<Longrightarrow> keeps j s (upd_thr p (\<lambda>t. t\<lparr>ipc_call_to := d\<rparr>) s)"
  by (rule keeps_upd_other) simp_all

lemma keeps_sys_send:
  assumes j: "parked j s" and p: "p \<noteq> Slot j"
  shows "step_keeps j s (sys_send env p f s)"
proof -
  let ?s1 = "upd_thr p (\<lambda>t. t\<lparr>ipc_call_to := c_int (rdi f)\<rparr>) s"
  have s1: "keeps j s ?s1" using p by (rule keeps_call_to)
  have "keeps j s s2" if "ipc_send_locked ?s1 p d m = (s2, r)" for d m s2 r
    using keeps_trans [OF s1 keeps_send [OF keeps_parked [OF s1 j] p that]] .
  with s1 show ?thesis
    by (auto simp: sys_send_def Let_def p split: option.split prod.split intro!: keeps_rax switch_exI keeps_stop)
qed

lemma keeps_sys_recv:
  assumes j: "parked j s" and p: "p \<noteq> Slot j"
  shows "step_keeps j s (sys_recv env p f s)"
  using keeps_recv [OF j p]
  by (auto simp: sys_recv_def p split: option.split prod.split intro!: keeps_finish_recv switch_exI keeps_stop)

lemma keeps_kill: "p \<noteq> Slot j \<Longrightarrow> keeps j s (stop_at K_dead p (upd_thr p (\<lambda>t. t\<lparr>tstate := T_DEAD\<rparr>) s))"
  by (intro keeps_stop keeps_upd_other) simp_all

lemma keeps_syscall:
  assumes j: "parked j s" and p: "p \<noteq> Slot j"
  shows "step_keeps j s (do_syscall env p f s)"
  using keeps_sys_send [OF j p] keeps_sys_recv [OF j p] keeps_spawn [OF j p] keeps_kill [OF p]
  unfolding do_syscall_def Let_def by (auto simp: p keeps_rax intro!: switch_exI split: if_split)

lemma keeps_timer: "p \<noteq> Slot j \<Longrightarrow> step_keeps j s (timer_irq p s)"
  by (auto simp: timer_irq_def Let_def intro!: switch_exI keeps_stop)

lemma keeps_forward:
  assumes j: "parked j s" and p: "p \<noteq> Slot j"
  shows "step_keeps j s (forward_fault env p s)"
proof -
  obtain s1 r where r: "ipc_send_locked s p (g_pager_tid s) (fault_msg (tid (thr s p)) (e_cr2 env)) = (s1, r)"
    by fastforce
  have s1: "keeps j s s1" using keeps_send [OF j p r] .
  show ?thesis using keeps_wait [OF s1 j p] keeps_stop [OF s1 p]
    by (cases r) (auto simp: forward_fault_def r)
qed

lemma keeps_page_fault: "parked j s \<Longrightarrow> p \<noteq> Slot j \<Longrightarrow> step_keeps j s (page_fault env p f s)"
  by (simp add: page_fault_def keeps_forward)

lemma keeps_device: "parked j s \<Longrightarrow> keeps j s (device_irq n s)"
  by (auto simp: device_irq_def Let_def keeps_def parked_def split: option.split)

lemma keeps_save_frame: "current s \<noteq> Slot j \<Longrightarrow> keeps j s (save_frame f s)"
  unfolding save_frame_def by (rule keeps_upd_other) simp_all

section \<open>Each switch brings the thread nearer\<close>

text \<open>
  Either the thread gets its turn, with all it waited with intact, and goes on from there; or it
  still waits, unchanged, and is nearer to its turn by \<open>d\<close>.
\<close>

definition same_wait :: "nat \<Rightarrow> kstate \<Rightarrow> kstate \<Rightarrow> bool" where
  "same_wait j s s' \<longleftrightarrow> g_on_tick s' = g_on_tick s \<and> kont (threads s' j) = kont (threads s j) \<and>
     ipc_state (threads s' j) = ipc_state (threads s j) \<and> ipc_buf (threads s' j) = ipc_buf (threads s j) \<and>
     ipc_from (threads s' j) = ipc_from (threads s j) \<and> tf (threads s' j) = tf (threads s j)"

definition nearer :: "nat \<Rightarrow> nat \<Rightarrow> kstate \<Rightarrow> kstate \<Rightarrow> bool" where
  "nearer j d s s' \<longleftrightarrow> parked j s' \<and> scan_dist s' j + d \<le> scan_dist s j \<and> same_wait j s s'"

definition picked :: "nat \<Rightarrow> kstate \<Rightarrow> kstate \<Rightarrow> bool" where
  "picked j s s' \<longleftrightarrow> current s' = Slot j \<and> same_wait j s s'"

lemma same_wait_trans: "same_wait j s u \<Longrightarrow> same_wait j u s' \<Longrightarrow> same_wait j s s'"
  by (simp add: same_wait_def)

lemma nearer_trans: "nearer j d s u \<Longrightarrow> nearer j e u s' \<Longrightarrow> nearer j (d + e) s s'"
  by (auto simp: nearer_def dest: same_wait_trans)

lemma nearer_picked: "nearer j d s u \<Longrightarrow> picked j u s' \<Longrightarrow> picked j s s'"
  by (auto simp: nearer_def picked_def dest: same_wait_trans)

lemma nearer_weaken: "nearer j d s u \<Longrightarrow> e \<le> d \<Longrightarrow> nearer j e s u"
  by (simp add: nearer_def)

lemma scan_dist_keeps: "keeps j s u \<Longrightarrow> scan_dist u j = scan_dist s j"
  by (auto simp: scan_dist_def scan_from_def keeps_def split: tptr.split)

lemma keeps_same_wait: "keeps j s u \<Longrightarrow> same_wait j s u"
  by (simp add: keeps_def same_wait_def)

lemma keeps_nearer: "keeps j s u \<Longrightarrow> parked j s \<Longrightarrow> nearer j 0 s u"
  by (simp add: nearer_def keeps_parked scan_dist_keeps keeps_same_wait)

lemma switch_progress:
  assumes j: "parked j u" and k: "kmid (schedule u)"
  shows "current (schedule u) = Slot j \<or> parked j (schedule u) \<and> scan_dist (schedule u) j < scan_dist u j"
proof (cases "current (schedule u) = Slot j")
  case not: False
  have j': "j < SCHED_MAX_THREADS" "tstate (threads u j) = T_RUNNABLE" "current u \<noteq> Slot j"
    using j by (auto simp: parked_def)
  obtain n where n: "pick_next u = Some n" using j' pick_next_None_iff [of u] by (cases "pick_next u") auto
  have "current u \<noteq> Slot n"
  proof
    assume "current u = Slot n"
    moreover from this have "schedule u = u" by (simp add: schedule_def switch_target_def n)
    ultimately show False using kmid_current(2) [OF k] pick_next_SomeD(2) [OF n] by simp
  qed
  then have cur: "current (schedule u) = Slot n" by (simp add: schedule_def switch_target_def n)
  have le: "scan_dist u n \<le> scan_dist u j" and n16: "n < SCHED_MAX_THREADS"
    using n j' by (simp_all add: pick_next_Some_iff)
  have "scan_dist u n \<noteq> scan_dist u j"
    using not cur scan_slot_dist [OF n16, of u] scan_slot_dist [OF j'(1), of u] by auto
  with le have lt: "scan_dist u n < scan_dist u j" by simp
  have from': "scan_from (schedule u) = int n + 1"
    using kmid_current(3) [OF k cur] by (simp add: scan_from_def cur)
  have "(int j - (int n + 1)) mod 16 = (int j - scan_from u) mod 16 - (int n - scan_from u) mod 16 - 1"
    using lt unfolding scan_dist_def by (intro cyclic_dist_step) simp
  then have "scan_dist (schedule u) j < scan_dist u j"
    using lt unfolding scan_dist_def from' by auto
  moreover have "parked j (schedule u)"
    using schedule_other_state [OF j'(3) not] j' not by (simp add: parked_def)
  ultimately show ?thesis by blast
qed simp

lemma schedule_same_wait: "same_wait j u (schedule u)"
  by (simp add: same_wait_def)

lemma switch_turn:
  assumes k: "keeps j s u" and j: "parked j s" and mid: "kmid (schedule u)"
  shows "picked j s (schedule u) \<or> nearer j 1 s (schedule u)"
proof -
  have u: "parked j u" using keeps_parked [OF k j] .
  have w: "same_wait j s (schedule u)"
    using same_wait_trans [OF keeps_same_wait [OF k] schedule_same_wait] .
  from switch_progress [OF u mid] show ?thesis
    using scan_dist_keeps [OF k] w by (auto simp: picked_def nearer_def)
qed

lemma step_turn:
  assumes "step_keeps j s r" "parked j s" "hok r"
  shows "snd r \<and> picked j s (fst r) \<or> nearer j (of_bool (snd r)) s (fst r)"
  using assms switch_turn keeps_nearer by (cases r; cases "snd r") auto

section \<open>The turn of the thread\<close>

text \<open>A thread that is not in the middle of a fault returns to user mode when it is resumed.\<close>

lemma run_kont_quick:
  assumes "kont_weight (kont (thr s p)) = 0"
  shows "snd (run_kont env p s) = False" "current (fst (run_kont env p s)) = current s"
  using assms
  by (auto simp: run_kont_def kont_weight_def Let_def user_bootstrap_def arch_enter_user_def ipc_send_resume_def
      ipc_recv_resume_def finish_recv_def set_rax_def stop_at_def split: kont.split option.split)

lemma resume_own:
  assumes "current s = Slot j" and "kont_weight (kont (threads s j)) = 0"
  shows "resume env s = fst (run_kont env (Slot j) s)"
  using run_kont_quick(1) [of s "Slot j" env] assms
  by (subst resume.simps) (simp add: case_prod_beta)

text \<open>\<open>I\<close> holds of the state in which the thread gets its turn.\<close>

definition turn :: "(kstate \<Rightarrow> bool) \<Rightarrow> kenv \<Rightarrow> nat \<Rightarrow> nat \<Rightarrow> kstate \<Rightarrow> kstate \<Rightarrow> bool" where
  "turn I env j d s s' \<longleftrightarrow>
     (\<exists>u. I u \<and> picked j s u \<and> s' = fst (run_kont env (Slot j) u)) \<or> nearer j d s s'"

lemma picked_resume:
  "I u \<Longrightarrow> picked j s u \<Longrightarrow> kont_weight (kont (threads s j)) = 0 \<Longrightarrow> turn I env j d s (resume env u)"
  unfolding turn_def by (intro disjI1 exI [of _ u]) (auto simp: picked_def same_wait_def resume_own)

lemma turn_nearer: "nearer j d s s' \<Longrightarrow> turn I env j d s s'"
  by (simp add: turn_def)

lemma turn_weaken: "turn I env j d s t \<Longrightarrow> e \<le> d \<Longrightarrow> turn I env j e s t"
  by (auto simp: turn_def intro: nearer_weaken)

lemma turn_trans:
  assumes n: "nearer j d s u" and t: "turn I env j e u s'"
  shows "turn I env j (d + e) s s'"
  using t nearer_picked [OF n] nearer_trans [OF n] unfolding turn_def by blast

text \<open>The handler up to the point where the kernel resumes the thread that is then current.\<close>

definition isr_entry :: "kenv \<Rightarrow> trapframe \<Rightarrow> kstate \<Rightarrow> kstate \<times> bool" where
  "isr_entry env f s =
     (let p = current s; s0 = save_frame f s in
      if vec f = VEC_TIMER then timer_irq p s0
      else if vec f = SYSCALL_VECTOR then do_syscall env p f s0
      else if vec f = VEC_PF then page_fault env p f s0
      else if vec f < VEC_IRQ_BASE then (panic_exception f s0, False)
      else
        let irq = c_int (vec f) - int (unat VEC_IRQ_BASE) in
        if irq \<ge> 0 \<and> irq < 16 then (device_irq (nat irq) s0, False) else (s0, False))"

lemma isr_code_entry: "isr_code env f s = then_resume env (isr_entry env f s)"
  by (simp add: isr_code_def isr_entry_def Let_def then_resume_def)

definition tick_of :: "trapframe \<Rightarrow> kstate \<Rightarrow> nat" where
  "tick_of f s = of_bool (vec f = VEC_TIMER \<and> g_on_tick s)"

lemma isr_entry_hok:
  assumes k: "kinv s" and may: "may_trap s f"
  shows "hok (isr_entry env f s)"
proof -
  note k0 = save_frame_kinv [OF k, of f]
  have "hok (device_irq n (save_frame f s), False)" "hok (panic_exception f (save_frame f s), False)"
    "hok (save_frame f s, False)" for n
    using device_irq_kinv [OF k0] k0 by simp_all
  moreover have "hok (do_syscall env (Slot i) f (save_frame f s))" "hok (page_fault env (Slot i) f (save_frame f s))"
    if "current s = Slot i" for i
    using do_syscall_hok [OF k0, of i] forward_fault_hok [OF kinv_kcall [OF k0, of i]] k0 that
    by (simp_all add: page_fault_def)
  ultimately show ?thesis
    using timer_irq_hok [OF k0] may
    by (cases "current s") (auto simp: isr_entry_def Let_def may_trap_def)
qed

lemma isr_entry_keeps:
  assumes j: "parked j s"
  shows "step_keeps j s (isr_entry env f s)" "tick_of f s \<le> of_bool (snd (isr_entry env f s))"
proof -
  have p: "current s \<noteq> Slot j" using j by (simp add: parked_def)
  have ks: "keeps j s (save_frame f s)" using p by (rule keeps_save_frame)
  note j0 = keeps_parked [OF ks j]
  have "step_keeps j (save_frame f s) r \<Longrightarrow> step_keeps j s r" for r
    using keeps_trans [OF ks] by (auto simp: step_keeps_def split: if_splits)
  then show "step_keeps j s (isr_entry env f s)"
    using keeps_timer [OF p] keeps_syscall [OF j0 p] keeps_page_fault [OF j0 p] keeps_device [OF j0] ks
    by (simp add: isr_entry_def Let_def)
  show "tick_of f s \<le> of_bool (snd (isr_entry env f s))"
    by (auto simp: tick_of_def isr_entry_def timer_irq_def Let_def save_frame_def emit_def)
qed

section \<open>Runs of the machine\<close>

text \<open>What happens to the machine, in order: traps, and stores of the running program.  The function
  in \<open>Store\<close> is what a store into the kernel's memory would make of the state.\<close>

datatype event = Trap kenv trapframe | Store "kstate \<Rightarrow> kstate" u64 u8

fun exec :: "event \<Rightarrow> kstate \<Rightarrow> kstate option" where
  "exec (Trap env f) s = (if \<not> halted s \<and> may_trap s f then Some (isr_handler env f s) else None)"
| "exec (Store w va b) s =
     (if \<not> halted s \<and> current s \<noteq> Idle \<and> user_writable (pg s) va
      then map_option (\<lambda>pg'. overrun w s (s\<lparr>pg := pg'\<rparr>)) (put_user (pg s) va b) else None)"

fun run :: "event list \<Rightarrow> kstate \<Rightarrow> kstate option" where
  "run [] s = Some s"
| "run (e # es) s = (case exec e s of None \<Rightarrow> None | Some u \<Rightarrow> run es u)"

definition is_tick :: "event \<Rightarrow> bool" where
  "is_tick e = (case e of Trap env f \<Rightarrow> vec f = VEC_TIMER | Store w va b \<Rightarrow> False)"

definition ticks :: "event list \<Rightarrow> nat" where
  "ticks es = length (filter is_tick es)"

text \<open>Runs whose every event is allowed where it happens.\<close>

fun allowed :: "(kstate \<Rightarrow> event \<Rightarrow> bool) \<Rightarrow> event list \<Rightarrow> kstate \<Rightarrow> bool" where
  "allowed ok [] s = True"
| "allowed ok (e # es) s = (ok s e \<and> (case exec e s of None \<Rightarrow> True | Some u \<Rightarrow> allowed ok es u))"

lemma allowed_True [simp]: "allowed (\<lambda>_ _. True) es s"
  by (induction es arbitrary: s) (auto split: option.split)

lemma exec_kstep: "exec e s = Some s' \<Longrightarrow> kstep s s'"
proof (cases e)
  case (Trap env f)
  then show "exec e s = Some s' \<Longrightarrow> kstep s s'" by (auto intro: kstep.trap split: if_splits)
next
  case (Store w va b)
  show "exec e s = Some s' \<Longrightarrow> kstep s s'"
    unfolding Store by (cases "current s") (auto intro: kstep.store split: if_splits)
qed

lemma kstep_exec: "kstep s s' \<longleftrightarrow> (\<exists>e. exec e s = Some s')"
proof
  assume "kstep s s'"
  then show "\<exists>e. exec e s = Some s'"
  proof cases
    case (trap f env)
    then show ?thesis by (intro exI [of _ "Trap env f"]) simp
  next
    case (store i va b pg' w)
    then show ?thesis by (intro exI [of _ "Store w va b"]) simp
  qed
qed (auto dest: exec_kstep)

lemma run_clobbered: "run es s = Some s' \<Longrightarrow> \<not> clobbered (pg s') \<Longrightarrow> \<not> clobbered (pg s)"
  by (induction es arbitrary: s) (auto split: option.splits dest!: exec_kstep kstep_clobbered)

section \<open>What holds when a thread gets its turn\<close>

text \<open>
  An invariant of the kernel's code between its entry and the resumption of a thread: the handlers
  keep it up to the switch, and so does each thread that is resumed.
\<close>

locale entry_invariant =
  fixes I :: "kstate \<Rightarrow> bool" and ok :: "kstate \<Rightarrow> event \<Rightarrow> bool"
  assumes entry_I: "kinv s \<Longrightarrow> I s \<Longrightarrow> may_trap s f \<Longrightarrow> ok s (Trap env f) \<Longrightarrow> I (fst (isr_entry env f s))"
    and kont_I: "I s \<Longrightarrow> i < SCHED_MAX_THREADS \<Longrightarrow> I (fst (run_kont env (Slot i) s))"
    and store_I: "I s \<Longrightarrow> user_writable (pg s) va \<Longrightarrow> put_user (pg s) va b = Some pg' \<Longrightarrow> I (s\<lparr>pg := pg'\<rparr>)"
begin

lemma resume_turn:
  "kmid s \<Longrightarrow> I s \<Longrightarrow> (parked j s \<and> kont_weight (kont (threads s j)) = 0 \<longrightarrow> turn I env j 0 s (resume env s)) \<and>
    I (resume env s)"
proof (induction env s rule: resume.induct)
  case (1 env s)
  show ?case
  proof (cases "current s")
    case Idle
    then show ?thesis using 1(3) by (simp add: resume.simps turn_nearer keeps_nearer)
  next
    case (Slot i)
    obtain u again where r: "run_kont env (Slot i) s = (u, again)" by fastforce
    have i: "i < SCHED_MAX_THREADS" using kmid_current(1) [OF 1(2) Slot] .
    have hok: "hok (u, again)" using run_kont_hok [OF 1(2) Slot, of env] r by simp
    have u: "I u" using kont_I [OF 1(3) i, of env] r by simp
    have res: "resume env s = (if again then resume env u else u)"
      using Slot r by (subst resume.simps) simp
    have IH: "again \<Longrightarrow> (parked j u \<and> kont_weight (kont (threads u j)) = 0 \<longrightarrow> turn I env j 0 u (resume env u)) \<and>
        I (resume env u)"
      using 1(1) [OF Slot r [symmetric]] hok u by simp
    have "turn I env j 0 s (resume env s)" if j: "parked j s" and q: "kont_weight (kont (threads s j)) = 0"
    proof -
      have ne: "Slot i \<noteq> Slot j" using j Slot by (auto simp: parked_def)
      have step: "again \<and> picked j s u \<or> nearer j (of_bool again) s u"
        using step_turn [OF keeps_run_kont [OF j ne] j, of env] hok r by simp
      then consider (stay) "\<not> again" "nearer j 0 s u" | (turn) again "picked j s u" | (near) again "nearer j 0 s u"
        using nearer_weaken [of j "of_bool again" s u 0] by (cases again) auto
      then show ?thesis
      proof cases
        case near
        then have "parked j u" "kont_weight (kont (threads u j)) = 0"
          using q by (simp_all add: nearer_def same_wait_def)
        with IH near turn_trans [OF near(2), of I env 0] res show ?thesis by simp
      qed (use res picked_resume [of I u j s env 0] u q in \<open>simp_all add: turn_nearer\<close>)
    qed
    then show ?thesis using res IH u by simp
  qed
qed

lemma isr_I:
  assumes "kinv s" and "I s" and "may_trap s f" and "ok s (Trap env f)"
  shows "I (isr_code env f s)"
proof -
  obtain u again where r: "isr_entry env f s = (u, again)" by fastforce
  have "kmid u" using isr_entry_hok [OF assms(1,3), of env] r by (cases again) (auto simp: kinv_kmid)
  moreover have "I u" using entry_I [OF assms] r by simp
  ultimately show ?thesis using resume_turn [of u _ env] r by (simp add: isr_code_entry then_resume_def)
qed

lemma isr_turn:
  assumes k: "kinv s" and "I s" and may: "may_trap s f" and "ok s (Trap env f)" and j: "parked j s"
    and q: "kont_weight (kont (threads s j)) = 0"
  shows "turn I env j (tick_of f s) s (isr_code env f s)"
proof -
  obtain u again where r: "isr_entry env f s = (u, again)" by fastforce
  have u: "I u" using entry_I [OF assms(1-4)] r by simp
  have res: "isr_code env f s = (if again then resume env u else u)"
    by (simp add: isr_code_entry r then_resume_def)
  note hok = isr_entry_hok [OF k may, of env, unfolded r]
  have mid: "kmid u" using hok by (cases again) (auto simp: kinv_kmid)
  have step: "again \<and> picked j s u \<or> nearer j (of_bool again) s u"
    using step_turn [OF isr_entry_keeps(1) [OF j] j isr_entry_hok [OF k may]] r by (metis fst_conv snd_conv)
  have tick: "tick_of f s \<le> of_bool again"
    using isr_entry_keeps(2) [OF j, where f = f and env = env] r by simp
  have "turn I env j (of_bool again) s (isr_code env f s)"
  proof (cases "again \<and> picked j s u")
    case True
    then show ?thesis using picked_resume [of I u j s] u q res by simp
  next
    case False
    with step have n: "nearer j (of_bool again) s u" by blast
    then have "parked j u" "kont_weight (kont (threads u j)) = 0" using q by (simp_all add: nearer_def same_wait_def)
    with resume_turn [OF mid u, of j env] turn_trans [OF n, of I env 0] n res show ?thesis
      by (auto simp: turn_nearer)
  qed
  with turn_weaken tick show ?thesis by blast
qed

text \<open>A step either gives the thread its turn or leaves it waiting, one place nearer on a tick.\<close>

lemma exec_turn:
  assumes k: "kinv s" and I: "I s" and j: "parked j s" and q: "kont_weight (kont (threads s j)) = 0"
    and e: "exec e s = Some s'" and ok: "ok s e" and c: "\<not> clobbered (pg s')"
  shows "(\<exists>env. turn I env j (of_bool (is_tick e \<and> g_on_tick s)) s s') \<and> I s' \<and> kinv s'"
proof (cases e)
  case (Trap env f)
  then have may: "may_trap s f" and s': "s' = isr_handler env f s" using e by (auto split: if_splits)
  have "s' = isr_code env f s" using isr_code_eq(1) c s' by simp
  moreover have "kinv s'" using exec_kstep [OF e] k c by (rule kstep_kinv)
  ultimately show ?thesis
    using isr_turn [OF k I may ok [unfolded Trap] j q] isr_I [OF k I may ok [unfolded Trap]] by (auto simp: Trap is_tick_def tick_of_def)
next
  case (Store w va b)
  then obtain pg' where p: "user_writable (pg s) va" "put_user (pg s) va b = Some pg'"
    "s' = overrun w s (s\<lparr>pg := pg'\<rparr>)" using e by (auto split: if_splits)
  then have s': "s' = s\<lparr>pg := pg'\<rparr>" using c by (simp add: overrun_none)
  have "nearer j 0 s s'" by (rule keeps_nearer [OF _ j]) (simp add: s')
  moreover have "kinv s'" using exec_kstep [OF e] k c by (rule kstep_kinv)
  ultimately show ?thesis using store_I [OF I p(1,2)] by (simp add: s' Store is_tick_def turn_nearer)
qed

lemma run_turn:
  assumes "kinv s" "I s" "parked j s" "kont_weight (kont (threads s j)) = 0" "g_on_tick s"
    "run es s = Some s'" "allowed ok es s" "\<not> clobbered (pg s')" "scan_dist s j < ticks es"
  shows "\<exists>n\<le>length es. \<exists>v u env. run (take n es) s = Some v \<and> I u \<and> picked j s u \<and>
    v = fst (run_kont env (Slot j) u) \<and> I v"
  using assms
proof (induction es arbitrary: s)
  case Nil
  then show ?case by (simp add: ticks_def)
next
  case (Cons e es)
  from Cons.prems(6) obtain t where e: "exec e s = Some t" and t: "run es t = Some s'"
    by (auto split: option.splits)
  have c: "\<not> clobbered (pg t)" and a: "ok s e" "allowed ok es t"
    using run_clobbered [OF t Cons.prems(8)] Cons.prems(7) e by simp_all
  from exec_turn [OF Cons.prems(1-4) e a(1) c] obtain env
    where tr: "turn I env j (of_bool (is_tick e \<and> g_on_tick s)) s t" and k: "I t" "kinv t" by blast
  from tr show ?case unfolding turn_def
  proof (elim disjE exE conjE)
    fix u assume "I u" "picked j s u" "t = fst (run_kont env (Slot j) u)"
    then show ?thesis using e k by (intro exI [of _ 1]) (auto simp del: exec.simps)
  next
    assume n: "nearer j (of_bool (is_tick e \<and> g_on_tick s)) s t"
    then have "scan_dist t j < ticks es" "parked j t" "kont_weight (kont (threads t j)) = 0" "g_on_tick t"
      using Cons.prems(4,5,9) by (auto simp: nearer_def same_wait_def ticks_def split: if_splits)
    from Cons.IH [OF k(2,1) this(2-4) t a(2) Cons.prems(8) this(1)] obtain m v u env' where
      m: "m \<le> length es" "run (take m es) t = Some v" "I u" "picked j t u" "v = fst (run_kont env' (Slot j) u)" "I v"
      by blast
    then show ?thesis using e nearer_picked [OF n]
      by (intro exI [of _ "Suc m"]) (auto simp del: exec.simps)
  qed
qed

end

interpretation free: entry_invariant "\<lambda>_. True" "\<lambda>_ _. True"
  by unfold_locales simp_all

lemma kinv_parked:
  assumes "kinv s" "j < SCHED_MAX_THREADS" "tstate (threads s j) = T_RUNNABLE"
  shows "parked j s"
  using assms kmid_current(2) [OF kinv_kmid [OF assms(1)], of j] by (auto simp: parked_def)

section \<open>A concrete run\<close>

text \<open>
  The root task runs in slot 0, and the thread in slot 1 waits for a message from anyone, to be
  put at address 0x100 of the page the small instance maps.
\<close>

definition recv_kstate :: kstate where
  "recv_kstate = zero_kstate\<lparr>threads := (\<lambda>i.
       if i = 0 then zero_thread\<lparr>tstate := T_RUNNING, kont := K_user, tid := 0, ipc_call_to := - 1\<rparr>
       else if i = 1 then zero_thread\<lparr>tstate := T_BLOCKED, kont := K_recv, tid := 1, ipc_call_to := - 1,
         ipc_state := IPC_RECEIVING, ipc_peer := IPC_ANY, tf := zero_tf\<lparr>rsi := 0x100\<rparr>\<rparr>
       else zero_thread\<lparr>tid := int i, ipc_call_to := - 1\<rparr>),
     idle := zero_thread\<lparr>tstate := T_RUNNING, tid := - 1\<rparr>, current := Slot 0, g_on_tick := True\<rparr>"

lemma recv_kstate_kinv: "kinv recv_kstate"
proof -
  have run: "running_ok recv_kstate"
    by (auto simp: recv_kstate_def running_ok_def sched_inv_def zero_thread_def zero_kstate_def)
  have "ipc_inv recv_kstate"
    by (auto simp: recv_kstate_def ipc_inv_def no_missed_def thread_ok_def in_recv_def in_send_def zero_thread_def
        is_sender_def zero_kstate_def)
  with run show ?thesis
    by (auto simp: kinv_def kmid_def tss_ok_def recv_kstate_def zero_kstate_def zero_thread_def)
qed

definition user_tick :: event where
  "user_tick = Trap demo_env (timer_frame\<lparr>cs := USER_CS\<rparr>)"

lemma tick_pg:
  assumes "vec f = VEC_TIMER" and "current s = Slot i" and k: "\<And>n. kont (threads s n) \<in> {K_user, K_dead}"
  shows "pg (isr_code env f s) = pg s"
proof -
  define s1 where "s1 = stop_at K_user (Slot i) (emit (pic_send_eoi 0) ((save_frame f s)\<lparr>g_ticks := g_ticks s + 1\<rparr>))"
  have t: "pg s1 = pg s" "kont (threads s1 n) \<in> {K_user, K_dead}" for n
    using k by (simp_all add: s1_def stop_at_def save_frame_def assms(2) emit_def)
  have res: "pg (resume env u) = pg u" if "\<And>n. kont (threads u n) \<in> {K_user, K_dead}" for u
  proof (cases "current u")
    case (Slot n)
    have "run_kont env (Slot n) u = (u, False)" using that [of n] by (auto simp: run_kont_def)
    with Slot show ?thesis by (simp add: resume.simps [of env u])
  qed (simp add: resume.simps [of env u])
  have "pg (resume env (schedule s1)) = pg (schedule s1)" by (rule res) (use t(2) in simp)
  with t(1) assms(1,2) show ?thesis
    by (auto simp: isr_code_def Let_def timer_irq_def then_resume_def s1_def save_frame_def emit_def)
qed

lemma demo_msg_in: "\<exists>m. copy_in (pg recv_kstate) 0x100 = Some m"
proof -
  have "msg_mapped demo_paging 0x100" by (auto simp: msg_mapped_def list_all_iff demo_phys demo_offset)
  then show ?thesis by (simp add: copy_in_def recv_kstate_def zero_kstate_def)
qed

section \<open>Properties\<close>

text \<open>C17: A runnable thread that does not wait for the pager's answer to a page fault runs after a
  bounded number of timer ticks, whatever the other threads, the devices and the programs do
  meanwhile, as long as nothing is stored in the kernel's memory: at most as many as there are slots
  before its own in the round-robin order, and so never more than sixteen.\<close>

theorem bounded_waiting:
  assumes "kinv s" and "g_on_tick s" and "j < SCHED_MAX_THREADS" and "tstate (threads s j) = T_RUNNABLE"
    and "kont (threads s j) \<notin> {K_fault_send, K_fault_recv}"
    and "run es s = Some s'" and "\<not> clobbered (pg s')" and "scan_dist s j < ticks es"
  shows "scan_dist s j < 16 \<and> (\<exists>n\<le>length es. \<exists>v. run (take n es) s = Some v \<and> current v = Slot j)"
proof -
  have q: "kont_weight (kont (threads s j)) = 0"
    using assms(5) by (auto simp: kont_weight_def split: kont.split)
  obtain n v u env where n: "n \<le> length es" "run (take n es) s = Some v" "picked j s u"
    and v: "v = fst (run_kont env (Slot j) u)"
    using free.run_turn [OF assms(1) TrueI kinv_parked [OF assms(1,3,4)] q assms(2,6) _ assms(7,8)] by auto
  have "current v = Slot j"
    using run_kont_quick(2) [of u "Slot j" env] n(3) q by (simp add: v picked_def same_wait_def)
  with n scan_dist_bound [of s j] show ?thesis by auto
qed

theorem bounded_waiting_witness:
  "\<exists>n\<le>1. \<exists>v. run (take n [user_tick]) (demo_kstate\<lparr>idle := idle recv_kstate, g_on_tick := True\<rparr>) = Some v \<and>
     current v = Slot 1"
proof -
  let ?s = "demo_kstate\<lparr>idle := idle recv_kstate, g_on_tick := True\<rparr>"
  have run: "running_ok ?s"
    by (auto simp: demo_kstate_def recv_kstate_def running_ok_def sched_inv_def zero_thread_def zero_kstate_def)
  have "ipc_inv ?s"
    by (auto simp: demo_kstate_def ipc_inv_def no_missed_def thread_ok_def in_recv_def in_send_def zero_thread_def
        is_sender_def zero_kstate_def)
  with run have k: "kinv ?s"
    by (auto simp: kinv_def kmid_def tss_ok_def demo_kstate_def zero_kstate_def zero_thread_def)
  have "pg (isr_code demo_env (timer_frame\<lparr>cs := USER_CS\<rparr>) ?s) = pg ?s"
    by (rule tick_pg [of _ _ 0]) (auto simp: timer_frame_def demo_kstate_def zero_thread_def)
  then have "\<exists>v. run [user_tick] ?s = Some v \<and> \<not> clobbered (pg v)"
    by (auto simp: user_tick_def demo_kstate_def may_trap_def timer_frame_def zero_kstate_def demo_paging_def)
  moreover have "scan_dist ?s 1 < ticks [user_tick]"
    by (simp add: scan_dist_def scan_from_def demo_kstate_def ticks_def is_tick_def user_tick_def timer_frame_def)
  moreover have "tstate (threads ?s 1) = T_RUNNABLE" "kont (threads ?s 1) = K_user"
    by (simp_all add: demo_kstate_def)
  ultimately show ?thesis
    using bounded_waiting [OF k, of 1 "[user_tick]"] by auto
qed

end
