(* ===== verification/MemSafe.thy ===== *)
theory MemSafe
  imports Boot Fair
begin

text \<open>
  The memory over all kernel entries: no byte that a program can reach lies in the kernel's
  memory, in a page table or in a free frame, the tables stay well formed, and what is mapped stays
  mapped.  This holds as long as programs are decent: the buffers given to RECV lie outside the
  first 512 GiB, where the boot code maps memory to itself (the kernel does not check them), and the
  root task maps only device memory by address.
\<close>

section \<open>The address space\<close>

text \<open>\<open>V\<close>: addresses whose pages are mapped.\<close>

definition mem_ok :: "u64 set \<Rightarrow> u64 set \<Rightarrow> u64 set \<Rightarrow> paging \<Rightarrow> bool" where
  "mem_ok U D V g \<longleftrightarrow> (\<exists>lvl. tables_ok lvl g \<and> apart U D lvl g) \<and>
     (\<forall>v. va_index 39 v \<noteq> 0 \<longrightarrow> walk_open g v) \<and> (\<forall>v\<in>V. mapping g v \<noteq> None)"

lemma mem_okE:
  assumes "mem_ok U D V g"
  obtains lvl where "tables_ok lvl g" "apart U D lvl g" "\<forall>v. va_index 39 v \<noteq> 0 \<longrightarrow> walk_open g v"
    "\<forall>v\<in>V. mapping g v \<noteq> None"
  using assms unfolding mem_ok_def by blast

lemma mem_ok_clean: "mem_ok U D V g \<Longrightarrow> \<not> clobbered g"
  by (auto simp: mem_ok_def apart_def)

text \<open>Without large pages on the way, a translation is that of a 4 KiB page.\<close>

lemma phys_high:
  assumes "walk_open g x" and "phys g x = Some pa"
  shows "\<exists>e. mapping g x = Some e \<and> page_align_down pa = child e"
proof -
  have down: "page_align_down (page_addr e 12 x) = child e" for e
    unfolding page_align_down_def page_mask page_addr_def
    by (rule bit_word_eqI) (auto simp: bit_simps bit_child)
  show ?thesis
    using assms down
    by (auto simp: walk_open_def phys_def mapping_def va_path_def Let_def links_def split: if_splits)
qed

lemma phys_apart:
  assumes "mem_ok U D V g" and "apart U D lvl g" and "va_index 39 x \<noteq> 0" "phys g x = Some pa"
  shows "lvl (page_align_down pa) = 0" "page_align_down pa \<in> U" "page_align_down pa \<notin> avail (pg_pmm g)"
    "\<not> in_kernel g pa"
proof -
  have "walk_open g x" using assms(1,3) by (simp add: mem_ok_def)
  from phys_high [OF this assms(4)] apartD [OF assms(2)]
  show "lvl (page_align_down pa) = 0" "page_align_down pa \<in> U" "page_align_down pa \<notin> avail (pg_pmm g)" by auto
  from apart_kernel [OF assms(2) this(2)] show "\<not> in_kernel g pa" .
qed

text \<open>A byte is visible to programs when every entry on the way to it is a user entry.\<close>

definition user_visible :: "paging \<Rightarrow> u64 \<Rightarrow> bool" where
  "user_visible s va =
     (let m = pmem s; e4 = m (entry_addr (read_cr3 s) (va_index 39 va));
          e3 = m (entry_addr (child e4) (va_index 30 va));
          e2 = m (entry_addr (child e3) (va_index 21 va));
          e1 = m (entry_addr (child e2) (va_index 12 va))
      in e4 AND PTE_USER \<noteq> 0 \<and> e3 AND PTE_USER \<noteq> 0 \<and>
         (links e3 \<longrightarrow> e2 AND PTE_USER \<noteq> 0 \<and> (links e2 \<longrightarrow> e1 AND PTE_USER \<noteq> 0)))"

lemma writable_visible: "user_writable g x \<Longrightarrow> user_visible g x"
  by (simp add: user_writable_def user_visible_def user_entry_def Let_def)

lemma visible_high: "mem_ok U D V g \<Longrightarrow> user_visible g x \<Longrightarrow> va_index 39 x \<noteq> 0"
proof
  assume ok: "mem_ok U D V g" and "user_visible g x" "va_index 39 x = 0"
  then have "pmem g (entry_addr (read_cr3 g) 0) AND PTE_USER \<noteq> 0" by (simp add: user_visible_def Let_def)
  moreover have "root_closed g" using ok by (auto simp: mem_ok_def apart_def)
  ultimately show False by (simp add: root_closed_def Let_def)
qed

text \<open>Stores that hit neither the tables nor the kernel.\<close>

lemma mem_ok_mem:
  assumes ok: "mem_ok U D V g"
    and same: "\<And>lvl t i. tables_ok lvl g \<Longrightarrow> apart U D lvl g \<Longrightarrow> lvl t \<noteq> 0 \<Longrightarrow> i < 512 \<Longrightarrow>
      m (entry_addr t i) = pmem g (entry_addr t i)"
  shows "mem_ok U D V (g\<lparr>pmem := m\<rparr>)" "mapping (g\<lparr>pmem := m\<rparr>) = mapping g"
proof -
  obtain lvl where l: "tables_ok lvl g" "apart U D lvl g" by (rule mem_okE [OF ok])
  note st = store_outside [OF l(1) same [OF l]]
  from st l ok show "mem_ok U D V (g\<lparr>pmem := m\<rparr>)" unfolding mem_ok_def by auto
  show "mapping (g\<lparr>pmem := m\<rparr>) = mapping g" by (rule st(2))
qed

lemma mem_ok_store:
  assumes ok: "mem_ok U D V g" and x: "va_index 39 x \<noteq> 0" and put: "put_user g x b = Some g'"
  shows "mem_ok U D V g'"
proof -
  obtain lvl where l: "tables_ok lvl g" "apart U D lvl g" by (rule mem_okE [OF ok])
  obtain pa where pa: "phys g x = Some pa" using put by (auto simp: put_user_def)
  have g': "g' = g\<lparr>pmem := put_byte pa b (pmem g)\<rparr>"
    using put_user_outside [OF pa phys_apart(4) [OF ok l(2) x pa]] put by simp
  show ?thesis unfolding g'
  proof (rule mem_ok_mem [OF ok])
    fix lvl t and i :: nat
    assume a: "tables_ok lvl g" "apart U D lvl g" "lvl t \<noteq> 0" "i < 512"
    then have "tree_wf lvl g" by (simp add: tables_ok_def)
    from outside_tables [OF this a(3,4) phys_apart(1) [OF ok a(2) x pa]]
    show "put_byte pa b (pmem g) (entry_addr t i) = pmem g (entry_addr t i)" by (simp add: put_byte_elsewhere)
  qed
qed

definition buf_high :: "u64 \<Rightarrow> bool" where
  "buf_high p \<longleftrightarrow> list_all (\<lambda>k. va_index 39 (p + of_nat k) \<noteq> 0) [0..<32]"

lemma buf_frames_free: "mem_ok U D V g \<Longrightarrow> apart U D lvl g \<Longrightarrow> buf_high p \<Longrightarrow> msg_frames_free lvl g p"
  using phys_apart(1) unfolding msg_frames_free_def buf_high_def list_all_iff by fastforce

lemma mem_ok_copy_out:
  assumes ok: "mem_ok U D V g" and p: "buf_high p" and out: "copy_out g p m = Some g'"
  shows "mem_ok U D V g'" "mapping g' = mapping g"
proof -
  obtain lvl where l: "tables_ok lvl g" "apart U D lvl g" by (rule mem_okE [OF ok])
  have "\<not> list_ex (\<lambda>i. in_kernel g (the (phys g (p + of_nat i)))) [0..<32]"
    using phys_apart(4) [OF ok l(2)] p out
    by (fastforce simp: buf_high_def list_all_iff list_ex_iff copy_out_def msg_mapped_def split: if_splits)
  then obtain mem where g': "g' = g\<lparr>pmem := mem\<rparr>" using out by (cases g) (auto simp: copy_out_def split: if_splits)
  have same: "mem (entry_addr t i) = pmem g (entry_addr t i)"
    if a: "tables_ok lvl g" "apart U D lvl g" "lvl t \<noteq> 0" "i < 512" for lvl t and i :: nat
  proof -
    have wf: "tree_wf lvl g" using a by (simp add: tables_ok_def)
    have "msg_frames_free lvl g p" by (rule buf_frames_free [OF ok a(2) p])
    from copy_out_tables [OF wf this out a(3,4)] show ?thesis by (simp add: g')
  qed
  show "mem_ok U D V g'" unfolding g' by (rule mem_ok_mem [OF ok same])
  show "mapping g' = mapping g" unfolding g' by (rule mem_ok_mem [OF ok same])
qed

lemma mem_ok_map:
  assumes l: "tables_ok lvl g" "apart U D lvl g" and w: "\<forall>v. va_index 39 v \<noteq> 0 \<longrightarrow> walk_open g v"
    and m: "\<forall>v\<in>V. mapping g v \<noteq> None"
    and f: "child pa \<in> U" "lvl (child pa) = 0" "child pa \<notin> avail (pg_pmm g)"
    and vm: "vmm_map g va pa fl = (g', r)"
  shows "mem_ok U D V g'"
proof (rule vmm_map_apart [OF l f vm])
  fix lvl'
  assume a: "tables_ok lvl' g'" "grows 3 lvl g lvl' g'" "apart U D lvl' g'"
    "if r = 0 then mapping g' va = Some ((pa AND ADDR_MASK) OR flags_to_pte fl) \<and>
        (\<forall>va'. va_path va' \<noteq> va_path va \<longrightarrow> mapping g' va' = mapping g va')
     else r = - 1 \<and> (\<forall>va'. mapping g' va' = mapping g va')"
  have "mapping g' v \<noteq> None" if v: "v \<in> V" for v
  proof (cases "va_path v = va_path va")
    case True
    then have "mapping g' v = mapping g' va" "mapping g v = mapping g va" by (simp_all add: mapping_def)
    then show ?thesis using a(4) bspec [OF m v] by (auto split: if_splits)
  next
    case False
    then show ?thesis using a(4) bspec [OF m v] by (auto split: if_splits)
  qed
  with a(1-3) show ?thesis using w by (auto simp: mem_ok_def grows_def)
qed

lemma mem_ok_alloc:
  assumes ok: "mem_ok U D V g" and al: "pmm_alloc_frame (pg_pmm g) = (p, f)"
  shows "mem_ok U D V (g\<lparr>pg_pmm := p\<rparr>)"
    and "f \<noteq> 0 \<Longrightarrow> vmm_map (g\<lparr>pg_pmm := p\<rparr>) va f fl = (g', r) \<Longrightarrow> mem_ok U D V g'"
proof -
  obtain lvl where l: "tables_ok lvl g" "apart U D lvl g" and w: "\<forall>v. va_index 39 v \<noteq> 0 \<longrightarrow> walk_open g v"
    and m: "\<forall>v\<in>V. mapping g v \<noteq> None"
    by (rule mem_okE [OF ok])
  note a = apart_pmm [OF l al]
  have mp: "mapping (g\<lparr>pg_pmm := p\<rparr>) = mapping g" by (simp add: mapping_def fun_eq_iff read_cr3_def)
  show "mem_ok U D V (g\<lparr>pg_pmm := p\<rparr>)" using a w m by (auto simp: mem_ok_def mp)
  assume "f \<noteq> 0" and vm: "vmm_map (g\<lparr>pg_pmm := p\<rparr>) va f fl = (g', r)"
  with a(4) show "mem_ok U D V g'"
    by (intro mem_ok_map [OF a(1,2) _ _ _ _ _ vm]) (use a(3) w m in \<open>simp_all add: mp\<close>)
qed

lemma mem_ok_device:
  assumes ok: "mem_ok U D V g" and d: "child pa \<in> D" and vm: "vmm_map g va pa fl = (g', r)"
  shows "mem_ok U D V g'"
proof -
  obtain lvl where l: "tables_ok lvl g" "apart U D lvl g" and w: "\<forall>v. va_index 39 v \<noteq> 0 \<longrightarrow> walk_open g v"
    and m: "\<forall>v\<in>V. mapping g v \<noteq> None"
    by (rule mem_okE [OF ok])
  have "child pa \<in> U" "lvl (child pa) = 0" "child pa \<notin> avail (pg_pmm g)" using l(2) d by (auto simp: apart_def)
  from mem_ok_map [OF l w m this vm] show ?thesis .
qed

section \<open>Kernel entries\<close>

text \<open>A thread that is stopped in a receive resumes with the buffer in its saved registers.\<close>

definition mem_inv :: "u64 set \<Rightarrow> u64 set \<Rightarrow> u64 set \<Rightarrow> kstate \<Rightarrow> bool" where
  "mem_inv U D V s \<longleftrightarrow> mem_ok U D V (pg s) \<and> \<not> stray s \<and>
     (\<forall>i<SCHED_MAX_THREADS. kont (threads s i) = K_recv \<longrightarrow> buf_high (rsi (tf (threads s i))))"

lemma mem_upd0:
  assumes "mem_inv U D V s"
    and "\<And>i. p = Slot i \<Longrightarrow> i < SCHED_MAX_THREADS \<Longrightarrow> kont (f (threads s i)) = K_recv \<Longrightarrow>
      buf_high (rsi (tf (f (threads s i))))"
  shows "mem_inv U D V (upd_thr p f s)"
  using assms by (auto simp: mem_inv_def stray_def)

lemma mem_upd:
  assumes s: "mem_inv U D V s" and f: "\<And>t. kont (f t) = K_recv \<Longrightarrow> kont t = K_recv \<and> rsi (tf (f t)) = rsi (tf t)"
  shows "mem_inv U D V (upd_thr p f s)"
proof (rule mem_upd0 [OF s])
  fix i assume "p = Slot i" "i < SCHED_MAX_THREADS" "kont (f (threads s i)) = K_recv"
  with f [of "threads s i"] s show "buf_high (rsi (tf (f (threads s i))))" by (simp add: mem_inv_def)
qed

lemma mem_stop: "mem_inv U D V s \<Longrightarrow> k \<noteq> K_recv \<Longrightarrow> mem_inv U D V (stop_at k p s)"
  unfolding stop_at_def by (rule mem_upd) auto

lemma mem_rax: "mem_inv U D V s \<Longrightarrow> mem_inv U D V (set_rax p v s)"
  unfolding set_rax_def by (rule mem_upd) auto

lemma mem_schedule: "mem_inv U D V s \<Longrightarrow> mem_inv U D V (schedule s)"
  by (simp add: mem_inv_def schedule_stays_not_stray)

lemma mem_fields [simp]:
  "mem_inv U D V (emit os s) = mem_inv U D V s" "mem_inv U D V (s\<lparr>tss_rsp0 := a\<rparr>) = mem_inv U D V s"
  "mem_inv U D V (s\<lparr>g_ticks := b\<rparr>) = mem_inv U D V s" "mem_inv U D V (s\<lparr>g_pager_tid := c\<rparr>) = mem_inv U D V s"
  "mem_inv U D V (s\<lparr>g_irq_tid := d, g_irq_mask := e\<rparr>) = mem_inv U D V s"
  "mem_inv U D V (s\<lparr>halted := h\<rparr>) = mem_inv U D V s"
  by (simp_all add: mem_inv_def stray_def emit_def)

lemma mem_pg: "mem_inv U D V s \<Longrightarrow> mem_ok U D V g \<Longrightarrow> mem_inv U D V (s\<lparr>pg := g\<rparr>)"
  by (simp add: mem_inv_def stray_def)

lemma mem_panics [simp]:
  "mem_inv U D V (panic_exception fr s) = mem_inv U D V s" "mem_inv U D V (page_fault_panic ad fr s) = mem_inv U D V s"
  "mem_inv U D V (kernel_fault env s) = mem_inv U D V s"
  by (simp_all add: panic_exception_def page_fault_panic_def kernel_fault_def)

lemmas mem_intros = mem_stop mem_rax mem_schedule mem_upd

lemma mem_send: "ipc_send_locked s p d m = (s', r) \<Longrightarrow> mem_inv U D V s \<Longrightarrow> mem_inv U D V s'"
  by (erule ipc_send_cases) (auto intro!: mem_upd simp: ipc_thread_defs split: if_splits)

lemma mem_recv: "ipc_recv_locked s p src out = (s', r) \<Longrightarrow> mem_inv U D V s \<Longrightarrow> mem_inv U D V s'"
  by (erule ipc_recv_cases) (auto intro!: mem_upd simp: ipc_thread_defs split: if_splits)

lemma recv_keeps_tf: "ipc_recv_locked s p src out = (s', r) \<Longrightarrow> tf (threads s' j) = tf (threads s j)"
  by (erule ipc_recv_cases) (auto simp: ipc_thread_defs split: if_splits)

lemma mem_resumes:
  "mem_inv U D V s \<Longrightarrow> mem_inv U D V (fst (ipc_send_resume s p))"
  "mem_inv U D V s \<Longrightarrow> mem_inv U D V (fst (ipc_recv_resume s p out))"
  by (auto simp: ipc_send_resume_def ipc_recv_resume_def intro!: mem_upd)

lemma mem_finish_recv:
  assumes s: "mem_inv U D V s" and p: "buf_high (rsi (tf (thr s p)))"
  shows "mem_inv U D V (finish_recv env p from m s)"
proof (cases "copy_out (pg s) (rsi (tf (thr s p))) m")
  case (Some g)
  then have "mem_ok U D V g" using s p by (auto simp: mem_inv_def intro: mem_ok_copy_out(1))
  then have "mem_inv U D V (s\<lparr>pg := g\<rparr>)" by (rule mem_pg [OF s])
  with Some show ?thesis by (auto simp: finish_recv_def Let_def intro!: mem_rax mem_upd)
qed (simp add: finish_recv_def s)

lemma mem_verdict: "mem_inv U D V s \<Longrightarrow> mem_inv U D V (fst (fault_verdict p m s))"
  by (auto simp: fault_verdict_def intro!: mem_schedule mem_stop mem_upd)

lemma mem_wait: "mem_inv U D V s \<Longrightarrow> mem_inv U D V (fst (fault_wait env p s))"
  by (auto simp: fault_wait_def split: prod.split option.split
      intro!: mem_verdict mem_schedule mem_stop dest: mem_recv)

lemma mem_run_kont:
  assumes s: "mem_inv U D V s" and i: "i < SCHED_MAX_THREADS"
  shows "mem_inv U D V (fst (run_kont env (Slot i) s))"
proof (cases "kont (threads s i)")
  case (K_start g)
  have "mem_inv U D V (user_bootstrap (Slot i) (progs s g) s)"
    unfolding user_bootstrap_def arch_enter_user_def using s by (intro mem_upd) auto
  with K_start show ?thesis by (simp add: run_kont_def mem_stop)
next
  case K_recv
  obtain s1 r where r: "ipc_recv_resume s (Slot i) (e_junk env (tid (thr s (Slot i)))) = (s1, r)"
    by (rule prod.exhaust)
  have "tf (threads s1 i) = tf (threads s i)" using r by (auto simp: ipc_recv_resume_def split: if_splits)
  moreover have "buf_high (rsi (tf (threads s i)))" using s i K_recv by (simp add: mem_inv_def)
  moreover have "mem_inv U D V s1" using mem_resumes(2) [OF s] r by (metis fst_conv)
  ultimately have "mem_inv U D V (finish_recv env (Slot i) a m s1)" for a m by (intro mem_finish_recv) simp_all
  with K_recv r show ?thesis by (simp add: run_kont_def mem_stop split: prod.splits)
qed (use s in \<open>auto simp: run_kont_def Let_def case_prod_beta
      intro!: mem_stop mem_rax mem_resumes mem_wait mem_verdict\<close>)

lemma mem_sys_send: "mem_inv U D V s \<Longrightarrow> mem_inv U D V (fst (sys_send env p f s))"
proof -
  assume s: "mem_inv U D V s"
  have 1: "mem_inv U D V (upd_thr p (\<lambda>t. t\<lparr>ipc_call_to := c_int (rdi f)\<rparr>) s)" (is "mem_inv U D V ?s")
    using s by (intro mem_upd) auto
  have 2: "mem_inv U D V u" if "ipc_send_locked ?s p d m = (u, r)" for u r d m
    by (rule mem_send [OF that 1])
  show ?thesis
    unfolding sys_send_def Let_def
    by (auto simp: 1 s split: option.split prod.split intro!: mem_rax mem_schedule mem_stop dest: 2)
qed

lemma mem_sys_recv:
  assumes s: "mem_inv U D V s" and p: "buf_high (rsi (tf (thr s p)))" and i: "p = Slot i"
  shows "mem_inv U D V (fst (sys_recv env p f s))"
proof -
  obtain s1 r where r: "ipc_recv_locked s p (c_int (rdi f)) (e_junk env (tid (thr s p))) = (s1, r)"
    by (rule prod.exhaust)
  have s1: "mem_inv U D V s1" by (rule mem_recv [OF r s])
  have b: "buf_high (rsi (tf (thr s1 p)))" using recv_keeps_tf [OF r, of i] p by (simp add: i)
  have "mem_inv U D V (stop_at K_recv p s1)"
    unfolding stop_at_def by (rule mem_upd0 [OF s1]) (use b i in auto)
  then show ?thesis
    using mem_finish_recv [OF s1 b] r by (auto simp: sys_recv_def mem_schedule split: option.split)
qed

lemma grant_kont [simp]:
  "kont (fst (endpoint_grant t e)) = kont t" "tf (fst (endpoint_grant t e)) = tf t"
  "kont (fst (port_grant t r)) = kont t" "tf (fst (port_grant t r)) = tf t"
  by (auto simp: endpoint_grant_def port_grant_def set_slot_frame split: option.split)

lemma mem_sys_spawn: "mem_inv U D V s \<Longrightarrow> mem_inv U D V (sys_spawn p f s)"
proof -
  assume s: "mem_inv U D V s"
  obtain s1 c where c: "proc_spawn s (c_int (rdi f)) = (s1, c)" by fastforce
  have "mem_inv U D V s1"
    using c by (cases rule: proc_spawn_cases) (auto simp: s create_thread_in_def cap_clear_def intro!: mem_upd)
  then have "mem_inv U D V (upd_thr p (\<lambda>t. fst (endpoint_grant t c)) s1)"
    by (rule mem_upd) simp_all
  with \<open>mem_inv U D V s1\<close> c show ?thesis by (simp add: sys_spawn_def Let_def mem_rax)
qed

lemma mem_sys_map: "mem_inv U D V s \<Longrightarrow> mem_inv U D V (sys_map p f s)"
proof -
  assume s: "mem_inv U D V s"
  then have ok: "mem_ok U D V (pg s)" by (simp add: mem_inv_def)
  obtain pm fr where al: "pmm_alloc_frame (pg_pmm (pg s)) = (pm, fr)" by fastforce
  obtain g' r where vm: "vmm_map ((pg s)\<lparr>pg_pmm := pm\<rparr>) (page_align_down (rdi f)) fr
      (VM_PRESENT OR VM_WRITE OR VM_USER) = (g', r)" by fastforce
  note a = mem_ok_alloc [OF ok al]
  show ?thesis
    using mem_pg [OF s a(1)] mem_pg [OF mem_pg [OF s a(1)] a(2) [OF _ vm]] al vm
    by (simp add: sys_map_def Let_def mem_rax)
qed

lemma mem_sys_map_phys:
  assumes s: "mem_inv U D V s" and d: "tid (thr s p) = 0 \<Longrightarrow> child (rsi f) \<in> D"
  shows "mem_inv U D V (sys_map_phys p f s)"
proof (cases "tid (thr s p) = 0")
  case True
  obtain g' r where vm: "vmm_map (pg s) (rdi f) (rsi f) (VM_PRESENT OR VM_WRITE OR VM_USER) = (g', r)" by fastforce
  have "mem_ok U D V (pg s)" using s by (simp add: mem_inv_def)
  from mem_pg [OF s mem_ok_device [OF this d [OF True] vm]] True vm show ?thesis
    by (simp add: sys_map_phys_def mem_rax)
qed (simp add: sys_map_phys_def mem_rax s)

lemma mem_grants:
  assumes s: "mem_inv U D V s"
  shows "mem_inv U D V (sys_grant_io p f s)" "mem_inv U D V (sys_grant_cap p f s)"
proof -
  have b: "kont (threads s i) = K_recv \<Longrightarrow> i < SCHED_MAX_THREADS \<Longrightarrow> buf_high (rsi (tf (threads s i)))" for i
    using s by (simp add: mem_inv_def)
  have "mem_inv U D V (upd_thr (Slot d) (\<lambda>t. fst (port_grant (threads s d) x)) s)" for d x
    by (rule mem_upd0 [OF s]) (use b in auto)
  moreover have "mem_inv U D V (upd_thr (Slot d) (\<lambda>t. fst (endpoint_grant (threads s d) e)) s)" for d e
    by (rule mem_upd0 [OF s]) (use b in auto)
  ultimately show "mem_inv U D V (sys_grant_io p f s)" "mem_inv U D V (sys_grant_cap p f s)"
    by (auto simp: sys_grant_io_def sys_grant_cap_def Let_def s split: option.split intro!: mem_rax)
qed

text \<open>What the invariant asks of a system call.\<close>

definition decent :: "u64 set \<Rightarrow> kstate \<Rightarrow> trapframe \<Rightarrow> bool" where
  "decent D s f \<longleftrightarrow> (vec f = SYSCALL_VECTOR \<longrightarrow>
     (rax f = SYS_RECV \<longrightarrow> buf_high (rsi f)) \<and>
     (rax f = SYS_MAP_PHYS \<and> tid (thr s (current s)) = 0 \<longrightarrow> child (rsi f) \<in> D))"

lemma mem_do_syscall:
  assumes s: "mem_inv U D V s" and p: "p = Slot i" "tf (threads s i) = f"
    and f: "rax f = SYS_RECV \<Longrightarrow> buf_high (rsi f)"
    and d: "rax f = SYS_MAP_PHYS \<Longrightarrow> tid (thr s p) = 0 \<Longrightarrow> child (rsi f) \<in> D"
  shows "mem_inv U D V (fst (do_syscall env p f s))"
proof -
  have "mem_inv U D V (schedule (stop_at K_dead p (upd_thr p (\<lambda>t. t\<lparr>tstate := T_DEAD\<rparr>) s)))"
    using s by (intro mem_schedule mem_stop mem_upd) auto
  moreover have "mem_inv U D V (fst (sys_recv env p f s))" if "rax f = SYS_RECV"
    using f [OF that] p by (intro mem_sys_recv [OF s _ p(1)]) simp
  moreover have "mem_inv U D V (sys_map_phys p f s)" if "rax f = SYS_MAP_PHYS"
    using d [OF that] by (rule mem_sys_map_phys [OF s])
  moreover have "mem_inv U D V (sys_outb p f s)" "mem_inv U D V (sys_inb env p f s)" "mem_inv U D V (sys_inw env p f s)"
    "mem_inv U D V (sys_tinfo p f s)" "mem_inv U D V (sys_irq_register p f s)"
    by (simp_all add: sys_outb_def sys_inb_def sys_inw_def sys_tinfo_def sys_irq_register_def Let_def mem_rax s)
  ultimately show ?thesis
    unfolding do_syscall_def Let_def
    by (simp add: s mem_rax mem_sys_send mem_sys_spawn mem_sys_map mem_grants)
qed

lemma mem_parts:
  assumes s: "mem_inv U D V s"
  shows "mem_inv U D V (device_irq n s)" "mem_inv U D V (fst (timer_irq p s))" "mem_inv U D V (fst (page_fault env p f s))"
proof -
  have "mem_inv U D V (upd_thr (Slot d) notify s)" for d
    by (rule mem_upd [OF s]) (auto simp: notify_def Let_def thread_wake_def split: if_splits)
  then show "mem_inv U D V (device_irq n s)"
    by (auto simp: device_irq_def Let_def s split: option.split)
  show "mem_inv U D V (fst (timer_irq p s))"
    by (auto simp: timer_irq_def Let_def s intro!: mem_schedule mem_stop)
  show "mem_inv U D V (fst (page_fault env p f s))"
    by (auto simp: page_fault_def forward_fault_def s split: prod.split option.split
        intro!: mem_wait mem_schedule mem_stop dest: mem_send [OF _ s])
qed

lemma mem_entry:
  assumes k: "kinv s" and s: "mem_inv U D V s" and may: "may_trap s f" and dec: "decent D s f"
  shows "mem_inv U D V (fst (isr_entry env f s))"
proof -
  have s0: "mem_inv U D V (save_frame f s)"
    unfolding save_frame_def
  proof (rule mem_upd0 [OF s])
    fix i assume "current s = Slot i" "kont ((threads s i)\<lparr>tf := f\<rparr>) = K_recv"
    moreover from this(1) have "kont (threads s i) = K_user"
      using k unfolding kinv_def kmid_def tss_ok_def by blast
    ultimately show "buf_high (rsi (tf ((threads s i)\<lparr>tf := f\<rparr>)))" by simp
  qed
  have call: "mem_inv U D V (fst (do_syscall env (current s) f (save_frame f s)))" if v: "vec f = SYSCALL_VECTOR"
  proof -
    obtain i where i: "current s = Slot i" using may v by (auto simp: may_trap_def split: tptr.splits)
    show ?thesis
      by (rule mem_do_syscall [OF s0 i]) (use dec v i in \<open>auto simp: decent_def save_frame_def\<close>)
  qed
  show ?thesis
    unfolding isr_entry_def Let_def
    using mem_parts [OF s0] call s0 by auto
qed

definition decent_event :: "u64 set \<Rightarrow> kstate \<Rightarrow> event \<Rightarrow> bool" where
  "decent_event D s e = (case e of Trap env f \<Rightarrow> decent D s f | Store w va b \<Rightarrow> True)"

interpretation mem: entry_invariant "mem_inv U D V" "decent_event D" for U D V
proof unfold_locales
  fix s f env assume "kinv s" "mem_inv U D V s" "may_trap s f" "decent_event D s (Trap env f)"
  then show "mem_inv U D V (fst (isr_entry env f s))" by (simp add: mem_entry decent_event_def)
next
  fix s i env assume "mem_inv U D V s" "i < SCHED_MAX_THREADS"
  then show "mem_inv U D V (fst (run_kont env (Slot i) s))" by (rule mem_run_kont)
next
  fix s va b pg' assume s: "mem_inv U D V s" and w: "user_writable (pg s) va" and p: "put_user (pg s) va b = Some pg'"
  have ok: "mem_ok U D V (pg s)" using s by (simp add: mem_inv_def)
  have "mem_ok U D V pg'" by (rule mem_ok_store [OF ok visible_high [OF ok writable_visible [OF w]] p])
  then show "mem_inv U D V (s\<lparr>pg := pg'\<rparr>)" by (rule mem_pg [OF s])
qed

text \<open>The machine as decent programs run it.\<close>

definition decent_run :: "u64 set \<Rightarrow> kstate \<Rightarrow> kstate \<Rightarrow> bool" where
  "decent_run D s s' \<longleftrightarrow> (\<exists>es. run es s = Some s' \<and> allowed (decent_event D) es s)"

lemma mem_clean: "mem_inv U D V s \<Longrightarrow> \<not> clobbered (pg s)"
  using mem_ok_clean [of U D V "pg s"] by (simp add: mem_inv_def)

lemma decent_exec:
  assumes "kinv s" and "mem_inv U D V s" and "exec e s = Some s'" and "decent_event D s e"
  shows "kinv s' \<and> mem_inv U D V s'"
proof -
  have "mem_inv U D V s'"
  proof (cases e)
    case (Trap env f)
    then have "mem_inv U D V (isr_code env f s)" using assms by (intro mem.isr_I) (auto split: if_splits)
    moreover from this have "s' = isr_code env f s"
      using Trap assms(3) mem_clean by (auto simp: isr_handler_def overrun_none split: if_splits)
    ultimately show ?thesis by simp
  next
    case (Store w va b)
    then obtain pg' where p: "user_writable (pg s) va" "put_user (pg s) va b = Some pg'"
      "s' = overrun w s (s\<lparr>pg := pg'\<rparr>)" using assms(3) by (auto split: if_splits)
    then have "mem_inv U D V (s\<lparr>pg := pg'\<rparr>)" using assms(2) by (intro mem.store_I)
    moreover from mem_clean [OF this] have "s' = s\<lparr>pg := pg'\<rparr>" using p(3) by (simp add: overrun_none)
    ultimately show ?thesis by simp
  qed
  with kstep_kinv [OF exec_kstep [OF assms(3)] assms(1)] mem_clean show ?thesis by blast
qed

lemma run_inv:
  "run es s = Some s' \<Longrightarrow> allowed (decent_event D) es s \<Longrightarrow> kinv s \<Longrightarrow> mem_inv U D V s \<Longrightarrow>
   kinv s' \<and> mem_inv U D V s'"
  by (induction es arbitrary: s) (auto split: option.splits dest: decent_exec)

lemma decent_run_inv: "decent_run D s0 s \<Longrightarrow> kinv s0 \<Longrightarrow> mem_inv U D V s0 \<Longrightarrow> kinv s \<and> mem_inv U D V s"
  using run_inv unfolding decent_run_def by blast

section \<open>From boot on\<close>

lemma booted_kont:
  assumes z: "static_zero s" and i: "i < SCHED_MAX_THREADS"
  shows "kont (threads (booted b pg' s) i) \<noteq> K_recv"
proof -
  note init = kmain_init_threads [OF z, where b = b]
  have free: "free_thread ((kmain_init b s)\<lparr>pg := pg'\<rparr>) = Some 0"
    using init(5) free_thread_cong [of "(kmain_init b s)\<lparr>pg := pg'\<rparr>" "kmain_init b s"] by simp
  have "kont (threads (kmain_init b s) i) = kont (threads s i)"
    by (simp add: kmain_init_def sched_init_def hal_traps_init_def kputs_def emit_def Let_def)
  then show ?thesis
    using z i by (simp add: booted_def kmain_start_simps [OF free] static_zero_def create_thread_in_def
        cap_clear_def zero_thread_def)
qed

lemma boot_mem:
  assumes "static_zero s" and "tables_placed pml4 pdpt pd (b_kernel_end b) g"
    and "pg s = boot_long_mode pml4 pdpt pd g" and "boot_fits b (pg_pmm (pg s))"
    and "devices_apart pml4 pdpt pd b (pg_pmm (pg s)) D"
    and "kmain b s = Some s1"
  shows "kinv s1" and "mem_inv (avail (boot_pmm b (pg_pmm (pg s))) \<union> D) D {} s1"
proof -
  let ?U = "avail (boot_pmm b (pg_pmm (pg s))) \<union> D"
  obtain pg' lvl where b: "kmain b s = Some (booted b pg' s)" "pg (booted b pg' s) = pg'"
    "tables_ok lvl pg'" "apart ?U D lvl pg'" "\<forall>v. va_index 39 v \<noteq> 0 \<longrightarrow> walk_open pg' v"
    by (rule boot_loads [OF assms(1-5)])
  have s1: "s1 = booted b pg' s" using b(1) assms(6) by simp
  have "mem_ok ?U D {} pg'" using b by (auto simp: mem_ok_def)
  then show "mem_inv ?U D {} s1"
    using booted_kont [OF assms(1)] booted_facts(2) [OF assms(1)] b(2) by (simp add: mem_inv_def stray_def s1)
  show "kinv s1" using booted_facts(1) [OF assms(1)] by (simp add: s1)
qed

text \<open>C4: Memory protection: after boot, as long as programs are decent (the buffers they give to RECV
  lie outside the first 512 GiB, and the root task maps only device frames by address), no store
  hits the memory of the kernel, the page tables stay well formed, and every byte that a program can
  read or write lies in a frame that the allocator handed out or in device memory, never in a page
  table, a free frame or the kernel's memory.\<close>

theorem memory_apart:
  assumes "static_zero s" and "tables_placed pml4 pdpt pd (b_kernel_end b) g"
    and "pg s = boot_long_mode pml4 pdpt pd g" and "boot_fits b (pg_pmm (pg s))"
    and "devices_apart pml4 pdpt pd b (pg_pmm (pg s)) D"
    and "kmain b s = Some s1" and "decent_run D s1 s'"
  shows "\<not> clobbered (pg s') \<and> (\<exists>lvl. tables_ok lvl (pg s') \<and>
    (\<forall>va pa. user_visible (pg s') va \<longrightarrow> phys (pg s') va = Some pa \<longrightarrow>
       lvl (page_align_down pa) = 0 \<and> page_align_down pa \<notin> avail (pg_pmm (pg s')) \<and> \<not> in_kernel (pg s') pa \<and>
       (page_align_down pa \<in> avail (boot_pmm b (pg_pmm (pg s))) \<or> page_align_down pa \<in> D)))"
proof -
  let ?U = "avail (boot_pmm b (pg_pmm (pg s))) \<union> D"
  note m = boot_mem [OF assms(1-6)]
  have ok: "mem_ok ?U D {} (pg s')" using decent_run_inv [OF assms(7) m] by (simp add: mem_inv_def)
  obtain lvl where l: "tables_ok lvl (pg s')" "apart ?U D lvl (pg s')" by (rule mem_okE [OF ok])
  have "lvl (page_align_down pa) = 0 \<and> page_align_down pa \<notin> avail (pg_pmm (pg s')) \<and> \<not> in_kernel (pg s') pa \<and>
      page_align_down pa \<in> ?U" if "user_visible (pg s') va" "phys (pg s') va = Some pa" for va pa
    using phys_apart [OF ok l(2) visible_high [OF ok that(1)] that(2)] by blast
  with l(1) mem_ok_clean [OF ok] show ?thesis by blast
qed

text \<open>The screen's memory as the only device of the machine that boots in \<open>big_boot\<close>.\<close>

lemma screen_apart: "devices_apart 0x1000 0x2000 0x3000 big_boot p {0xB8000}"
proof -
  have "0xB8000 \<notin> avail (boot_pmm big_boot p)"
  proof
    assume "0xB8000 \<in> avail (boot_pmm big_boot p)"
    then obtain f :: u64 where f: "push_bit PAGE_SHIFT f = 0xB8000" "0x100 \<le> f" "f < 0x800"
      by (auto simp: avail_def boot_pmm_def big_boot_def demo_boot_def big_free)
    have "f < 2 ^ 52" using order_less_trans [OF f(3), of "2 ^ 52"] by simp
    then have "f = drop_bit PAGE_SHIFT 0xB8000" using frame_addr_inverse [of f] f(1) by simp
    with f(2) show False by simp
  qed
  then show ?thesis by (simp add: devices_apart_def)
qed

lemma big_booted:
  obtains s1 pg' where "kmain big_boot big_start = Some s1" "s1 = booted big_boot pg' big_start"
    "pg big_start = boot_long_mode 0x1000 0x2000 0x3000 blank_paging"
proof -
  have pg: "pg big_start = boot_long_mode 0x1000 0x2000 0x3000 blank_paging" by (simp add: big_start_def)
  obtain s1 where s1: "kmain big_boot big_start = Some s1"
    using boot_loads [OF big_fits(3,2) pg big_fits(1) screen_apart] by metis
  moreover from this obtain pg' where "s1 = booted big_boot pg' big_start" using kmain_booted by metis
  ultimately show thesis using pg by (rule that)
qed

theorem memory_apart_witness:
  "\<exists>s1. kmain big_boot big_start = Some s1 \<and> \<not> clobbered (pg (isr_handler demo_env timer_frame s1))"
proof -
  obtain s1 pg' where s1: "kmain big_boot big_start = Some s1" "s1 = booted big_boot pg' big_start"
    and pg: "pg big_start = boot_long_mode 0x1000 0x2000 0x3000 blank_paging" by (rule big_booted)
  have "run [Trap demo_env timer_frame] s1 = Some (isr_handler demo_env timer_frame s1)"
    "allowed (decent_event {0xB8000}) [Trap demo_env timer_frame] s1"
    using booted_facts(2,4) [OF big_fits(3)] s1(2)
    by (simp_all add: may_trap_def decent_event_def decent_def timer_frame_def from_user_def zero_tf_def)
  then have "decent_run {0xB8000} s1 (isr_handler demo_env timer_frame s1)" unfolding decent_run_def by blast
  from memory_apart [OF big_fits(3,2) pg big_fits(1) screen_apart s1(1) this] s1(1) show ?thesis by blast
qed

end
