(* ===== verification/Deliver.thy ===== *)
theory Deliver
  imports MemSafe
begin

text \<open>
  From the SEND of one program to the buffer of another: a message for a thread that waits in RECV
  lies in its memory when the thread runs again.  The bounded wait of \<open>Fair\<close>, with the memory
  invariant of \<open>MemSafe\<close> for all that runs in between, gives the buffer to be mapped, and outside
  every page table, at the moment the kernel writes to it.
\<close>

section \<open>Buffers that stay mapped\<close>

definition buf_bytes :: "u64 \<Rightarrow> u64 set" where
  "buf_bytes p = {p + of_nat k | k. k < 32}"

lemma phys_mapped:
  assumes "walk_open g x" shows "phys g x \<noteq> None \<longleftrightarrow> canonical x \<and> mapping g x \<noteq> None"
  using assms by (auto simp: walk_open_def phys_def mapping_def va_path_def Let_def links_def split: if_splits)

lemma high_open: "mem_ok U D V g \<Longrightarrow> buf_high p \<Longrightarrow> k < 32 \<Longrightarrow> walk_open g (p + of_nat k)"
  by (simp add: mem_ok_def buf_high_def list_all_iff)

lemma mem_ok_buffer:
  assumes ok: "mem_ok U D {} g" and h: "buf_high p" and m: "msg_mapped g p"
  shows "mem_ok U D (buf_bytes p) g" and "x \<in> buf_bytes p \<Longrightarrow> canonical x"
proof -
  have a: "canonical (p + of_nat k) \<and> mapping g (p + of_nat k) \<noteq> None" if "k < 32" for k
    using phys_mapped [OF high_open [OF ok h that]] msg_mappedD [OF m that] by simp
  then show "mem_ok U D (buf_bytes p) g" using ok by (auto simp: mem_ok_def buf_bytes_def)
  show "x \<in> buf_bytes p \<Longrightarrow> canonical x" using a by (auto simp: buf_bytes_def)
qed

lemma buffer_stays:
  assumes ok: "mem_ok U D (buf_bytes p) g" and h: "buf_high p" and c: "\<And>x. x \<in> buf_bytes p \<Longrightarrow> canonical x"
  shows "msg_mapped g p"
proof -
  have "phys g (p + of_nat k) \<noteq> None" if k: "k < 32" for k
  proof -
    have b: "p + of_nat k \<in> buf_bytes p" using k by (auto simp: buf_bytes_def)
    then have "mapping g (p + of_nat k) \<noteq> None" using ok unfolding mem_ok_def by blast
    with c [OF b] phys_mapped [OF high_open [OF ok h k]] show ?thesis by blast
  qed
  then show ?thesis by (simp add: msg_mapped_def list_all_iff)
qed

section \<open>The two ends of a message\<close>

lemma send_now:
  assumes f: "vec f = SYSCALL_VECTOR" "rax f = SYS_SEND" "c_int (rdi f) = int j" "j < SCHED_MAX_THREADS"
    and i: "current s = Slot i" "tid (threads s i) = int i"
    and allowed: "ipc_send_allowed s (threads s i) (int j)"
    and m: "copy_in (pg s) (rsi f) = Some m"
    and ready: "receiver_ready (threads s j) (int i)" and ne: "i \<noteq> j"
  shows "isr_code env f s = set_rax (Slot i) 0 (upd_thr (Slot j) (deliver m (int i))
      (upd_thr (Slot i) (\<lambda>t. t\<lparr>ipc_call_to := int j\<rparr>) (save_frame f s)))"
proof -
  let ?s = "save_frame f s"
  have thr: "threads ?s k = (if k = i then (threads s i)\<lparr>tf := f\<rparr> else threads s k)" for k
    by (simp add: save_frame_def i)
  have "ipc_send_allowed ?s (thr ?s (Slot i)) (int j)"
    using allowed i has_endpoint_ctable [of "thr ?s (Slot i)" "threads s i" "int j"]
    unfolding ipc_send_allowed_iff by (auto simp: thr)
  moreover have "tstate (threads s j) = T_BLOCKED" using ready by (simp add: receiver_ready_def)
  ultimately show ?thesis
    using f m ready ne i
    by (simp add: isr_code_def Let_def do_syscall_def sys_send_def ipc_send_locked_def then_resume_def
        thr save_frame_def)
qed

lemma run_kont_recv:
  assumes "kont (threads u j) = K_recv" and "ipc_state (threads u j) \<noteq> IPC_RECEIVING"
    and "copy_out (pg u) (rsi (tf (threads u j))) (ipc_buf (threads u j)) = Some g"
    and "v = fst (run_kont env (Slot j) u)"
  shows "rax (tf (threads v j)) = c_ret (ipc_from (threads u j)) \<and> pg v = g"
  using assms
  by (auto simp: run_kont_def Let_def ipc_recv_resume_def finish_recv_def stop_at_def set_rax_def)

lemma buffer_receives:
  assumes u: "mem_inv U D (buf_bytes p) u" and h: "buf_high p" and c: "\<And>x. x \<in> buf_bytes p \<Longrightarrow> canonical x"
  shows "\<exists>g. copy_out (pg u) p m = Some g \<and> copy_in g p = Some m"
proof -
  have ok: "mem_ok U D (buf_bytes p) (pg u)" using u by (simp add: mem_inv_def)
  obtain lvl where l: "tables_ok lvl (pg u)" "apart U D lvl (pg u)" by (rule mem_okE [OF ok])
  obtain g where g: "copy_out (pg u) p m = Some g"
    using buffer_stays [OF ok h c] copy_out_defined(1) [of "pg u" p m] by blast
  have "tree_wf lvl (pg u)" using l(1) by (simp add: tables_ok_def)
  from copy_out_in [OF this buf_frames_free [OF ok l(2) h] g] g show ?thesis by blast
qed

section \<open>A concrete delivery\<close>

text \<open>
  In the memory of the machine that boots in \<open>big_boot\<close>, the root task sends the first bytes of its
  image to the thread in slot 1, which waits with a buffer in its stack area.
\<close>

definition high_kstate :: "paging \<Rightarrow> kstate" where
  "high_kstate g = recv_kstate\<lparr>pg := g, threads := (threads recv_kstate)
     (1 := (threads recv_kstate 1)\<lparr>tf := zero_tf\<lparr>rsi := 0x40000007F000\<rparr>\<rparr>)\<rparr>"

lemma high_kstate_kinv: "kinv (high_kstate g)"
proof -
  have run: "running_ok (high_kstate g)"
    by (auto simp: high_kstate_def recv_kstate_def running_ok_def sched_inv_def zero_thread_def zero_kstate_def)
  have "ipc_inv (high_kstate g)"
    by (auto simp: high_kstate_def recv_kstate_def ipc_inv_def no_missed_def thread_ok_def in_recv_def in_send_def
        zero_thread_def is_sender_def zero_kstate_def)
  with run show ?thesis
    by (auto simp: kinv_def kmid_def tss_ok_def high_kstate_def recv_kstate_def zero_kstate_def zero_thread_def)
qed

lemma loaded_buffer:
  assumes "loaded g pr" and "unat (p - pr_base pr) + 32 \<le> 0x10000 \<or>
    unat (p - (pr_stack_top pr - STK_BYTES)) + 32 \<le> 0x4000"
  shows "msg_mapped g p"
proof -
  have off: "unat (p + of_nat k - b) = unat (p - b) + k" if "unat (p - b) + 32 \<le> 0x10000" "k < 32" for k and b :: u64
  proof -
    have "p + of_nat k - b = (p - b) + of_nat k" by simp
    then show ?thesis using that by (simp only: unat_word_ariths) (simp add: unat_of_nat take_bit_nat_eq_self)
  qed
  have "p + of_nat k \<in> area pr" if "k < 32" for k
    using assms(2) off [of "pr_base pr" k] off [of "pr_stack_top pr - STK_BYTES" k] that by (auto simp: area_def)
  then show ?thesis using assms(1) by (auto simp: msg_mapped_def list_all_iff loaded_def)
qed

lemma big_buffers:
  assumes "\<forall>i<PROG_COUNT. loaded g (mk_progs (b_images big_boot) (b_bases big_boot) i)"
  shows "msg_mapped g 0x400000000000" "msg_mapped g 0x40000007F000"
proof -
  have pr: "pr_base (mk_progs (b_images big_boot) (b_bases big_boot) 0) = 0x400000000000"
    "pr_stack_top (mk_progs (b_images big_boot) (b_bases big_boot) 0) = 0x400000080000"
    by (simp_all add: mk_progs_def big_boot_def demo_boot_def prog_bases_def)
  have l0: "loaded g (mk_progs (b_images big_boot) (b_bases big_boot) 0)" using assms by simp
  show "msg_mapped g 0x400000000000" "msg_mapped g 0x40000007F000"
    by (rule loaded_buffer [OF l0], simp add: pr)+
qed

section \<open>Properties\<close>

text \<open>C16: A message sent to a thread that waits for it arrives: in a state with the invariants of the
  kernel and of its memory, when the buffer of the waiting RECV is mapped at the time of the SEND,
  and as long as programs are decent, the receiver runs again within its wait for its turn; its RECV
  then returns the sender's number, and its buffer holds exactly the message sent.\<close>

theorem message_delivered:
  assumes "kinv s" and "mem_inv U D {} s" and "g_on_tick s" and "current s = Slot i" and "may_trap s f"
    and "vec f = SYSCALL_VECTOR" and "rax f = SYS_SEND" and "c_int (rdi f) = int j" and "j < SCHED_MAX_THREADS"
    and "ipc_send_allowed s (threads s i) (int j)" and "copy_in (pg s) (rsi f) = Some m"
    and "receiver_ready (threads s j) (int i)" and "kont (threads s j) = K_recv"
    and "msg_mapped (pg s) (rsi (tf (threads s j)))"
    and "t = isr_handler env f s" and "run es t = Some s'" and "allowed (decent_event D) es t"
    and "scan_dist t j < ticks es"
  shows "\<exists>n\<le>length es. \<exists>v. run (take n es) t = Some v \<and> current v = Slot j \<and>
    rax (tf (threads v j)) = of_nat i \<and> copy_in (pg v) (rsi (tf (threads s j))) = Some m"
proof -
  let ?p = "rsi (tf (threads s j))" and ?V = "buf_bytes (rsi (tf (threads s j)))"
  have h: "buf_high ?p" and ok: "mem_ok U D {} (pg s)" using assms(2,9,13) by (simp_all add: mem_inv_def)
  note buf = mem_ok_buffer [OF ok h assms(14)]
  have mv: "mem_inv U D ?V s" using assms(2) buf(1) by (simp add: mem_inv_def)
  have cur: "i < SCHED_MAX_THREADS" "tid (threads s i) = int i" "tstate (threads s i) = T_RUNNING"
    using kmid_current [OF kinv_kmid [OF assms(1)] assms(4)] by blast+
  then have ne: "i \<noteq> j" using assms(12) by (auto simp: receiver_ready_def)
  have "decent D s f" using assms(7) by (simp add: decent_def)
  then have tm: "mem_inv U D ?V (isr_code env f s)"
    using assms(1,5) mv by (intro mem.isr_I) (simp_all add: decent_event_def)
  have "t = isr_code env f s" using isr_code_eq(1) [of env f s] mem_clean [OF tm] by (simp add: assms(15))
  then have t: "t = set_rax (Slot i) 0 (upd_thr (Slot j) (deliver m (int i))
      (upd_thr (Slot i) (\<lambda>t. t\<lparr>ipc_call_to := int j\<rparr>) (save_frame f s)))"
    and mt: "mem_inv U D ?V t"
    using send_now [OF assms(6-9,4) cur(2) assms(10-12) ne] tm by simp_all
  have tj: "threads t j = deliver m (int i) (threads s j)" and gt: "g_on_tick t"
    using ne assms(3,4) by (simp_all add: t save_frame_def set_rax_def)
  have st: "tstate (threads t j) = T_RUNNABLE" "kont (threads t j) = K_recv" "ipc_state (threads t j) = IPC_NONE"
    "ipc_buf (threads t j) = m" "ipc_from (threads t j) = int i" "tf (threads t j) = tf (threads s j)"
    using assms(12,13) by (simp_all add: tj deliver_def receiver_ready_def)
  have k: "kinv t" using isr_handler_kinv [OF assms(1,5)] mem_clean [OF mt] by (simp add: assms(15))
  have q: "kont_weight (kont (threads t j)) = 0" by (simp add: st kont_weight_def)
  have "\<not> clobbered (pg s')" using run_inv [OF assms(16,17) k mt] mem_clean by blast
  from mem.run_turn [OF k mt kinv_parked [OF k assms(9) st(1)] q gt assms(16,17) this assms(18)]
  obtain n v u e where n: "n \<le> length es" "run (take n es) t = Some v" "picked j t u" "mem_inv U D ?V u"
    and v: "v = fst (run_kont e (Slot j) u)" by blast
  have u: "kont (threads u j) = K_recv" "ipc_state (threads u j) = IPC_NONE" "ipc_buf (threads u j) = m"
    "ipc_from (threads u j) = int i" "tf (threads u j) = tf (threads s j)" "current u = Slot j"
    using n(3) st by (simp_all add: picked_def same_wait_def)
  obtain g where g: "copy_out (pg u) ?p m = Some g" "copy_in g ?p = Some m"
    using buffer_receives [OF n(4) h buf(2)] by blast
  have "rax (tf (threads v j)) = c_ret (int i) \<and> pg v = g"
    using run_kont_recv [OF u(1) _ _ v] u g(1) by simp
  moreover have "current v = Slot j"
    using run_kont_quick(2) [of u "Slot j" e] u by (simp add: v kont_weight_def)
  ultimately show ?thesis using n(1,2) g(2) by auto
qed

theorem message_delivered_witness:
  "\<exists>s m. kinv s \<and> copy_in (pg s) 0x400000000000 = Some m \<and>
     (\<exists>n\<le>1. \<exists>v. run (take n [user_tick]) (isr_handler demo_env (syscall_frame SYS_SEND 1 0x400000000000 0) s) = Some v \<and>
       current v = Slot 1 \<and> rax (tf (threads v 1)) = 0 \<and> copy_in (pg v) 0x40000007F000 = Some m)"
proof -
  let ?f = "syscall_frame SYS_SEND 1 0x400000000000 0"
  have pg: "pg big_start = boot_long_mode 0x1000 0x2000 0x3000 blank_paging" by (simp add: big_start_def)
  obtain g lvl where b: "\<forall>i<PROG_COUNT. loaded g (mk_progs (b_images big_boot) (b_bases big_boot) i)"
    "tables_ok lvl g" "apart (avail (boot_pmm big_boot (pg_pmm (pg big_start))) \<union> {0xB8000}) {0xB8000} lvl g"
    "\<forall>v. va_index 39 v \<noteq> 0 \<longrightarrow> walk_open g v"
    by (rule boot_loads [OF big_fits(3,2) pg big_fits(1) screen_apart])
  let ?U = "avail (boot_pmm big_boot (pg_pmm (pg big_start))) \<union> {0xB8000}" and ?s = "high_kstate g"
    and ?t = "isr_handler demo_env (syscall_frame SYS_SEND 1 0x400000000000 0) (high_kstate g)"
  note mm = big_buffers [OF b(1)]
  obtain m where m: "copy_in g 0x400000000000 = Some m" using mm(1) copy_out_defined(2) by blast
  have bh: "buf_high 0x40000007F000" by code_simp
  have mi: "mem_inv ?U {0xB8000} {} ?s"
    using b(2-4) bh by (auto simp: mem_inv_def mem_ok_def stray_def high_kstate_def recv_kstate_def zero_thread_def
        zero_kstate_def)
  have s: "g_on_tick ?s" "current ?s = Slot 0" "tid (threads ?s 0) = 0" "pg ?s = g"
    "receiver_ready (threads ?s 1) (int 0)" "kont (threads ?s 1) = K_recv" "\<not> halted ?s"
    "rsi (tf (threads ?s 1)) = 0x40000007F000"
    by (simp_all add: high_kstate_def recv_kstate_def receiver_ready_def zero_kstate_def)
  have f: "vec ?f = SYSCALL_VECTOR" "rax ?f = SYS_SEND" "c_int (rdi ?f) = int 1" "rsi ?f = 0x400000000000" "cs ?f = USER_CS"
    by (simp_all add: syscall_frame_def c_int_def)
  have may: "may_trap ?s ?f" using f s(2) by (simp add: may_trap_def)
  have al: "ipc_send_allowed ?s (threads ?s 0) (int 1)" using s(3) by (simp add: ipc_send_allowed_def)
  have code: "isr_code demo_env ?f ?s = set_rax (Slot 0) 0 (upd_thr (Slot 1) (deliver m (int 0))
      (upd_thr (Slot 0) (\<lambda>t. t\<lparr>ipc_call_to := int 1\<rparr>) (save_frame ?f ?s)))"
    using s al m f by (intro send_now) simp_all
  then have t: "?t = set_rax (Slot 0) 0 (upd_thr (Slot 1) (deliver m (int 0))
      (upd_thr (Slot 0) (\<lambda>t. t\<lparr>ipc_call_to := int 1\<rparr>) (save_frame ?f ?s)))"
    by (subst isr_code_eq(2)) simp_all
  have sd: "scan_dist ?t 1 < ticks [user_tick]"
    using s by (simp add: t scan_dist_def scan_from_def ticks_def is_tick_def user_tick_def timer_frame_def set_rax_def
        save_frame_def)
  obtain v where v: "run [user_tick] ?t = Some v"
    using s by (auto simp: t user_tick_def may_trap_def timer_frame_def set_rax_def save_frame_def)
  have ev: "allowed (decent_event {0xB8000}) [user_tick] ?t"
    by (auto simp: user_tick_def decent_event_def decent_def timer_frame_def split: option.split)
  have "\<exists>n\<le>length [user_tick]. \<exists>v. run (take n [user_tick]) ?t = Some v \<and> current v = Slot 1 \<and>
    rax (tf (threads v 1)) = of_nat 0 \<and> copy_in (pg v) (rsi (tf (threads ?s 1))) = Some m"
    by (rule message_delivered [OF high_kstate_kinv mi s(1,2) may f(1-3) _ al _ s(5,6) _ refl v ev sd])
       (use m mm(2) s(4,8) f(4) in simp_all)
  with high_kstate_kinv m s(4,8) show ?thesis by (intro exI [of _ ?s] exI [of _ m]) simp
qed

end
