(* ===== verification/Usys.thy ===== *)
theory Usys
  imports Kernel
begin

text \<open>
  The runtime of user programs (\<^verbatim>\<open>lib/usys.h\<close>): the system call stubs, the
  messages of the console protocol, and the composition of printed lines in fixed buffers.  A C
  string is the list of bytes from its address; reading stops at the first NUL, and past the
  end of the list there is one.
\<close>

section \<open>System call stubs\<close>

text \<open>\<open>int 0x80\<close> with the registers loaded; the others are as the program left them.\<close>

definition sc :: "u64 \<Rightarrow> u64 \<Rightarrow> u64 \<Rightarrow> trapframe \<Rightarrow> trapframe" where
  "sc n a b f = f\<lparr>vec := SYSCALL_VECTOR, rax := n, rdi := a, rsi := b\<rparr>"

definition u_exit :: "u64 \<Rightarrow> trapframe \<Rightarrow> trapframe" where "u_exit code = sc SYS_EXIT code 0"
definition u_putc :: "u8 \<Rightarrow> trapframe \<Rightarrow> trapframe" where "u_putc c = sc SYS_PUTC (ucast c) 0"
definition u_send :: "u64 \<Rightarrow> u64 \<Rightarrow> trapframe \<Rightarrow> trapframe" where "u_send dst m = sc SYS_SEND dst m"
definition u_recv :: "u64 \<Rightarrow> u64 \<Rightarrow> trapframe \<Rightarrow> trapframe" where "u_recv src m = sc SYS_RECV src m"
definition u_spawn :: "u64 \<Rightarrow> trapframe \<Rightarrow> trapframe" where "u_spawn prog = sc SYS_SPAWN prog 0"
definition u_map :: "u64 \<Rightarrow> trapframe \<Rightarrow> trapframe" where "u_map va = sc SYS_MAP va 0"
definition u_set_pager :: "trapframe \<Rightarrow> trapframe" where "u_set_pager = sc SYS_SET_PAGER 0 0"
definition u_gettid :: "trapframe \<Rightarrow> trapframe" where "u_gettid = sc SYS_GETTID 0 0"
definition u_uptime :: "trapframe \<Rightarrow> trapframe" where "u_uptime = sc SYS_UPTIME 0 0"
definition u_meminfo :: "u64 \<Rightarrow> trapframe \<Rightarrow> trapframe" where "u_meminfo w = sc SYS_MEMINFO w 0"
definition u_tinfo :: "u64 \<Rightarrow> trapframe \<Rightarrow> trapframe" where "u_tinfo t = sc SYS_TINFO t 0"
definition u_irq_register :: "u64 \<Rightarrow> trapframe \<Rightarrow> trapframe" where "u_irq_register irq = sc SYS_IRQ_REGISTER irq 0"
definition u_map_phys :: "u64 \<Rightarrow> u64 \<Rightarrow> trapframe \<Rightarrow> trapframe" where "u_map_phys va pa = sc SYS_MAP_PHYS va pa"
definition u_grant_cap :: "u64 \<Rightarrow> u64 \<Rightarrow> trapframe \<Rightarrow> trapframe" where "u_grant_cap t ep = sc SYS_GRANT_CAP t ep"
definition u_outb :: "u64 \<Rightarrow> u64 \<Rightarrow> trapframe \<Rightarrow> trapframe" where "u_outb port v = sc SYS_OUTB port v"
definition u_inb :: "u64 \<Rightarrow> trapframe \<Rightarrow> trapframe" where "u_inb port = sc SYS_INB port 0"
definition u_inw :: "u64 \<Rightarrow> trapframe \<Rightarrow> trapframe" where "u_inw port = sc SYS_INW port 0"
definition u_grant_io :: "u64 \<Rightarrow> u64 \<Rightarrow> u64 \<Rightarrow> trapframe \<Rightarrow> trapframe" where
  "u_grant_io t base len f = (sc SYS_GRANT_IO t base f)\<lparr>rdx := len\<rparr>"

section \<open>Strings\<close>

fun c0 :: "u8 list \<Rightarrow> u8" where
  "c0 [] = 0"
| "c0 (c # s) = c"

text \<open>The characters of a string.\<close>

definition cstr :: "u8 list \<Rightarrow> u8 list" where
  "cstr s = takeWhile (\<lambda>c. c \<noteq> 0) s"

fun u_strlen :: "u8 list \<Rightarrow> nat" where
  "u_strlen [] = 0"
| "u_strlen (c # s) = (if c \<noteq> 0 then Suc (u_strlen s) else 0)"

lemma u_strlen_cstr: "u_strlen s = length (cstr s)"
  by (induction s) (auto simp: cstr_def)

text \<open>\<open>while (*a && *a == *b) { a++; b++; } return *a == *b;\<close>, of several programs.\<close>

function str_eq :: "u8 list \<Rightarrow> u8 list \<Rightarrow> bool" where
  "str_eq a b = (if c0 a \<noteq> 0 \<and> c0 a = c0 b then str_eq (tl a) (tl b) else c0 a = c0 b)"
  by auto
termination
proof (relation "measure (length \<circ> fst)", goal_cases)
  case (2 a b)
  then show ?case by (cases a) auto
qed simp

declare str_eq.simps [simp del]

lemma str_eq_iff: "str_eq a b \<longleftrightarrow> cstr a = cstr b"
proof (induction a b rule: str_eq.induct)
  case (1 a b)
  show ?case
  proof (cases "c0 a \<noteq> 0 \<and> c0 a = c0 b")
    case True
    then have "str_eq a b = str_eq (tl a) (tl b)" by (subst str_eq.simps) auto
    with 1 True show ?thesis by (cases a; cases b) (auto simp: cstr_def)
  next
    case False
    then have "str_eq a b \<longleftrightarrow> c0 a = c0 b" by (subst str_eq.simps) auto
    with False show ?thesis by (cases a; cases b) (auto simp: cstr_def)
  qed
qed

section \<open>Console requests\<close>

abbreviation CON_TID :: int where "CON_TID \<equiv> 1"
abbreviation BLK_TID :: int where "BLK_TID \<equiv> 2"
abbreviation VM_TID :: int where "VM_TID \<equiv> 3"
abbreviation PM_TID :: int where "PM_TID \<equiv> 4"
abbreviation FS_TID :: int where "FS_TID \<equiv> 5"
abbreviation VGA_TID :: int where "VGA_TID \<equiv> 6"

definition con_write :: "u64 \<Rightarrow> u32 \<Rightarrow> ipc_msg" where
  "con_write p len = zero_msg\<lparr>m_label := MSG_WRITE, m_data0 := p, m_data1 := ucast len\<rparr>"

definition con_puts :: "u64 \<Rightarrow> u8 list \<Rightarrow> ipc_msg" where
  "con_puts p s = con_write p (of_nat (u_strlen s))"

definition con_readline :: "u64 \<Rightarrow> u32 \<Rightarrow> ipc_msg" where
  "con_readline buf max_n = zero_msg\<lparr>m_label := MSG_READLINE, m_data0 := buf, m_data1 := ucast max_n\<rparr>"

definition readline_result :: "ipc_msg \<Rightarrow> u32" where
  "readline_result r = ucast (m_data0 r)"

section \<open>Numbers and lines\<close>

text \<open>\<open>while (i) o[j++] = b[--i];\<close>\<close>

fun copy_back :: "u8 list \<Rightarrow> nat \<Rightarrow> u8 list" where
  "copy_back b 0 = []"
| "copy_back b (Suc i) = b ! i # copy_back b i"

definition con_putu :: "u64 \<Rightarrow> u8 list" where
  "con_putu v = (if v = 0 then [0x30] else let b = dec_digits v in copy_back b (length b))"

definition con_puthex :: "u64 \<Rightarrow> u8 list" where
  "con_puthex v = [0x30, 0x78] @ map (\<lambda>k. hex_digit (unat (drop_bit (60 - 4 * k) v AND 0xF))) [0..<16]"

text \<open>
  Appending to the buffer of 160 bytes of \<open>con_linef\<close> and \<open>con_linex\<close>; \<open>None\<close> is a write past
  its end.
\<close>

abbreviation LINE_BYTES :: nat where "LINE_BYTES \<equiv> 160"

definition put1 :: "u8 \<Rightarrow> u8 list \<Rightarrow> u8 list option" where
  "put1 c b = (if length b < LINE_BYTES then Some (b @ [c]) else None)"

fun cl_cpy :: "u8 list \<Rightarrow> u8 list \<Rightarrow> u8 list option" where
  "cl_cpy b [] = Some b"
| "cl_cpy b (c # s) = (if c = 0 then Some b else case put1 c b of None \<Rightarrow> None | Some b' \<Rightarrow> cl_cpy b' s)"

fun put_all :: "u8 list \<Rightarrow> u8 list \<Rightarrow> u8 list option" where
  "put_all b [] = Some b"
| "put_all b (c # s) = (case put1 c b of None \<Rightarrow> None | Some b' \<Rightarrow> put_all b' s)"

definition con_linef :: "u8 list \<Rightarrow> u64 \<Rightarrow> u8 list \<Rightarrow> u8 list option" where
  "con_linef a n b =
     (case cl_cpy [] a of None \<Rightarrow> None
      | Some buf \<Rightarrow>
        let t = (if n = 0 then [0x30] else []) @ dec_digits n
        in case put_all buf (copy_back t (length t)) of None \<Rightarrow> None
           | Some buf' \<Rightarrow> cl_cpy buf' b)"

definition con_linex :: "u8 list \<Rightarrow> u64 \<Rightarrow> u8 list \<Rightarrow> u8 list option" where
  "con_linex a n b =
     (case cl_cpy [] a of None \<Rightarrow> None
      | Some buf \<Rightarrow> case put_all buf ([0x30, 0x78] @ map (\<lambda>k. hex_digit (unat (drop_bit (60 - 4 * k) n AND 0xF))) [0..<16]) of
          None \<Rightarrow> None
        | Some buf' \<Rightarrow> cl_cpy buf' b)"

text \<open>The printers that make one SYS\_PUTC per character.\<close>

definition u_puts :: "u8 list \<Rightarrow> u8 list" where
  "u_puts s = cstr s"

definition u_putdec :: "u64 \<Rightarrow> u8 list" where
  "u_putdec v = (if v = 0 then [0x30] else let b = dec_digits v in copy_back b (length b))"

definition u_puthex :: "u64 \<Rightarrow> u8 list" where
  "u_puthex v = u_puts [0x30, 0x78] @ map (\<lambda>k. hex_digit (unat (drop_bit (60 - 4 * k) v AND 0xF))) [0..<16]"

section \<open>Facts\<close>

lemma copy_back_rev: "i \<le> length b \<Longrightarrow> copy_back b i = rev (take i b)"
  by (induction i) (auto simp: take_Suc_conv_app_nth)

lemma copy_back_all [simp]: "copy_back b (length b) = rev b"
  by (simp add: copy_back_rev)

lemma put_all_eq: "length b \<le> LINE_BYTES \<Longrightarrow> put_all b s = (if length b + length s \<le> LINE_BYTES then Some (b @ s) else None)"
  by (induction s arbitrary: b) (auto simp: put1_def)

lemma cl_cpy_put_all: "cl_cpy b s = put_all b (cstr s)"
  by (induction s arbitrary: b) (auto simp: cstr_def split: option.split)

lemma put_all_append:
  "put_all b (s @ t) = (case put_all b s of None \<Rightarrow> None | Some b' \<Rightarrow> put_all b' t)"
  by (induction s arbitrary: b) (auto split: option.split)

lemma hex_text: "put_hex v = [0x30, 0x78] @ map (\<lambda>k. hex_digit (unat (drop_bit (60 - 4 * k) v AND 0xF))) [0..<16]"
  by (simp add: put_hex_def str_def of_char_def)

lemma linef_put_all: "con_linef a n b = put_all [] (cstr a @ put_dec n @ cstr b)"
  unfolding con_linef_def cl_cpy_put_all Let_def copy_back_all
  by (simp add: put_all_append put_dec_def dec_digits.simps [of 0] split: option.split)

lemma linex_put_all: "con_linex a n b = put_all [] (cstr a @ put_hex n @ cstr b)"
  unfolding con_linex_def cl_cpy_put_all hex_text [symmetric]
  by (simp add: put_all_append split: option.split)

lemma sc_dispatch:
  "isr_code env (sc n a b f) s = then_resume env (do_syscall env (current s) (sc n a b f) (save_frame (sc n a b f) s))"
  by (simp add: isr_code_def sc_def Let_def)

lemma c_int_ret: "- (2 ^ 31) \<le> d \<Longrightarrow> d < 2 ^ 31 \<Longrightarrow> c_int (c_ret d) = d"
proof -
  assume d: "- (2 ^ 31) \<le> d" "d < 2 ^ 31"
  have "ucast (c_ret d) = (word_of_int d :: u32)"
    unfolding c_ret_def by transfer simp
  then have "c_int (c_ret d) = sint (word_of_int d :: u32)" by (simp add: c_int_def)
  also have "\<dots> = d" using d by (simp add: sint_sbintrunc' signed_take_bit_int_eq_self)
  finally show ?thesis .
qed

section \<open>Properties\<close>

text \<open>A line composed by \<open>con_linef\<close> or \<open>con_linex\<close> is the first text, the number and the
  second text; it overruns the buffer of 160 bytes exactly when these are longer together.\<close>

theorem con_line_exact:
  "con_linef a n b = (if u_strlen a + length (put_dec n) + u_strlen b \<le> 160
      then Some (cstr a @ put_dec n @ cstr b) else None) \<and>
   con_linex a n b = (if u_strlen a + 18 + u_strlen b \<le> 160
      then Some (cstr a @ put_hex n @ cstr b) else None)"
  by (simp add: linef_put_all linex_put_all put_all_eq u_strlen_cstr put_hex_length add.assoc)

text \<open>The printers of user programs and the kernel's panic output write numbers alike.\<close>

theorem printers_agree:
  "con_putu v = put_dec v \<and> u_putdec v = put_dec v \<and> con_puthex v = put_hex v \<and> u_puthex v = put_hex v"
  by (auto simp: con_putu_def u_putdec_def put_dec_def con_puthex_def u_puthex_def u_puts_def cstr_def hex_text Let_def)

text \<open>Each stub of the runtime reaches the kernel's handler of its system call, with the
  arguments in the registers the handler reads.\<close>

theorem stubs_reach_handlers:
  "isr_code env (u_send (c_ret d) m f) s =
     then_resume env (sys_send env (current s) (u_send (c_ret d) m f) (save_frame (u_send (c_ret d) m f) s)) \<and>
   isr_code env (u_recv (c_ret d) m f) s =
     then_resume env (sys_recv env (current s) (u_recv (c_ret d) m f) (save_frame (u_recv (c_ret d) m f) s)) \<and>
   isr_code env (u_spawn n f) s = sys_spawn (current s) (u_spawn n f) (save_frame (u_spawn n f) s) \<and>
   isr_code env (u_map va f) s = sys_map (current s) (u_map va f) (save_frame (u_map va f) s) \<and>
   isr_code env (u_outb n va f) s = sys_outb (current s) (u_outb n va f) (save_frame (u_outb n va f) s) \<and>
   isr_code env (u_inb n f) s = sys_inb env (current s) (u_inb n f) (save_frame (u_inb n f) s) \<and>
   isr_code env (u_inw n f) s = sys_inw env (current s) (u_inw n f) (save_frame (u_inw n f) s) \<and>
   isr_code env (u_irq_register n f) s =
     sys_irq_register (current s) (u_irq_register n f) (save_frame (u_irq_register n f) s) \<and>
   isr_code env (u_map_phys va n f) s = sys_map_phys (current s) (u_map_phys va n f) (save_frame (u_map_phys va n f) s) \<and>
   isr_code env (u_grant_cap n m f) s = sys_grant_cap (current s) (u_grant_cap n m f) (save_frame (u_grant_cap n m f) s) \<and>
   rdi (u_send (c_ret d) m f) = c_ret d \<and> rsi (u_send (c_ret d) m f) = m \<and> rdx (u_grant_io n m va f) = va"
  by (simp add: u_send_def u_recv_def u_spawn_def u_map_def u_outb_def u_inb_def u_inw_def u_irq_register_def
      u_map_phys_def u_grant_cap_def u_grant_io_def sc_dispatch)
    (simp add: sc_def do_syscall_def then_resume_def Let_def)

end
