(* ===== verification/Script.thy ===== *)
theory Script
  imports Usys KInv
begin

text \<open>
  User programs as scripts of system calls: a program does calls one after the other, and what it
  does next may depend on the messages it receives, the threads it spawns, the answers of the
  kernel and the memory it reads.  The constructors are the stubs of \<^verbatim>\<open>lib/usys.h\<close>
  that the servers use; \<open>A_puts\<close> is \<open>con_puts\<close> of a literal, \<open>A_print\<close> of bytes
  in memory, and \<open>A_line\<close> the
  composed line of \<open>con_linef\<close> or \<open>con_linex\<close>.
\<close>

section \<open>Scripts\<close>

datatype uact =
    A_send int ipc_msg
  | A_grant_io int u64 u64
  | A_grant_cap int int
  | A_map u64
  | A_map_phys u64 u64
  | A_set_pager
  | A_puts string
  | A_print "u8 list"
  | A_line "u8 list option"
  | A_store u64 u64
  | A_irq_register u64
  | A_outb u64 u64
  | A_inb u64

datatype question = Q_tinfo u64 | Q_meminfo u64 | Q_uptime | Q_gettid

datatype 'a script =
    Done 'a
  | Do uact "'a script"
  | Spawn_then u64 "int \<Rightarrow> 'a script"
  | Send_then int ipc_msg "int \<Rightarrow> 'a script"
  | Recv_then int "int \<times> ipc_msg \<Rightarrow> 'a script"
  | Ask_then question "u64 \<Rightarrow> 'a script"
  | Load_then u64 nat "u8 list \<Rightarrow> 'a script"

definition seq :: "uact list \<Rightarrow> 'a script \<Rightarrow> 'a script" where
  "seq = foldr Do"

lemma seq_simps [simp]: "seq [] k = k" "seq (a # as) k = Do a (seq as k)"
  by (simp_all add: seq_def)

text \<open>A call of a server: \<open>u_send\<close> and \<open>u_recv\<close> of its reply.\<close>

definition call :: "int \<Rightarrow> ipc_msg \<Rightarrow> (ipc_msg \<Rightarrow> 'a script) \<Rightarrow> 'a script" where
  "call srv m k = Do (A_send srv m) (Recv_then srv (\<lambda>(_, r). k r))"

text \<open>Printing memory, and printing a number.\<close>

definition con_write_then :: "u64 \<Rightarrow> u32 \<Rightarrow> 'a script \<Rightarrow> 'a script" where
  "con_write_then p len k = call CON_TID (con_write p len) (\<lambda>_. k)"

section \<open>Programs in a world\<close>

text \<open>
  The world of a program: what its calls do to the rest of the system, as far as the program can
  tell.  The system the world stands for is given where a script is run.
\<close>

record 'w world =
  w_act :: "uact \<Rightarrow> 'w \<Rightarrow> 'w"
  w_spawn :: "u64 \<Rightarrow> 'w \<Rightarrow> int \<times> 'w"
  w_send :: "int \<Rightarrow> ipc_msg \<Rightarrow> 'w \<Rightarrow> int \<times> 'w"
  w_recv :: "int \<Rightarrow> 'w \<Rightarrow> (int \<times> ipc_msg) \<times> 'w"
  w_ask :: "question \<Rightarrow> 'w \<Rightarrow> u64"
  w_load :: "u64 \<Rightarrow> nat \<Rightarrow> 'w \<Rightarrow> u8 list"

primrec runs :: "'w world \<Rightarrow> 'a script \<Rightarrow> 'w \<Rightarrow> 'a \<times> 'w" where
  "runs W (Done x) w = (x, w)"
| "runs W (Do a k) w = runs W k (w_act W a w)"
| "runs W (Spawn_then p k) w = (case w_spawn W p w of (t, w') \<Rightarrow> runs W (k t) w')"
| "runs W (Send_then d m k) w = (case w_send W d m w of (r, w') \<Rightarrow> runs W (k r) w')"
| "runs W (Recv_then src k) w = (case w_recv W src w of (m, w') \<Rightarrow> runs W (k m) w')"
| "runs W (Ask_then q k) w = runs W (k (w_ask W q w)) w"
| "runs W (Load_then p n k) w = runs W (k (w_load W p n w)) w"

section \<open>Programs on the kernel\<close>

text \<open>The trap frames of the calls that change who may do what.\<close>

fun stub :: "uact \<Rightarrow> (trapframe \<Rightarrow> trapframe) option" where
  "stub (A_grant_io t b l) = Some (u_grant_io (c_ret t) b l)"
| "stub (A_grant_cap t e) = Some (u_grant_cap (c_ret t) (c_ret e))"
| "stub _ = None"

text \<open>
  What the rest of the system may do between two of these calls of a program: anything that
  neither changes a capability table nor creates or ends a thread.
\<close>

definition vacant :: "kstate \<Rightarrow> nat \<Rightarrow> bool" where
  "vacant s i \<longleftrightarrow> tstate (threads s i) \<in> {T_UNUSED, T_DEAD}"

definition quiet :: "kstate \<Rightarrow> kstate \<Rightarrow> bool" where
  "quiet s t \<longleftrightarrow> (\<forall>i<SCHED_MAX_THREADS. ctable (threads t i) = ctable (threads s i) \<and>
     tid (threads t i) = tid (threads s i) \<and> vacant t i = vacant s i)"

text \<open>Thread \<open>p\<close> runs the script from state \<open>s\<close> to its end in state \<open>t\<close>.\<close>

inductive proceeds :: "nat \<Rightarrow> 'a script \<Rightarrow> kstate \<Rightarrow> kstate \<Rightarrow> bool" for p where
  finish: "proceeds p (Done x) s s"
| wait: "quiet s t \<Longrightarrow> proceeds p k t u \<Longrightarrow> proceeds p k s u"
| act: "stub a = None \<Longrightarrow> proceeds p k s u \<Longrightarrow> proceeds p (Do a k) s u"
| call: "stub a = Some g \<Longrightarrow> current s = Slot p \<Longrightarrow> proceeds p k (isr_handler env (g f) s) u \<Longrightarrow>
    proceeds p (Do a k) s u"
| spawn: "current s = Slot p \<Longrightarrow> t = isr_handler env (u_spawn n f) s \<Longrightarrow>
    proceeds p (k (sint (rax (tf (threads t p))))) t u \<Longrightarrow> proceeds p (Spawn_then n k) s u"
| send: "proceeds p (k r) s u \<Longrightarrow> proceeds p (Send_then d m k) s u"
| recv: "proceeds p (k m) s u \<Longrightarrow> proceeds p (Recv_then src k) s u"
| ask: "proceeds p (k x) s u \<Longrightarrow> proceeds p (Ask_then q k) s u"
| load: "proceeds p (k xs) s u \<Longrightarrow> proceeds p (Load_then a n k) s u"

section \<open>Authority as lists\<close>

text \<open>
  The capability tables of the threads as lists: a table is filled from its first slot on.
\<close>

abbreviation ep_cap :: "int \<Rightarrow> cap" where
  "ep_cap e \<equiv> null_cap\<lparr>cap_type := CAP_ENDPOINT, cap_target := e, cap_rights := CAP_RIGHT_SEND\<rparr>"

abbreviation io_cap :: "u16 \<Rightarrow> u16 \<Rightarrow> cap" where
  "io_cap b l \<equiv> null_cap\<lparr>cap_type := CAP_IOPORT, io_base := b, io_len := l\<rparr>"

definition is_ep :: "int \<Rightarrow> cap \<Rightarrow> bool" where
  "is_ep e c \<longleftrightarrow> cap_type c = CAP_ENDPOINT \<and> cap_target c = e"

definition holds_caps :: "thread \<Rightarrow> cap list \<Rightarrow> bool" where
  "holds_caps t cl \<longleftrightarrow> length cl \<le> CAP_MAX \<and> (\<forall>c\<in>set cl. cap_type c \<noteq> CAP_NULL) \<and>
     (\<forall>i<CAP_MAX. ctable t i = (if i < length cl then cl ! i else null_cap))"

definition authority :: "kstate \<Rightarrow> cap list list \<Rightarrow> bool" where
  "authority s A \<longleftrightarrow> length A \<le> SCHED_MAX_THREADS \<and>
     (\<forall>i<SCHED_MAX_THREADS. tid (threads s i) = int i \<and> vacant s i = (length A \<le> i)) \<and>
     (\<forall>i<length A. holds_caps (threads s i) (A ! i))"

definition add_ep :: "int \<Rightarrow> cap list \<Rightarrow> cap list" where
  "add_ep e cl = (if \<exists>c\<in>set cl. is_ep e c then cl else cl @ [ep_cap e])"

lemma holds_some:
  assumes "holds_caps t cl" "\<not> P null_cap"
  shows "(\<exists>i<CAP_MAX. P (ctable t i)) \<longleftrightarrow> (\<exists>c\<in>set cl. P c)"
proof
  assume "\<exists>i<CAP_MAX. P (ctable t i)"
  then obtain i where i: "i < CAP_MAX" "P (ctable t i)" by blast
  with assms have "i < length cl" "P (cl ! i)" by (auto simp: holds_caps_def split: if_splits)
  then show "\<exists>c\<in>set cl. P c" by (metis nth_mem)
next
  assume "\<exists>c\<in>set cl. P c"
  then obtain i where i: "i < length cl" "P (cl ! i)" by (metis in_set_conv_nth)
  moreover from assms(1) i have "i < CAP_MAX" "ctable t i = cl ! i" by (auto simp: holds_caps_def)
  ultimately show "\<exists>i<CAP_MAX. P (ctable t i)" by (intro exI [of _ i]) simp
qed

lemma holds_endpoint:
  "holds_caps t cl \<Longrightarrow> cap_has_endpoint (Some t) e \<longleftrightarrow> (\<exists>c\<in>set cl. is_ep e c)"
  unfolding has_endpoint_iff is_ep_def [symmetric] by (rule holds_some) (simp_all add: is_ep_def null_cap_def)

lemma holds_port:
  "holds_caps t cl \<Longrightarrow> cap_has_port (Some t) q \<longleftrightarrow> (\<exists>c\<in>set cl. cap_covers_port c q)"
  unfolding has_port_iff by (rule holds_some) (simp_all add: cap_covers_port_def null_cap_def)

lemma holds_free: "holds_caps t cl \<Longrightarrow> length cl < CAP_MAX \<Longrightarrow> free_slot t = Some (length cl)"
  unfolding free_slot_Some_iff holds_caps_def by (auto simp: null_cap_def)

lemma holds_add:
  assumes "holds_caps t cl" "length cl < CAP_MAX" "cap_type c \<noteq> CAP_NULL"
  shows "holds_caps (set_slot t (length cl) c) (cl @ [c])"
  using assms by (auto simp: holds_caps_def nth_append)

lemma grant_endpoint_list:
  assumes "holds_caps t cl" "length (add_ep e cl) \<le> CAP_MAX"
  shows "holds_caps (fst (endpoint_grant t e)) (add_ep e cl)"
proof (cases "\<exists>c\<in>set cl. is_ep e c")
  case True
  then show ?thesis using assms by (simp add: endpoint_grant_def holds_endpoint add_ep_def)
next
  case False
  then have l: "length cl < CAP_MAX" using assms(2) by (simp add: add_ep_def)
  have "ctable t (length cl) = null_cap" using assms(1) l by (simp add: holds_caps_def)
  with False holds_add [OF assms(1) l, of "ep_cap e"] show ?thesis
    by (simp add: endpoint_grant_def holds_endpoint [OF assms(1)] holds_free [OF assms(1) l] add_ep_def)
qed

lemma grant_port_list:
  assumes "holds_caps t cl" "length cl < CAP_MAX"
  shows "holds_caps (fst (port_grant t (b, l))) (cl @ [io_cap b l])"
proof -
  have "ctable t (length cl) = null_cap" using assms by (simp add: holds_caps_def)
  with holds_add [OF assms, of "io_cap b l"] show ?thesis
    by (simp add: port_grant_def holds_free [OF assms])
qed

lemma clear_list: "holds_caps (cap_clear t) []"
  by (simp add: holds_caps_def cap_clear_def)

section \<open>Calls that change authority\<close>

lemma authority_quiet: "quiet s t \<Longrightarrow> authority s A \<longleftrightarrow> authority t A"
  unfolding authority_def quiet_def holds_caps_def by (intro conj_cong) auto

lemma quiet_save_frame: "quiet s (save_frame f s)"
  by (simp add: quiet_def save_frame_def vacant_def thr_upd_thr)

lemma quiet_set_rax: "quiet s (set_rax p v s)"
  by (simp add: quiet_def set_rax_def vacant_def)

lemma authority_upd:
  assumes "authority s A" "d < length A" "holds_caps (g (threads s d)) cl"
    "tid (g (threads s d)) = tid (threads s d)" "tstate (g (threads s d)) = tstate (threads s d)"
  shows "authority (upd_thr (Slot d) g s) (A[d := cl])"
proof -
  have "vacant (upd_thr (Slot d) g s) i = vacant s i" for i
    using assms(5) by (cases "d = i") (simp_all add: vacant_def)
  then show ?thesis
    using assms(1-4) unfolding authority_def by (simp add: nth_list_update)
qed

lemma grant_frame:
  "tid (fst (endpoint_grant t e)) = tid t" "tstate (fst (endpoint_grant t e)) = tstate t"
  "tid (fst (port_grant t q)) = tid t" "tstate (fst (port_grant t q)) = tstate t"
  by (simp_all add: endpoint_grant_def port_grant_def frame_simps split: option.split)

lemma isr_simple:
  "isr_handler env (u_grant_cap a b f) s = sys_grant_cap (current s) (u_grant_cap a b f) (save_frame (u_grant_cap a b f) s)"
  "isr_handler env (u_grant_io a b l f) s = sys_grant_io (current s) (u_grant_io a b l f) (save_frame (u_grant_io a b l f) s)"
  "isr_handler env (u_spawn n f) s = sys_spawn (current s) (u_spawn n f) (save_frame (u_spawn n f) s)"
  by (subst isr_code_eq(2),
      simp_all add: u_grant_cap_def u_grant_io_def u_spawn_def isr_code_def sc_def do_syscall_def then_resume_def Let_def)+

lemma grant_cap_authority:
  assumes "authority s A" "current s = Slot p" "p < length A" "d < length A"
    and "p = 0 \<or> (\<exists>c\<in>set (A ! p). is_ep e c)" "length (add_ep e (A ! d)) \<le> CAP_MAX" "- (2 ^ 31) \<le> e" "e < 2 ^ 31"
  shows "authority (isr_handler env (u_grant_cap (c_ret (int d)) (c_ret e) f) s) (A[d := add_ep e (A ! d)])"
proof -
  let ?f = "u_grant_cap (c_ret (int d)) (c_ret e) f"
  define v where "v = save_frame ?f s"
  have v: "authority v A" using assms(1) authority_quiet [OF quiet_save_frame] by (simp add: v_def)
  have le: "length A \<le> SCHED_MAX_THREADS" using assms(1) by (simp add: authority_def)
  have h: "holds_caps (threads v d) (A ! d)" "holds_caps (threads v p) (A ! p)" "tid (threads v p) = int p"
    using v assms(3,4) le by (auto simp: authority_def)
  have ok: "(tid (threads v p) \<noteq> 0 \<and> \<not> cap_has_endpoint (Some (threads v p)) e) = False"
    using assms(5) h(3) holds_endpoint [OF h(2)] by auto
  have d: "c_int (c_ret (int d)) = int d" "c_int (c_ret e) = e" "thread_by_id (int d) = Some d"
    using assms(4,7,8) le by (simp_all add: c_int_ret c_int_of_nat thread_by_id_int)
  have "isr_handler env ?f s = set_rax (Slot p) (c_ret (snd (endpoint_grant (threads v d) e)))
      (upd_thr (Slot d) (\<lambda>t. fst (endpoint_grant (threads v d) e)) v)"
    unfolding isr_simple(1) assms(2) v_def [symmetric] unfolding sys_grant_cap_def u_grant_cap_def sc_def
    by (simp add: d ok Let_def del: c_ret_simps)
  moreover have "authority (upd_thr (Slot d) (\<lambda>t. fst (endpoint_grant (threads v d) e)) v) (A[d := add_ep e (A ! d)])"
    using grant_endpoint_list [OF h(1) assms(6)] by (intro authority_upd [OF v assms(4)]) (simp_all add: grant_frame)
  ultimately show ?thesis using authority_quiet [OF quiet_set_rax] by simp
qed

lemma grant_io_authority:
  assumes "authority s A" "current s = Slot 0" "0 < length A" "d < length A" "length (A ! d) < CAP_MAX"
  shows "authority (isr_handler env (u_grant_io (c_ret (int d)) b l f) s) (A[d := A ! d @ [io_cap (ucast b) (ucast l)]])"
proof -
  let ?f = "u_grant_io (c_ret (int d)) b l f"
  define v where "v = save_frame ?f s"
  have v: "authority v A" using assms(1) authority_quiet [OF quiet_save_frame] by (simp add: v_def)
  have le: "length A \<le> SCHED_MAX_THREADS" using assms(1) by (simp add: authority_def)
  have h: "holds_caps (threads v d) (A ! d)" "tid (threads v 0) = 0"
    using v assms(3,4) le by (auto simp: authority_def)
  have d: "c_int (c_ret (int d)) = int d" "thread_by_id (int d) = Some d"
    using assms(4) le by (simp_all add: c_int_ret c_int_of_nat thread_by_id_int)
  have "isr_handler env ?f s = set_rax (Slot 0) (c_ret (snd (port_grant (threads v d) (ucast b, ucast l))))
      (upd_thr (Slot d) (\<lambda>t. fst (port_grant (threads v d) (ucast b, ucast l))) v)"
    unfolding isr_simple(2) assms(2) v_def [symmetric] unfolding sys_grant_io_def u_grant_io_def sc_def
    by (simp add: d h(2) Let_def del: c_ret_simps)
  moreover have "authority (upd_thr (Slot d) (\<lambda>t. fst (port_grant (threads v d) (ucast b, ucast l))) v)
      (A[d := A ! d @ [io_cap (ucast b) (ucast l)]])"
    using grant_port_list [OF h(1) assms(5)] by (intro authority_upd [OF v assms(4)]) (simp_all add: grant_frame)
  ultimately show ?thesis using authority_quiet [OF quiet_set_rax] by simp
qed

lemma spawn_authority:
  assumes "authority s A" "current s = Slot p" "p < length A" "length A < SCHED_MAX_THREADS"
    and "0 \<le> c_int n" "c_int n < int PROG_COUNT" "length (add_ep (int (length A)) (A ! p)) \<le> CAP_MAX"
    and t_def: "t = isr_handler env (u_spawn n f) s"
  shows "authority t (A[p := add_ep (int (length A)) (A ! p)] @ [[]])" "sint (rax (tf (threads t p))) = int (length A)"
proof -
  let ?f = "u_spawn n f" and ?k = "length A"
  define v where "v = save_frame ?f s"
  have v: "authority v A" using assms(1) authority_quiet [OF quiet_save_frame] by (simp add: v_def)
  have vac: "vacant v i = (?k \<le> i)" if "i < SCHED_MAX_THREADS" for i using v that by (simp add: authority_def)
  have free: "free_thread v = Some ?k"
    using vac assms(4) unfolding free_thread_def first_fit_Some_iff by (auto simp: vacant_def)
  define w where "w = upd_thr (Slot ?k) (create_thread_in v ?k (nat (c_int n))) v"
  define x where "x = upd_thr (Slot p) (\<lambda>t. fst (endpoint_grant t (int ?k))) w"
  have t: "t = set_rax (Slot p) (of_nat ?k) x"
    using assms(5,6) unfolding t_def isr_simple(3) assms(2) v_def [symmetric] unfolding sys_spawn_def u_spawn_def sc_def
    by (simp add: proc_spawn_def thread_create_def free x_def w_def Let_def)
  have ctin: "tid (create_thread_in v ?k m th) = tid th" "tstate (create_thread_in v ?k m th) = T_RUNNABLE"
    "holds_caps (create_thread_in v ?k m th) []" for m th
    by (simp_all add: create_thread_in_def cap_clear_def holds_caps_def)
  have w: "authority w (A @ [[]])"
    using v vac assms(4) by (auto simp: authority_def w_def ctin vacant_def nth_append)
  have h: "holds_caps (threads w p) (A ! p)"
    using w assms(3) unfolding authority_def by (metis length_append_singleton less_Suc_eq nth_append)
  have "authority x ((A @ [[]])[p := add_ep (int ?k) (A ! p)])"
    unfolding x_def using grant_endpoint_list [OF h assms(7)] assms(3)
    by (intro authority_upd [OF w]) (simp_all add: grant_frame)
  then have "authority x (A[p := add_ep (int ?k) (A ! p)] @ [[]])"
    using assms(3) by (simp add: list_update_append)
  then show "authority t (A[p := add_ep (int ?k) (A ! p)] @ [[]])"
    using authority_quiet [OF quiet_set_rax] by (simp add: t)
  have "sint (of_nat ?k :: u64) = int ?k"
    using assms(4) by (simp add: sint_uint unsigned_of_nat take_bit_nat_eq_self signed_take_bit_int_eq_self)
  then show "sint (rax (tf (threads t p))) = int ?k" by (simp add: t set_rax_def)
qed

section \<open>What a script makes of the authority\<close>

text \<open>
  The weakest condition on the authority lists under which script \<open>k\<close> of thread \<open>p\<close>, whatever
  messages and answers it gets, is granted all its calls and ends with lists that satisfy \<open>Q\<close>.
\<close>

definition grant_pre :: "nat \<Rightarrow> uact \<Rightarrow> cap list list \<Rightarrow> bool" where
  "grant_pre p a A = (case a of
     A_grant_cap d e \<Rightarrow> 0 \<le> d \<and> nat d < length A \<and> (p = 0 \<or> (\<exists>c\<in>set (A ! p). is_ep e c)) \<and>
       length (add_ep e (A ! nat d)) \<le> CAP_MAX \<and> - (2 ^ 31) \<le> e \<and> e < 2 ^ 31
   | A_grant_io d b l \<Rightarrow> p = 0 \<and> 0 \<le> d \<and> nat d < length A \<and> length (A ! nat d) < CAP_MAX
   | _ \<Rightarrow> True)"

definition grant_lists :: "uact \<Rightarrow> cap list list \<Rightarrow> cap list list" where
  "grant_lists a A = (case a of
     A_grant_cap d e \<Rightarrow> A[nat d := add_ep e (A ! nat d)]
   | A_grant_io d b l \<Rightarrow> A[nat d := A ! nat d @ [io_cap (ucast b) (ucast l)]]
   | _ \<Rightarrow> A)"

primrec grants :: "nat \<Rightarrow> 'a script \<Rightarrow> ('a \<Rightarrow> cap list list \<Rightarrow> bool) \<Rightarrow> cap list list \<Rightarrow> bool" where
  "grants p (Done x) Q = Q x"
| "grants p (Do a k) Q = (\<lambda>A. grant_pre p a A \<and> grants p k Q (grant_lists a A))"
| "grants p (Spawn_then n k) Q = (\<lambda>A. length A < SCHED_MAX_THREADS \<and> 0 \<le> c_int n \<and> c_int n < int PROG_COUNT \<and>
     length (add_ep (int (length A)) (A ! p)) \<le> CAP_MAX \<and>
     grants p (k (int (length A))) Q (A[p := add_ep (int (length A)) (A ! p)] @ [[]]))"
| "grants p (Send_then d m k) Q = (\<lambda>A. \<forall>r. grants p (k r) Q A)"
| "grants p (Recv_then src k) Q = (\<lambda>A. \<forall>m. grants p (k m) Q A)"
| "grants p (Ask_then q k) Q = (\<lambda>A. \<forall>x. grants p (k x) Q A)"
| "grants p (Load_then a n k) Q = (\<lambda>A. \<forall>xs. grants p (k xs) Q A)"

text \<open>The equations with the lists as argument, so that they are only used once these are known.\<close>

lemma grants_steps:
  "grants p (Done x) Q A = Q x A"
  "grants p (Do a k) Q A = (grant_pre p a A \<and> grants p k Q (grant_lists a A))"
  "grants p (Spawn_then n k') Q A = (length A < SCHED_MAX_THREADS \<and> 0 \<le> c_int n \<and> c_int n < int PROG_COUNT \<and>
     length (add_ep (int (length A)) (A ! p)) \<le> CAP_MAX \<and>
     grants p (k' (int (length A))) Q (A[p := add_ep (int (length A)) (A ! p)] @ [[]]))"
  "grants p (Send_then d m k5) Q A = (\<forall>r. grants p (k5 r) Q A)"
  "grants p (Recv_then src k2) Q A = (\<forall>m. grants p (k2 m) Q A)"
  "grants p (Ask_then q k3) Q A = (\<forall>x. grants p (k3 x) Q A)"
  "grants p (Load_then a' n2 k4) Q A = (\<forall>xs. grants p (k4 xs) Q A)"
  by simp_all

lemma grants_sound:
  assumes "proceeds p k s u" "authority s A" "p < length A" "grants p k Q A"
  shows "\<exists>x A'. authority u A' \<and> Q x A'"
  using assms
proof (induction arbitrary: A)
  case (finish x s)
  then show ?case by auto
next
  case (wait s t k u)
  then show ?case using authority_quiet by blast
next
  case (act a k s u)
  then have "grant_lists a A = A" by (cases a) (simp_all add: grant_lists_def)
  with act show ?case by auto
next
  case (call a g s k env f u)
  show ?case
  proof (cases a)
    case (A_grant_cap d e)
    with call.hyps(1) have g: "g = u_grant_cap (c_ret (int (nat d))) (c_ret e)"
      using call.prems(3) by (simp add: grant_pre_def)
    have "authority (isr_handler env (g f) s) (grant_lists a A)"
      unfolding g using grant_cap_authority [OF call.prems(1) call.hyps(2) call.prems(2), of "nat d" e env f] call.prems(3) A_grant_cap
      by (simp add: grant_pre_def grant_lists_def)
    with call.IH [of "grant_lists a A"] call.prems(2,3) A_grant_cap show ?thesis by (simp add: grant_lists_def)
  next
    case (A_grant_io d b l)
    with call.hyps(1) have g: "g = u_grant_io (c_ret (int (nat d))) b l" and p: "p = 0"
      using call.prems(3) by (simp_all add: grant_pre_def)
    have "authority (isr_handler env (g f) s) (grant_lists a A)"
      unfolding g using grant_io_authority [OF call.prems(1) call.hyps(2) [unfolded p], of "nat d" env b l f] call.prems(2,3) A_grant_io p
      by (simp add: grant_pre_def grant_lists_def)
    with call.IH [of "grant_lists a A"] call.prems(2,3) A_grant_io show ?thesis by (simp add: grant_lists_def)
  qed (use call.hyps(1) in simp_all)
next
  case (spawn s t env n f k u)
  let ?A = "A[p := add_ep (int (length A)) (A ! p)] @ [[]]"
  have "authority t ?A" "sint (rax (tf (threads t p))) = int (length A)"
    using spawn_authority [OF spawn.prems(1) spawn.hyps(1) spawn.prems(2), of n t env f] spawn.prems(3) spawn.hyps(2)
    by simp_all
  with spawn.IH [of ?A] spawn.prems show ?case by simp
qed auto

text \<open>Every script can be run, one call after the other.\<close>

lemma proceeds_ex: "\<exists>u. proceeds p k s u"
proof (induction k arbitrary: s)
  case (Do a k)
  show ?case
  proof (cases "stub a")
    case None
    with Do show ?thesis by (blast intro: proceeds.act)
  next
    case (Some g)
    have q: "quiet s (s\<lparr>current := Slot p\<rparr>)" by (simp add: quiet_def vacant_def)
    from Do obtain u where "proceeds p k (isr_handler undefined (g undefined) (s\<lparr>current := Slot p\<rparr>)) u" by blast
    from proceeds.wait [OF q proceeds.call [OF Some _ this]] show ?thesis by auto
  qed
next
  case (Spawn_then n k)
  have q: "quiet s (s\<lparr>current := Slot p\<rparr>)" by (simp add: quiet_def vacant_def)
  let ?t = "isr_handler undefined (u_spawn n undefined) (s\<lparr>current := Slot p\<rparr>)"
  from Spawn_then obtain u where "proceeds p (k (sint (rax (tf (threads ?t p))))) ?t u" by blast
  from proceeds.wait [OF q proceeds.spawn [where k = k, OF _ refl this]] show ?case by auto
qed (blast intro: proceeds.intros)+

end
