(* ===== verification/Servers.thy ===== *)
theory Servers
  imports Script Confine KMain
begin

text \<open>
  The system servers as scripts: the root task (\<^verbatim>\<open>servers/init/main.c\<close>), the
  process manager (\<^verbatim>\<open>servers/pm/main.c\<close>), the pager
  (\<^verbatim>\<open>servers/vm_server/main.c\<close>) and the three test programs
  (\<^verbatim>\<open>hello\<close>, \<^verbatim>\<open>app\<close>, \<^verbatim>\<open>rogue\<close>); who may do what
  once the root task has run.
\<close>

section \<open>The root task\<close>

abbreviation PROG_PM :: u64 where "PROG_PM \<equiv> 1"
abbreviation PROG_HELLO :: u64 where "PROG_HELLO \<equiv> 2"
abbreviation PROG_VM :: u64 where "PROG_VM \<equiv> 3"
abbreviation PROG_CONSOLE :: u64 where "PROG_CONSOLE \<equiv> 4"
abbreviation PROG_BLOCK :: u64 where "PROG_BLOCK \<equiv> 5"
abbreviation PROG_FS :: u64 where "PROG_FS \<equiv> 6"
abbreviation PROG_SHELL :: u64 where "PROG_SHELL \<equiv> 9"
abbreviation PROG_VGA :: u64 where "PROG_VGA \<equiv> 10"
abbreviation PROG_SHELL2 :: u64 where "PROG_SHELL2 \<equiv> 11"

abbreviation VGA_FB_VA :: u64 where "VGA_FB_VA \<equiv> 0x0000400000b00000"
abbreviation HEAP_VA :: u64 where "HEAP_VA \<equiv> 0x0000400000400000"

definition reply_msg :: ipc_msg where
  "reply_msg = zero_msg\<lparr>m_label := MSG_REPLY\<rparr>"

text \<open>The bytes of a little-endian 64-bit word in memory.\<close>

definition word_of_bytes :: "u8 list \<Rightarrow> u64" where
  "word_of_bytes bs = word_of_nat (foldr (\<lambda>b n. unat b + 256 * n) bs 0)"

definition init_main :: "unit script" where
  "init_main =
     Spawn_then PROG_CONSOLE (\<lambda>_. Recv_then (- 1) (\<lambda>_. seq [
       A_grant_io CON_TID 0x3F8 8,
       A_send CON_TID reply_msg,
       A_puts ''[init] muKern booting; granting capabilities and starting services\<newline>''] (
     Spawn_then PROG_BLOCK (\<lambda>_. Recv_then (- 1) (\<lambda>_. seq [
       A_grant_io BLK_TID 0x1F0 8,
       A_grant_cap BLK_TID CON_TID,
       A_send BLK_TID reply_msg] (
     Spawn_then PROG_VM (\<lambda>_. Recv_then (- 1) (\<lambda>_. seq [
       A_grant_cap VM_TID CON_TID,
       A_send VM_TID reply_msg] (
     Spawn_then PROG_PM (\<lambda>_. Recv_then (- 1) (\<lambda>_. seq [
       A_grant_cap PM_TID CON_TID,
       A_send PM_TID reply_msg] (
     Spawn_then PROG_FS (\<lambda>_. Recv_then (- 1) (\<lambda>_. seq [
       A_grant_cap FS_TID CON_TID,
       A_grant_cap FS_TID BLK_TID,
       A_send FS_TID reply_msg,
       A_puts ''[init] console, block, vm, pm, fs ready\<newline>'',
       A_map_phys VGA_FB_VA 0xB8000] (
     Spawn_then PROG_VGA (\<lambda>_. Recv_then (- 1) (\<lambda>_. seq [
       A_grant_io VGA_TID 0x60 8,
       A_send VGA_TID reply_msg,
       A_puts ''[init] serial console + vga terminal ready\<newline>'',
       A_store HEAP_VA 0xABCD] (
     Load_then HEAP_VA 8 (\<lambda>bs. seq [
       A_line (con_linex (str ''[init] demand-paged heap @ '') HEAP_VA
         (str (if word_of_bytes bs = 0xABCD then '' OK\<newline>'' else '' FAIL\<newline>'')))] (
     Spawn_then PROG_SHELL (\<lambda>sh1. Recv_then (- 1) (\<lambda>_. seq [
       A_grant_cap sh1 CON_TID,
       A_grant_cap sh1 FS_TID,
       A_grant_cap sh1 PM_TID,
       A_send sh1 (reply_msg\<lparr>m_data0 := c_ret CON_TID\<rparr>)] (
     Spawn_then PROG_SHELL2 (\<lambda>sh2. Recv_then (- 1) (\<lambda>_. seq [
       A_grant_cap sh2 VGA_TID,
       A_grant_cap sh2 FS_TID,
       A_grant_cap sh2 PM_TID,
       A_send sh2 (reply_msg\<lparr>m_data0 := c_ret VGA_TID\<rparr>),
       A_puts ''[init] two sessions up: shell on serial, shell on VGA+keyboard\<newline>''] (
     Recv_then (- 1) (\<lambda>_. Done ())))))))))))))))))))))))))))"

section \<open>Process manager\<close>

definition pm_turn :: "int \<Rightarrow> ipc_msg \<Rightarrow> unit script" where
  "pm_turn from m =
     (if m_label m = MSG_SPAWN then
        Spawn_then (m_data0 m) (\<lambda>t.
          seq (if 0 \<le> t then [A_grant_cap t CON_TID, A_send t reply_msg] else [])
            (Do (A_send from (reply_msg\<lparr>m_data0 := c_ret t\<rparr>)) (Done ())))
      else Done ())"

section \<open>Pager\<close>

abbreviation HEAP_LO :: u64 where "HEAP_LO \<equiv> 0x0000400000400000"
abbreviation HEAP_HI :: u64 where "HEAP_HI \<equiv> 0x0000400000410000"

definition vm_turn :: "int \<Rightarrow> ipc_msg \<Rightarrow> unit script" where
  "vm_turn from m =
     (if m_label m = MSG_FAULT then
        let addr = m_data1 m in
        if HEAP_LO \<le> addr \<and> addr < HEAP_HI then
          seq [A_line (con_linef (str ''[vm] fault tid='') (m_data0 m) []),
               A_line (con_linex (str '' addr='') addr (str '' -> mapped\<newline>'')),
               A_map addr,
               A_send from (reply_msg\<lparr>m_data0 := 0\<rparr>)] (Done ())
        else
          seq [A_line (con_linef (str ''[vm] ILLEGAL fault tid='') (m_data0 m) []),
               A_line (con_linex (str '' addr='') addr (str '' -> killing process\<newline>'')),
               A_send from (reply_msg\<lparr>m_data0 := 1\<rparr>)] (Done ())
      else Done ())"

text \<open>The start of the servers: announce, wait to be released, print the banner.\<close>

definition announce :: "'a script \<Rightarrow> 'a script" where
  "announce k = Do (A_send 0 (zero_msg\<lparr>m_label := MSG_READY\<rparr>)) (Recv_then 0 (\<lambda>_. k))"

definition vm_start :: "unit script" where
  "vm_start = Do A_set_pager (announce (Ask_then Q_gettid (\<lambda>t.
     Do (A_line (con_linef (str ''[vm] pager registered (tid='') t (str '')\<newline>''))) (Done ()))))"

definition pm_start :: "unit script" where
  "pm_start = announce (Ask_then Q_gettid (\<lambda>t.
     Do (A_line (con_linef (str ''[pm] process manager up (tid='') t (str '')\<newline>''))) (Done ())))"

definition blk_start :: "unit script" where
  "blk_start = announce (Ask_then Q_gettid (\<lambda>t.
     Do (A_line (con_linef (str ''[blk] ATA block driver up (tid='') t (str '')\<newline>''))) (Done ())))"

definition fs_start :: "unit script" where
  "fs_start = announce (Ask_then Q_gettid (\<lambda>t.
     Do (A_line (con_linef (str ''[fs] filesystem server up (tid='') t (str '')\<newline>''))) (Done ())))"

text \<open>The terminal drivers; what the console driver prints then is \<open>con_start\<close>, the first screen
  of the VGA terminal \<open>vga_banner\<close>.\<close>

definition con_announce :: "unit script" where
  "con_announce = announce (seq [A_irq_register 4, A_outb 0x3F9 0x01] (Done ()))"

definition vga_announce :: "unit script" where
  "vga_announce = announce (seq [A_irq_register 1, A_inb 0x60] (Done ()))"

section \<open>Test programs\<close>

definition hello_main :: "unit script" where
  "hello_main = Recv_then PM_TID (\<lambda>_. Ask_then Q_gettid (\<lambda>t.
     Do (A_line (con_linef (str ''Hello World -- a user process spawned via PM (tid='') t (str '')\<newline>''))) (Done ())))"

definition quoted :: "string \<Rightarrow> string" where
  "quoted s = CHR 0x22 # s @ [CHR 0x22]"

text \<open>\<open>a_name\<close> and \<open>a_buf\<close> are the addresses of the program's path and buffer.\<close>

definition app_main :: "u64 \<Rightarrow> u64 \<Rightarrow> int script" where
  "app_main a_name a_buf =
     call FS_TID (zero_msg\<lparr>m_label := MSG_OPEN, m_data0 := a_name\<rparr>) (\<lambda>orep.
       let h = sint (m_data0 orep) in
       if h < 0 then Do (A_puts (''[app] open('' @ quoted ''hello.txt'' @ '') failed\<newline>'')) (Done 1)
       else seq [A_line (con_linef (str (''[app] open('' @ quoted ''hello.txt'' @ '') -> handle='')) (m_data0 orep) []),
                 A_line (con_linef (str '' size='') (m_data1 orep) (str ''\<newline>''))]
         (call FS_TID (zero_msg\<lparr>m_label := MSG_FREAD, m_data0 := c_ret h, m_data1 := a_buf\<rparr>) (\<lambda>rrep.
            Do (A_puts ''[app] read() contents: '')
              (con_write_then a_buf (ucast (m_data0 rrep)) (Done 0)))))"

definition rogue_main :: "int script" where
  "rogue_main = seq [
     A_puts ''[rogue] touching a wild pointer (expecting to be killed)...\<newline>'',
     A_store 0x0000700000000000 1,
     A_puts ''[rogue] STILL ALIVE - isolation FAILED\<newline>''] (Done 0)"

section \<open>Authority\<close>

text \<open>Who may send to whom, and which ports each thread may use, once the root task has run.\<close>

definition endpoint_rights :: "nat \<Rightarrow> int list" where
  "endpoint_rights i = [
     [1, 2, 3, 4, 5, 6, 7, 8],
     [],
     [CON_TID],
     [CON_TID],
     [CON_TID],
     [CON_TID, BLK_TID],
     [],
     [CON_TID, FS_TID, PM_TID],
     [VGA_TID, FS_TID, PM_TID]] ! i"

definition port_rights :: "nat \<Rightarrow> (u16 \<times> u16) list" where
  "port_rights i = [[], [(0x3F8, 8)], [(0x1F0, 8)], [], [], [], [(0x60, 8)], [], []] ! i"

definition boot_lists :: "cap list list" where
  "boot_lists = map (\<lambda>i. map (\<lambda>(b, l). io_cap b l) (port_rights i) @ map ep_cap (endpoint_rights i)) [0..<9]"

lemma small_ids: "c_int 4 = 4" "c_int 5 = 5" "c_int 3 = 3" "c_int 1 = 1" "c_int 6 = 6" "c_int 10 = 10" "c_int 9 = 9" "c_int 11 = 11" "c_int 2 = 2"
  by code_simp+

lemma boot_lists_eq:
  "boot_lists = [
     [ep_cap 1, ep_cap 2, ep_cap 3, ep_cap 4, ep_cap 5, ep_cap 6, ep_cap 7, ep_cap 8],
     [io_cap 0x3F8 8],
     [io_cap 0x1F0 8, ep_cap 1],
     [ep_cap 1],
     [ep_cap 1],
     [ep_cap 1, ep_cap 2],
     [io_cap 0x60 8],
     [ep_cap 1, ep_cap 5, ep_cap 4],
     [ep_cap 6, ep_cap 5, ep_cap 4]]"
  by (simp add: boot_lists_def endpoint_rights_def port_rights_def upt_rec)

lemma cap_kinds [simp]:
  "is_ep e (ep_cap e') \<longleftrightarrow> e' = e" "\<not> is_ep e (io_cap b l)"
  by (simp_all add: is_ep_def)

lemma upd_numeral [simp]: "(x # xs)[numeral k := y] = x # xs[pred_numeral k := y]"
  by (simp add: numeral_eq_Suc)

lemma grant_simps:
  "grant_pre p (A_send t m) A" "grant_pre p (A_puts x) A" "grant_pre p (A_line y) A" "grant_pre p (A_store u v) A"
  "grant_pre p (A_map u) A" "grant_pre p (A_map_phys u v) A" "grant_pre p A_set_pager A"
  "grant_lists (A_send t m) A = A" "grant_lists (A_puts x) A = A" "grant_lists (A_line y) A = A"
  "grant_lists (A_store u v) A = A" "grant_lists (A_map u) A = A" "grant_lists (A_map_phys u v) A = A"
  "grant_lists A_set_pager A = A"
  "grant_lists (A_grant_cap d e) A = A[nat d := add_ep e (A ! nat d)]"
  "grant_lists (A_grant_io d b l) A = A[nat d := A ! nat d @ [io_cap (ucast b) (ucast l)]]"
  by (simp_all add: grant_pre_def grant_lists_def)

lemma add_ep_simps: "add_ep e [] = [ep_cap e]" "add_ep e (c # cl) = (if is_ep e c then c # cl else c # add_ep e cl)"
  by (simp_all add: add_ep_def)

lemma init_grants: "grants 0 init_main (\<lambda>_ A. A = boot_lists) [[]]"
  unfolding boot_lists_eq init_main_def
  by (simp add: grants_steps grant_simps grant_pre_def add_ep_simps small_ids del: grants.simps)

lemma authority_rights:
  assumes "authority u boot_lists" "i < 9"
  shows "cap_has_endpoint (Some (threads u i)) e \<longleftrightarrow> e \<in> set (endpoint_rights i)"
    and "cap_has_port (Some (threads u i)) q \<longleftrightarrow> (\<exists>r\<in>set (port_rights i). in_port_range r q)"
proof -
  have "length boot_lists = 9" by (simp add: boot_lists_eq)
  with assms have h: "holds_caps (threads u i) (boot_lists ! i)" by (simp add: authority_def)
  have b: "boot_lists ! i = map (\<lambda>(b, l). io_cap b l) (port_rights i) @ map ep_cap (endpoint_rights i)"
    using assms(2) by (simp add: boot_lists_def)
  show "cap_has_endpoint (Some (threads u i)) e \<longleftrightarrow> e \<in> set (endpoint_rights i)"
    unfolding holds_endpoint [OF h] b by (auto simp: bex_Un)
  show "cap_has_port (Some (threads u i)) q \<longleftrightarrow> (\<exists>r\<in>set (port_rights i). in_port_range r q)"
    unfolding holds_port [OF h] b set_append bex_Un set_map bex_simps(7)
    by (simp add: cap_covers_port_def in_port_range_def case_prod_beta)
qed

lemma init_boot_lists: "proceeds 0 init_main s u \<Longrightarrow> authority s [[]] \<Longrightarrow> authority u boot_lists"
  using grants_sound [OF _ _ _ init_grants] by auto

text \<open>A kernel in which only the root task exists.\<close>

definition root_kstate :: kstate where
  "root_kstate = zero_kstate\<lparr>threads := (\<lambda>i. zero_thread\<lparr>tid := int i, ctable := \<lambda>_. null_cap,
     tstate := (if i = 0 then T_RUNNING else T_UNUSED)\<rparr>), current := Slot 0\<rparr>"

lemma root_authority: "authority root_kstate [[]]"
  by (simp add: authority_def root_kstate_def zero_kstate_def vacant_def holds_caps_def)

section \<open>Properties\<close>

text \<open>C10: Least privilege: when the root task has run its script, whatever the servers and devices
  did meanwhile (as long as no one else granted a capability or made or ended a thread), each of
  the nine threads holds send capabilities for exactly the threads listed in \<open>endpoint_rights\<close> and
  port capabilities for exactly the ports in \<open>port_rights\<close>: only the console driver has the UART,
  only the block driver the disk controller, only the terminal server the keyboard controller, and
  only the root task and the file server hold a capability for the block driver.  (Without one a
  thread may still send to the root task, answer a call that names it, and the root task may send to
  all: \<open>ipc_send_allowed\<close>.)\<close>

theorem init_least_privilege:
  assumes "proceeds 0 init_main s u" and "authority s [[]]" and "i < 9"
  shows "(cap_has_endpoint (Some (threads u i)) e \<longleftrightarrow> e \<in> set (endpoint_rights i)) \<and>
    (cap_has_port (Some (threads u i)) q \<longleftrightarrow> (\<exists>r\<in>set (port_rights i). in_port_range r q))"
  using authority_rights [OF init_boot_lists [OF assms(1,2)] assms(3)] by simp

theorem init_least_privilege_witness:
  "\<exists>u. proceeds 0 init_main root_kstate u \<and> \<not> cap_has_endpoint (Some (threads u 7)) BLK_TID \<and>
     cap_has_port (Some (threads u 2)) 0x1F7 \<and> \<not> cap_has_port (Some (threads u 2)) 0x3F8"
proof -
  obtain u where u: "proceeds 0 init_main root_kstate u" using proceeds_ex by blast
  note r = init_least_privilege [OF u root_authority]
  have "\<not> cap_has_endpoint (Some (threads u 7)) BLK_TID" using r [of 7 BLK_TID] by (simp add: endpoint_rights_def)
  moreover have "cap_has_port (Some (threads u 2)) 0x1F7" "\<not> cap_has_port (Some (threads u 2)) 0x3F8"
    using r [of 2 _ "0x1F7"] r [of 2 _ "0x3F8"] by (simp_all add: port_rights_def in_port_range_def)
  ultimately show ?thesis using u by blast
qed

text \<open>C19: The second shell cannot speak: it prints with SENDs to the console driver, for which the
  root task gives it no capability (it has one for the VGA terminal), and the kernel refuses every
  one of them.\<close>

theorem second_shell_mute:
  assumes "proceeds 0 init_main s u" and "authority s [[]]" and "quiet u v" and "current v = Slot 8"
    and "ipc_call_to (threads v 1) \<noteq> 8" and "\<not> (ipc_state (threads v 1) = IPC_RECEIVING \<and> ipc_peer (threads v 1) = 8)"
    and "f = u_send (c_ret CON_TID) m g"
  shows "isr_handler env f v = set_rax (Slot 8) ERR (save_frame f v)"
proof -
  have au: "authority v boot_lists"
    using init_boot_lists [OF assms(1,2)] authority_quiet [OF assms(3)] by simp
  then have "tid (threads v 8) = 8" by (simp add: authority_def)
  moreover have "\<not> cap_has_endpoint (Some (threads v 8)) 1"
    using authority_rights(1) [OF au, of 8 1] by (simp add: endpoint_rights_def)
  moreover have "c_int 1 = 1" by (rule small_ids)
  ultimately show ?thesis
    using assms(4-7) send_refused [of f "threads v 8" v env]
    by (auto simp: u_send_def sc_def c_ret_def)
qed

theorem second_shell_mute_witness:
  "\<exists>u v. proceeds 0 init_main root_kstate u \<and> quiet u v \<and>
     isr_handler demo_env (u_send (c_ret CON_TID) 0x1000 zero_tf) v =
       set_rax (Slot 8) ERR (save_frame (u_send (c_ret CON_TID) 0x1000 zero_tf) v)"
proof -
  obtain u where u: "proceeds 0 init_main root_kstate u" using proceeds_ex by blast
  let ?v = "u\<lparr>current := Slot 8, threads := (threads u)(1 := (threads u 1)\<lparr>ipc_call_to := - 1, ipc_state := IPC_NONE\<rparr>)\<rparr>"
  have q: "quiet u ?v" by (simp add: quiet_def vacant_def)
  have "isr_handler demo_env (u_send (c_ret CON_TID) 0x1000 zero_tf) ?v =
       set_rax (Slot 8) ERR (save_frame (u_send (c_ret CON_TID) 0x1000 zero_tf) ?v)"
    by (rule second_shell_mute [OF u root_authority q _ _ _ refl]) simp_all
  with u q show ?thesis by blast
qed

text \<open>C20: The process manager gives a child exactly one capability, for the console, before it
  releases it, and gets one for the child itself; nobody else's authority changes.\<close>

theorem pm_child_authority:
  assumes "proceeds PM (pm_turn from m) s u" and "authority s A" and "PM < length A" and "length A < SCHED_MAX_THREADS"
    and "m_label m = MSG_SPAWN" and "0 \<le> c_int (m_data0 m)" and "c_int (m_data0 m) < int PROG_COUNT"
    and "\<exists>c\<in>set (A ! PM). is_ep CON_TID c" and "length (A ! PM) < CAP_MAX"
  shows "authority u (A[PM := add_ep (int (length A)) (A ! PM)] @ [[ep_cap CON_TID]])"
proof -
  let ?A = "A[PM := add_ep (int (length A)) (A ! PM)] @ [[]]"
  have con: "\<exists>c\<in>set (add_ep (int (length A)) (A ! PM)). is_ep CON_TID c"
    using assms(8) by (auto simp: add_ep_def)
  have nth: "?A ! length A = []" "?A ! PM = add_ep (int (length A)) (A ! PM)"
    using assms(3) by (simp_all add: nth_append)
  have "grants PM (pm_turn from m) (\<lambda>_ B. B = A[PM := add_ep (int (length A)) (A ! PM)] @ [[ep_cap CON_TID]]) A"
    using assms(3-9) con nth
    by (simp add: pm_turn_def grants_steps grant_simps grant_pre_def add_ep_simps del: grants.simps)
      (auto simp: add_ep_def list_update_append)
  from grants_sound [OF assms(1-3) this] show ?thesis by auto
qed

theorem pm_child_authority_witness:
  "\<exists>s u. proceeds 4 (pm_turn 7 (zero_msg\<lparr>m_label := MSG_SPAWN, m_data0 := PROG_HELLO\<rparr>)) s u \<and>
     authority u (boot_lists[4 := [ep_cap CON_TID, ep_cap 9]] @ [[ep_cap CON_TID]])"
proof -
  let ?m = "zero_msg\<lparr>m_label := MSG_SPAWN, m_data0 := PROG_HELLO\<rparr>"
  obtain s where s: "proceeds 0 init_main root_kstate s" using proceeds_ex by blast
  obtain u where u: "proceeds 4 (pm_turn 7 ?m) s u" using proceeds_ex by blast
  have b: "length boot_lists = 9" "boot_lists ! 4 = [ep_cap CON_TID]" by (simp_all add: boot_lists_eq)
  have "authority u (boot_lists[4 := add_ep (int (length boot_lists)) (boot_lists ! 4)] @ [[ep_cap CON_TID]])"
    by (rule pm_child_authority [OF u init_boot_lists [OF s root_authority]]) (simp_all add: b small_ids)
  with u show ?thesis unfolding b by (auto simp: add_ep_simps)
qed

end
