(* ===== verification/Pager.thy ===== *)
theory Pager
  imports Deliver Servers
begin

text \<open>
  A page fault from the fault to the retried instruction: the kernel makes it a message to the
  pager and stops the thread, the pager's turn (\<open>vm_turn\<close> of \<open>Servers\<close>) runs on the kernel, its
  SYS\_MAP and its reply as real kernel entries, and the thread is resumed with the verdict.
\<close>

section \<open>A stopped thread is left alone\<close>

definition waits :: "thread \<Rightarrow> bool" where
  "waits t \<longleftrightarrow> tstate t = T_BLOCKED \<and> ipc_state t = IPC_RECEIVING"

lemma schedule_stopped:
  assumes "tstate (threads u i) \<notin> {T_RUNNABLE, T_RUNNING}"
  shows "threads (schedule u) i = threads u i" and "current (schedule u) \<noteq> Slot i"
proof -
  have n: "pick_next u \<noteq> Some i" using assms pick_next_SomeD(2) [of u i] by auto
  have "threads (schedule u) i = threads u i \<and> current (schedule u) \<noteq> Slot i"
  proof (cases u rule: schedule_cases)
    case stay
    then show ?thesis using n by (auto simp: switch_target_def split: option.splits if_splits)
  next
    case (move p)
    then show ?thesis using n assms by (auto simp: threads_switch_to elim!: switch_target_SomeE)
  qed
  then show "threads (schedule u) i = threads u i" "current (schedule u) \<noteq> Slot i" by blast+
qed

definition spares :: "nat \<Rightarrow> kstate \<Rightarrow> kstate \<Rightarrow> bool" where
  "spares i s u \<longleftrightarrow> threads u i = threads s i \<and> current u \<noteq> Slot i"

lemma spares_schedule: "spares i s u \<Longrightarrow> waits (threads s i) \<Longrightarrow> spares i s (schedule u)"
  using schedule_stopped [of u i] by (simp add: spares_def waits_def)

lemma spares_upd: "spares i s u \<Longrightarrow> n \<noteq> i \<Longrightarrow> spares i s (upd_thr (Slot n) g u)"
  by (simp add: spares_def)

lemma spares_fields [simp]:
  "spares i s (u\<lparr>pg := a\<rparr>) = spares i s u" "spares i s (u\<lparr>tss_rsp0 := c\<rparr>) = spares i s u"
  "spares i s (emit os u) = spares i s u" "spares i s (u\<lparr>halted := h\<rparr>) = spares i s u"
  by (simp_all add: spares_def emit_def)

lemma spares_panic [simp]: "spares i s (kernel_fault env u) = spares i s u"
  by (simp add: kernel_fault_def page_fault_panic_def panic_exception_def)

lemma spares_recv:
  assumes s: "spares i s u" and w: "waits (threads s i)" and n: "n \<noteq> i"
    and r: "ipc_recv_locked u (Slot n) src out = (u', x)"
  shows "spares i s u'"
  using r
proof (cases rule: ipc_recv_cases)
  case (sender k)
  then have "k \<noteq> i" using s w find_waiting_sender_SomeD [OF sender(2)] by (auto simp: spares_def waits_def)
  with sender show ?thesis by (simp add: spares_upd s)
qed (use n s in \<open>simp_all add: spares_upd\<close>)

lemma spares_run_kont:
  assumes s: "spares i s u" and w: "waits (threads s i)" and n: "n \<noteq> i"
  shows "spares i s (fst (run_kont env (Slot n) u))"
proof -
  note up = spares_upd [OF _ n]
  have st: "spares i s (stop_at k (Slot n) v)" "spares i s (set_rax (Slot n) x v)" if "spares i s v" for k x v
    unfolding stop_at_def set_rax_def using that by (simp_all add: up)
  have fin: "spares i s (finish_recv env (Slot n) x m v)" if "spares i s v" for x m v
    using that by (auto simp: finish_recv_def Let_def st up split: option.split)
  have res: "spares i s (fst (ipc_send_resume u (Slot n)))" "spares i s (fst (ipc_recv_resume u (Slot n) out))" for out
    using s by (simp_all add: ipc_send_resume_def ipc_recv_resume_def up)
  have ver: "spares i s (fst (fault_verdict (Slot n) m v))" if "spares i s v" for m v
    using that by (auto simp: fault_verdict_def st up intro!: spares_schedule w)
  have wait: "spares i s (fst (fault_wait env (Slot n) v))" if "spares i s v" for v
    using ver spares_recv [OF that w n]
    by (auto simp: fault_wait_def st split: prod.split option.split intro!: spares_schedule w)
  show ?thesis
    using s res fin ver wait st
    by (cases "kont (threads u n)")
       (auto simp: run_kont_def Let_def case_prod_beta user_bootstrap_def arch_enter_user_def up)
qed

lemma spares_resume: "waits (threads s i) \<Longrightarrow> spares i s u \<Longrightarrow> threads (resume env u) i = threads s i"
proof (induction env u rule: resume.induct)
  case (1 env u)
  show ?case
  proof (cases "current u")
    case Idle
    then show ?thesis using 1(3) by (simp add: resume.simps spares_def)
  next
    case (Slot n)
    then have n: "n \<noteq> i" using 1(3) by (auto simp: spares_def)
    obtain v again where r: "run_kont env (Slot n) u = (v, again)" by fastforce
    then have v: "spares i s v" using spares_run_kont [OF 1(3,2) n, of env] by simp
    show ?thesis
      using 1(1) [OF Slot r [symmetric] _ 1(2) v] Slot r v
      by (cases again) (simp_all add: resume.simps [of env u] spares_def)
  qed
qed

section \<open>The fault\<close>

text \<open>What the kernel makes of the fault of thread \<open>i\<close> when pager \<open>p\<close> waits for messages.\<close>

definition faulted :: "nat \<Rightarrow> nat \<Rightarrow> trapframe \<Rightarrow> thread \<Rightarrow> bool" where
  "faulted i p f t \<longleftrightarrow> waits t \<and> kont t = K_fault_recv \<and> ipc_peer t = int p \<and> tf t = f"

lemma fault_forwarded:
  assumes k: "kinv s" and i: "current s = Slot i" and f: "vec f = VEC_PF" "from_user f"
    and p: "g_pager_tid s = int p" "p < SCHED_MAX_THREADS" "receiver_ready (threads s p) (int i)"
    and irq: "irq_pending (threads s i) = 0"
  shows "\<exists>u. isr_code env f s = resume env (schedule u) \<and>
    threads u p = deliver (fault_msg (int i) (e_cr2 env)) (int i) (threads s p) \<and> pg u = pg s \<and>
    faulted i p f (threads (isr_code env f s) i)"
proof -
  note cur = kmid_current [OF kinv_kmid [OF k] i]
  have ne: "p \<noteq> i" using p(3) cur(2) by (auto simp: receiver_ready_def)
  let ?s = "save_frame f s"
  define s1 where "s1 = upd_thr (Slot p) (deliver (fault_msg (int i) (e_cr2 env)) (int i)) ?s"
  have t: "threads ?s n = (if n = i then (threads s i)\<lparr>tf := f\<rparr> else threads s n)" for n
    by (simp add: save_frame_def i)
  have g: "g_pager_tid ?s = int p" "g_pager_tid s1 = int p" using p(1) by (simp_all add: save_frame_def s1_def)
  have send: "ipc_send_locked ?s (Slot i) (int p) (fault_msg (int i) (e_cr2 env)) = (s1, Some 0)"
    using p(2,3) cur(3) ne by (auto simp: ipc_send_locked_def t s1_def receiver_ready_def thread_by_id_int)
  have "find_waiting_sender s1 (threads s1 i) (int p) = None"
  proof (rule ccontr)
    assume "find_waiting_sender s1 (threads s1 i) (int p) \<noteq> None"
    then obtain n where n: "find_waiting_sender s1 (threads s1 i) (int p) = Some n" by blast
    from find_waiting_sender_SomeD [OF n] have "n < SCHED_MAX_THREADS" "tstate (threads s1 n) = T_BLOCKED"
      "tid (threads s1 n) = int p"
      by auto
    moreover have "tid (threads s1 m) = tid (threads s m)" for m by (simp add: s1_def t deliver_def)
    ultimately have "n = p" using running_ok_inv sched_invD(1) k
      by (metis kinv_kmid kmid_def of_nat_eq_iff)
    with \<open>tstate (threads s1 n) = T_BLOCKED\<close> show False by (simp add: s1_def deliver_def t ne split: if_splits)
  qed
  then have recv: "ipc_recv_locked s1 (Slot i) (int p) out = (upd_thr (Slot i) (stage_recv (int p)) s1, None)" for out
    using irq ne by (simp add: ipc_recv_locked_def s1_def t)
  define u where "u = stop_at K_fault_recv (Slot i) (upd_thr (Slot i) (stage_recv (int p)) s1)"
  have "tid (threads s i) \<noteq> int p" using cur(3) ne by simp
  then have "page_fault env (Slot i) f ?s = (schedule u, True)"
    using f(2) g send recv cur(3) by (simp add: page_fault_def forward_fault_def fault_wait_def t u_def)
  then have isr: "isr_code env f s = resume env (schedule u)"
    using f(1) i by (simp add: isr_code_def Let_def then_resume_def)
  have ui: "faulted i p f (threads u i)"
    using ne by (simp add: u_def stop_at_def s1_def t faulted_def waits_def stage_recv_def thread_block_def)
  then have "tstate (threads u i) \<notin> {T_RUNNABLE, T_RUNNING}" by (simp add: faulted_def waits_def)
  from schedule_stopped [OF this] have "spares i u (schedule u)" by (simp add: spares_def)
  then have "threads (isr_code env f s) i = threads u i"
    unfolding isr using spares_resume ui by (auto simp: faulted_def)
  moreover have "threads u p = deliver (fault_msg (int i) (e_cr2 env)) (int i) (threads s p)" "pg u = pg s"
    using ne by (simp_all add: u_def stop_at_def s1_def save_frame_def i)
  ultimately show ?thesis using isr ui by auto
qed

section \<open>The pager's turn on the kernel\<close>

text \<open>
  Thread \<open>p\<close> runs a script: its SYS\_MAP and its SENDs are kernel entries, with the message in its
  memory; what happens between them, the printing of a line and the work of other threads
  included, is bounded by \<open>R\<close>.
\<close>

inductive did :: "nat \<Rightarrow> uact \<Rightarrow> kstate \<Rightarrow> kstate \<Rightarrow> bool" for p where
  line: "did p (A_line l) s s"
| map: "\<not> halted s \<Longrightarrow> current s = Slot p \<Longrightarrow> did p (A_map va) s (isr_handler env (u_map va f) s)"
| send: "\<not> halted s \<Longrightarrow> current s = Slot p \<Longrightarrow> copy_in (pg s) a = Some m \<Longrightarrow>
    did p (A_send d m) s (isr_handler env (u_send (c_ret d) a f) s)"

inductive_cases did_lineE: "did p (A_line l) s t"
inductive_cases did_mapE: "did p (A_map va) s t"
inductive_cases did_sendE: "did p (A_send d m) s t"

inductive serves :: "(kstate \<Rightarrow> kstate \<Rightarrow> bool) \<Rightarrow> nat \<Rightarrow> 'a script \<Rightarrow> kstate \<Rightarrow> kstate \<Rightarrow> bool" for R p where
  finish: "serves R p (Done x) s s"
| wait: "R s t \<Longrightarrow> serves R p k t u \<Longrightarrow> serves R p k s u"
| step: "did p a s t \<Longrightarrow> serves R p k t u \<Longrightarrow> serves R p (Do a k) s u"

lemma serves_Done: "serves R p (Done x) s u \<Longrightarrow> R\<^sup>*\<^sup>* s u"
  by (induction "Done x" s u rule: serves.induct) (auto intro: converse_rtranclp_into_rtranclp)

lemma serves_Do: "serves R p (Do a k) s u \<Longrightarrow> \<exists>t t'. R\<^sup>*\<^sup>* s t \<and> did p a t t' \<and> serves R p k t' u"
  by (induction "Do a k" s u rule: serves.induct) (auto intro: converse_rtranclp_into_rtranclp)

text \<open>\<open>room\<close>: the address space is in order and a page and three tables can be allocated.
  \<open>calm\<close>: nothing is done to thread \<open>i\<close> or to the page at \<open>addr\<close>, and there is still room.\<close>

definition room :: "u64 set \<Rightarrow> u64 set \<Rightarrow> paging \<Rightarrow> bool" where
  "room U D g \<longleftrightarrow> mem_ok U D {} g \<and> 4 \<le> card (avail (pg_pmm g))"

definition calm :: "u64 set \<Rightarrow> u64 set \<Rightarrow> nat \<Rightarrow> u64 \<Rightarrow> kstate \<Rightarrow> kstate \<Rightarrow> bool" where
  "calm U D i addr s t \<longleftrightarrow> threads t i = threads s i \<and>
     (\<forall>n<SCHED_MAX_THREADS. tid (threads t n) = tid (threads s n)) \<and>
     mapping (pg t) addr = mapping (pg s) addr \<and> (room U D (pg s) \<longrightarrow> room U D (pg t))"

lemma calm_star: "(calm U D i addr)\<^sup>*\<^sup>* s t \<Longrightarrow> calm U D i addr s t"
  by (induction rule: rtranclp_induct) (auto simp: calm_def)

lemma calm_serves:
  "serves (calm U D i addr) p (Done x) s u \<Longrightarrow> calm U D i addr s u"
  "serves (calm U D i addr) p (Do a k) s u \<Longrightarrow>
    \<exists>t t'. calm U D i addr s t \<and> did p a t t' \<and> serves (calm U D i addr) p k t' u"
  by (drule serves_Done, erule calm_star) (drule serves_Do, blast dest: calm_star)

lemma page_path: "x < 2 ^ 47 \<Longrightarrow> va_path (page_align_down x) = va_path x"
proof -
  assume x: "x < 2 ^ 47"
  then have "unat (page_align_down x) < 2 ^ 47"
    using times_div_less_eq_dividend [where n = "4096 :: nat"]
    by (simp add: unat_page_align_down word_less_nat_alt order_le_less_trans)
  then have "page_align_down x < 2 ^ 47" by (simp add: word_less_nat_alt)
  moreover have "drop_bit 12 x = drop_bit 12 (page_align_down x)"
    using in_page_iff [OF aligned_page_align_down, of x x] by simp
  ultimately show ?thesis using va_path_page x by metis
qed

lemma path_cong: "va_path x = va_path y \<Longrightarrow> mapping g x = mapping g y \<and> walk_open g x = walk_open g y"
  by (simp add: mapping_def walk_open_def)

text \<open>SYS\_MAP with room maps a frame that was free, for the program to write.\<close>

lemma map_turn:
  assumes r: "room U D (pg s)" and x: "x < 2 ^ 47" "va_index 39 x \<noteq> 0" and p: "current s = Slot p" "p \<noteq> i"
    and t: "t = isr_handler env (u_map x f) s"
  shows "threads t i = threads s i" "tid (threads t n) = tid (threads s n)"
    "\<exists>fr\<in>U - D. fr \<in> avail (pg_pmm (pg s)) \<and> mapping (pg t) x = Some (fr OR 7)"
proof -
  let ?f = "u_map x f" and ?fl = "VM_PRESENT OR VM_WRITE OR VM_USER"
  have ok: "mem_ok U D {} (pg s)" and four: "4 \<le> card (avail (pg_pmm (pg s)))" using r by (simp_all add: room_def)
  obtain lvl where l: "tables_ok lvl (pg s)" "apart U D lvl (pg s)"
    and w: "\<forall>v. va_index 39 v \<noteq> 0 \<longrightarrow> walk_open (pg s) v" by (rule mem_okE [OF ok])
  obtain pm fr where al: "pmm_alloc_frame (pg_pmm (pg s)) = (pm, fr)" by fastforce
  obtain g' r where vm: "vmm_map ((pg s)\<lparr>pg_pmm := pm\<rparr>) (page_align_down x) fr ?fl = (g', r)" by fastforce
  note a = apart_pmm [OF l al]
  have "pmm_inv (pg_pmm (pg s))" using l(1) by (simp add: tables_ok_def)
  then have fr0: "fr \<noteq> 0" using pool.alloc_iff al four by fastforce
  note fr = a(4) [OF fr0]
  have "walk_open (pg s) (page_align_down x)" using w x path_cong [OF page_path [OF x(1)]] by blast
  moreover have "flags_to_pte ?fl = 7" by (simp add: flags_to_pte_def)
  ultimately have m: "mapping g' (page_align_down x) = Some ((fr AND ADDR_MASK) OR 7)" and r0: "r = 0"
    by (rule_tac vmm_map_apart [OF a(1,2) _ _ _ vm]; use fr a(3) four in \<open>simp split: if_splits\<close>)+
  have code: "isr_code env ?f s = sys_map (Slot p) ?f (save_frame ?f s)"
    by (simp add: u_map_def isr_code_def sc_def do_syscall_def then_resume_def Let_def p)
  then have "clobbered (pg (isr_code env ?f s)) = clobbered (pg s)" by simp
  then have te: "t = sys_map (Slot p) ?f (save_frame ?f s)"
    unfolding t isr_handler_def using code overrun_none by metis
  have rdi: "rdi ?f = x" by (simp add: u_map_def sc_def)
  have sm: "sys_map (Slot p) ?f (save_frame ?f s) = set_rax (Slot p) 0 ((save_frame ?f s)\<lparr>pg := g'\<rparr>)"
    using al vm fr0 r0 by (simp add: sys_map_def rdi)
  have te: "t = set_rax (Slot p) 0 ((save_frame ?f s)\<lparr>pg := g'\<rparr>)" using te sm by (rule trans)
  show "threads t i = threads s i" "tid (threads t n) = tid (threads s n)"
    using p by (simp_all add: te set_rax_def save_frame_def)
  have "fr AND ADDR_MASK = fr" using fr by (simp add: child_def)
  then have "mapping (pg t) x = Some (fr OR 7)"
    using m path_cong [OF page_path [OF x(1)]] by (simp add: te)
  moreover have "fr \<notin> D" using fr l(2) by (auto simp: apart_def)
  ultimately show "\<exists>fr\<in>U - D. fr \<in> avail (pg_pmm (pg s)) \<and> mapping (pg t) x = Some (fr OR 7)" using fr by blast
qed

text \<open>The reply of the pager wakes the thread with the verdict; other SENDs to it do not occur.\<close>

lemma send_turn:
  assumes s: "faulted i p f (threads s i)" "i < SCHED_MAX_THREADS" "p \<noteq> i"
    and p: "current s = Slot p" "tid (threads s p) = int p" and m: "copy_in (pg s) a = Some m"
    and t: "t = isr_handler env (u_send (c_ret (int i)) a g) s"
  shows "threads t i = deliver m (int p) (threads s i)" "pg t = pg s"
proof -
  let ?f = "u_send (c_ret (int i)) a g"
  have f: "vec ?f = SYSCALL_VECTOR" "rax ?f = SYS_SEND" "c_int (rdi ?f) = int i" "rsi ?f = a"
    using s(2) by (simp_all add: u_send_def sc_def c_int_ret del: c_ret_simps)
  have rd: "receiver_ready (threads s i) (int p)" and al: "ipc_send_allowed s (threads s p) (int i)"
    using s(1,2) p(2) by (auto simp: faulted_def waits_def receiver_ready_def ipc_send_allowed_iff)
  have "isr_code env ?f s = set_rax (Slot p) 0 (upd_thr (Slot i) (deliver m (int p))
      (upd_thr (Slot p) (\<lambda>t. t\<lparr>ipc_call_to := int i\<rparr>) (save_frame ?f s)))"
    by (rule send_now [OF f(1-3) s(2) p al _ rd s(3)]) (unfold f(4), rule m)
  then have "t = set_rax (Slot p) 0 (upd_thr (Slot i) (deliver m (int p))
      (upd_thr (Slot p) (\<lambda>t. t\<lparr>ipc_call_to := int i\<rparr>) (save_frame ?f s)))"
    unfolding t by (subst isr_code_eq(2)) simp_all
  then show "threads t i = deliver m (int p) (threads s i)" "pg t = pg s"
    using s(3) p(1) by (simp_all add: set_rax_def save_frame_def)
qed

text \<open>The stopped thread, resumed with the verdict.\<close>

lemma verdict_taken:
  assumes u: "threads u i = deliver m q t" and t: "faulted i p f t" and v: "v = fst (run_kont env (Slot i) u)"
  shows "tstate (threads u i) = T_RUNNABLE" "pg v = pg u"
    "m_data0 m = 0 \<Longrightarrow> kont (threads v i) = K_user \<and> tf (threads v i) = f"
    "m_data0 m \<noteq> 0 \<Longrightarrow> tstate (threads v i) = T_DEAD"
proof -
  have ti: "kont (threads u i) = K_fault_recv" "ipc_state (threads u i) = IPC_NONE" "ipc_buf (threads u i) = m"
    "tf (threads u i) = f"
    using u t by (simp_all add: deliver_def faulted_def)
  show "tstate (threads u i) = T_RUNNABLE" using u t by (simp add: deliver_def faulted_def waits_def)
  have run: "v = fst (fault_verdict (Slot i) m (upd_thr (Slot i) (\<lambda>t. t\<lparr>ipc_state := IPC_NONE\<rparr>) u))"
    using ti v by (simp add: run_kont_def Let_def ipc_recv_resume_def)
  then show "pg v = pg u" by simp
  show "m_data0 m = 0 \<Longrightarrow> kont (threads v i) = K_user \<and> tf (threads v i) = f"
    using ti by (simp add: run fault_verdict_def stop_at_def)
  show "m_data0 m \<noteq> 0 \<Longrightarrow> tstate (threads v i) = T_DEAD"
    using schedule_stopped(1) [of "stop_at K_dead (Slot i) (upd_thr (Slot i) (\<lambda>t. t\<lparr>tstate := T_DEAD\<rparr>)
      (upd_thr (Slot i) (\<lambda>t. t\<lparr>ipc_state := IPC_NONE\<rparr>) u))" i]
    by (simp add: run fault_verdict_def stop_at_def)
qed

text \<open>The turn, up to its reply and in what follows it.\<close>

lemma reply_turn:
  assumes v: "serves (calm U D i addr) p (Do (A_send (int i) m) (Done ())) s u"
    and s: "faulted i p f (threads s i)" "i < SCHED_MAX_THREADS" "p \<noteq> i" "p < SCHED_MAX_THREADS" "tid (threads s p) = int p"
  shows "threads u i = deliver m (int p) (threads s i)" "mapping (pg u) addr = mapping (pg s) addr"
proof -
  obtain t t' where t: "calm U D i addr s t" "did p (A_send (int i) m) t t'" "calm U D i addr t' u"
    using calm_serves(2) [OF v] by (blast dest: calm_serves(1))
  from t(2) obtain a env f' where d: "current t = Slot p" "copy_in (pg t) a = Some m"
    "t' = isr_handler env (u_send (c_ret (int i)) a f') t" by (rule did_sendE) auto
  have "threads t i = threads s i" "tid (threads t p) = int p" using t(1) s(4,5) by (simp_all add: calm_def)
  with send_turn [OF _ s(2,3) d(1) _ d(2,3)] s(1)
  have "threads t' i = deliver m (int p) (threads s i)" "pg t' = pg t" by simp_all
  with t(1,3) show "threads u i = deliver m (int p) (threads s i)" "mapping (pg u) addr = mapping (pg s) addr"
    by (simp_all add: calm_def)
qed

lemma line_turn:
  assumes "serves (calm U D i addr) p (Do (A_line l) k) s u"
  obtains t where "calm U D i addr s t" "serves (calm U D i addr) p k t u"
  using calm_serves(2) [OF assms] by (auto elim!: did_lineE)

lemma heap_high:
  assumes "HEAP_LO \<le> addr" "addr < HEAP_HI" shows "addr < 2 ^ 47" "va_index 39 addr \<noteq> 0"
proof -
  have u: "0x400000400000 \<le> unat addr" "unat addr < 0x400000410000"
    using assms by (simp_all add: word_le_nat_alt word_less_nat_alt)
  then show "addr < 2 ^ 47" by (simp add: word_less_nat_alt)
  have "unat addr div 2 ^ 39 = 128" using u by (intro div_nat_eqI) simp_all
  moreover have "unat (drop_bit 39 addr) = unat addr div 2 ^ 39"
    by (simp only: unat_drop_bit_eq) (simp add: drop_bit_eq_div)
  ultimately have "unat (drop_bit 39 addr) = 128" by simp
  then have "drop_bit 39 addr = 128" by (simp add: word_unat_eq_iff)
  then show "va_index 39 addr \<noteq> 0" by (simp add: va_index_def)
qed

text \<open>What happens in a fault, and in the resumption of threads, allocates no frame.\<close>

lemma run_kont_pmm: "pg_pmm (pg (fst (run_kont env p s))) = pg_pmm (pg s)"
proof -
  have "pg_pmm (pg (finish_recv env p a m u)) = pg_pmm (pg u)" for a m u
    by (auto simp: finish_recv_def Let_def split: option.split dest!: copy_out_frame)
  then show ?thesis by (cases "kont (thr s p)") (auto simp: run_kont_def Let_def case_prod_beta pg_wait)
qed

lemma resume_pmm: "pg_pmm (pg (resume env s)) = pg_pmm (pg s)"
proof (induction env s rule: resume.induct)
  case (1 env s)
  show ?case
  proof (cases "current s")
    case (Slot i)
    obtain u again where r: "run_kont env (Slot i) s = (u, again)" by fastforce
    then have "pg_pmm (pg u) = pg_pmm (pg s)" using run_kont_pmm [of env "Slot i" s] by simp
    then show ?thesis using 1 [OF Slot r [symmetric]] Slot r by (cases again) (simp_all add: resume.simps [of env s])
  qed (simp add: resume.simps)
qed

lemma fault_pmm: "vec f = VEC_PF \<Longrightarrow> pg_pmm (pg (isr_code env f s)) = pg_pmm (pg s)"
  by (simp add: isr_code_def Let_def then_resume_def case_prod_beta resume_pmm page_fault_def pg_wait)

section \<open>A concrete fault\<close>

text \<open>The root task can run, the thread in slot 3 faults, and the pager in slot 1 waits.\<close>

definition fault_kstate :: "paging \<Rightarrow> kstate" where
  "fault_kstate g = zero_kstate\<lparr>threads := (\<lambda>i.
       if i = 0 then zero_thread\<lparr>tstate := T_RUNNABLE, kont := K_user, tid := 0, ipc_call_to := - 1\<rparr>
       else if i = 1 then zero_thread\<lparr>tstate := T_BLOCKED, kont := K_recv, tid := 1, ipc_call_to := - 1,
         ipc_state := IPC_RECEIVING, ipc_peer := IPC_ANY, tf := zero_tf\<lparr>rsi := 0x40000007F000\<rparr>\<rparr>
       else if i = 3 then zero_thread\<lparr>tstate := T_RUNNING, kont := K_user, tid := 3, ipc_call_to := - 1\<rparr>
       else zero_thread\<lparr>tid := int i, ipc_call_to := - 1\<rparr>),
     idle := zero_thread\<lparr>tstate := T_RUNNING, tid := - 1\<rparr>, current := Slot 3, g_pager_tid := 1, pg := g\<rparr>"

lemma fault_kstate_kinv: "kinv (fault_kstate g)"
proof -
  have run: "running_ok (fault_kstate g)"
    by (auto simp: fault_kstate_def running_ok_def sched_inv_def zero_thread_def zero_kstate_def)
  have "ipc_inv (fault_kstate g)"
    by (auto simp: fault_kstate_def ipc_inv_def no_missed_def thread_ok_def in_recv_def in_send_def
        zero_thread_def is_sender_def zero_kstate_def)
  with run show ?thesis
    by (auto simp: kinv_def kmid_def tss_ok_def fault_kstate_def zero_kstate_def zero_thread_def)
qed

text \<open>With a mapped message buffer the pager can take its turn.\<close>

lemma pager_runs:
  assumes s: "mem_inv U D (buf_bytes buf) s" and h: "buf_high buf" and c: "\<And>x. x \<in> buf_bytes buf \<Longrightarrow> canonical x"
    and ne: "i \<noteq> 1"
  shows "\<exists>u. serves (calm U D i addr) 1 (Do (A_map va) (Do (A_send d m) (Done ()))) s u"
proof -
  define a where "a = s\<lparr>current := Slot 1, halted := False, threads := (threads s)(1 := (threads s 1)\<lparr>kont := K_user\<rparr>)\<rparr>"
  define b where "b = isr_handler demo_env (u_map va zero_tf) a"
  have "calm U D i addr s a" using ne by (simp add: calm_def a_def)
  moreover have "did 1 (A_map va) a b" unfolding b_def by (rule did.map) (simp_all add: a_def)
  moreover have mb: "mem_inv U D (buf_bytes buf) b"
  proof -
    have code: "isr_code demo_env (u_map va zero_tf) a = sys_map (Slot 1) (u_map va zero_tf) (save_frame (u_map va zero_tf) a)"
      by (simp add: u_map_def isr_code_def sc_def do_syscall_def then_resume_def Let_def a_def)
    then have "clobbered (pg (isr_code demo_env (u_map va zero_tf) a)) = clobbered (pg a)" by simp
    then have be: "b = sys_map (Slot 1) (u_map va zero_tf) (save_frame (u_map va zero_tf) a)"
      unfolding b_def isr_handler_def using code overrun_none by metis
    have "mem_inv U D (buf_bytes buf) a" using s by (auto simp: mem_inv_def a_def stray_def)
    then have "mem_inv U D (buf_bytes buf) (save_frame (u_map va zero_tf) a)"
      unfolding save_frame_def by (rule mem_upd0) (simp add: a_def)
    then show ?thesis unfolding be by (rule mem_sys_map)
  qed
  moreover obtain g where g: "copy_out (pg b) buf m = Some g" "copy_in g buf = Some m"
    using buffer_receives [OF mb h c] by blast
  have "room U D (pg b) \<longrightarrow> room U D g"
    using mem_ok_copy_out(1) [OF _ h g(1)] copy_out_frame [OF g(1)] by (auto simp: room_def)
  moreover have "mapping g = mapping (pg b)"
    using mem_ok_copy_out(2) [OF _ h g(1)] mb by (auto simp: mem_inv_def)
  ultimately have "calm U D i addr b (b\<lparr>pg := g, current := Slot 1, halted := False\<rparr>)" by (simp add: calm_def)
  moreover have "did 1 (A_send d m) (b\<lparr>pg := g, current := Slot 1, halted := False\<rparr>)
      (isr_handler demo_env (u_send (c_ret d) buf zero_tf) (b\<lparr>pg := g, current := Slot 1, halted := False\<rparr>))"
    by (rule did.send) (use g(2) in simp_all)
  ultimately show ?thesis
    using \<open>calm U D i addr s a\<close> \<open>did 1 (A_map va) a b\<close>
    by (blast intro: serves.intros)
qed

section \<open>Properties\<close>

text \<open>C18: Demand paging from the fault to the verdict: when a program faults while the pager waits for
  messages and no interrupt is pending for the program, the kernel stops it and hands the pager the
  message of the fault; once the pager has run its turn on the kernel, while the others leave the
  thread and the page alone and there is room, the thread can run, and when it is resumed: inside
  the heap window its page is mapped to a frame of the allocator for it to write and it goes back to the
  faulting instruction with its registers unchanged; anywhere else nothing was mapped there and the
  thread is dead.\<close>

theorem pager_policy:
  assumes "kinv s" and "current s = Slot i" and "vec f = VEC_PF" and "from_user f"
    and "g_pager_tid s = int p" and "p < SCHED_MAX_THREADS" and "receiver_ready (threads s p) (int i)"
    and "irq_pending (threads s i) = 0" and "may_trap s f" and "s1 = isr_handler env f s" and "e_cr2 env = addr"
    and "room U D (pg s1)" and "serves (calm U D i addr) p (vm_turn (int i) (fault_msg (int i) addr)) s1 u"
    and "v = fst (run_kont env' (Slot i) u)"
  shows "(\<exists>w. threads w p = deliver (fault_msg (int i) addr) (int i) (threads s p) \<and> s1 = resume env (schedule w)) \<and>
    tstate (threads u i) = T_RUNNABLE \<and>
    (if HEAP_LO \<le> addr \<and> addr < HEAP_HI
     then kont (threads v i) = K_user \<and> tf (threads v i) = f \<and> (\<exists>fr\<in>U - D. mapping (pg v) addr = Some (fr OR 7))
     else tstate (threads v i) = T_DEAD \<and> mapping (pg v) addr = mapping (pg s1) addr)"
proof -
  note cur = kmid_current [OF kinv_kmid [OF assms(1)] assms(2)]
  have ne: "p \<noteq> i" using assms(7) cur(2) by (auto simp: receiver_ready_def)
  have nc: "\<not> clobbered (pg s1)" using assms(12) mem_ok_clean by (auto simp: room_def)
  then have s1: "s1 = isr_code env f s" and k1: "kinv s1"
    using isr_code_eq(1) isr_handler_kinv [OF assms(1,9)] by (simp_all add: assms(10))
  have tp: "tid (threads s1 p) = int p"
    using sched_invD(1) [OF running_ok_inv [of s1] assms(6)] kinv_kmid [OF k1] by (simp add: kmid_def)
  obtain w where w: "s1 = resume env (schedule w)" "threads w p = deliver (fault_msg (int i) addr) (int i) (threads s p)"
    and fi: "faulted i p f (threads s1 i)"
    using fault_forwarded [OF assms(1-8), of env] assms(11) by (auto simp: s1)
  show ?thesis
  proof (cases "HEAP_LO \<le> addr \<and> addr < HEAP_HI")
    case True
    then have "vm_turn (int i) (fault_msg (int i) addr) =
        Do (A_line (con_linef (str ''[vm] fault tid='') (m_data0 (fault_msg (int i) addr)) []))
          (Do (A_line (con_linex (str '' addr='') addr (str '' -> mapped\<newline>'')))
            (Do (A_map addr) (Do (A_send (int i) (reply_msg\<lparr>m_data0 := 0\<rparr>)) (Done ()))))"
      by (simp add: vm_turn_def fault_msg_def zero_msg_def Let_def)
    from assms(13) [unfolded this] obtain a b c where a: "calm U D i addr s1 a" "calm U D i addr a b"
      and b: "calm U D i addr b c" and "\<exists>d. did p (A_map addr) c d \<and>
        serves (calm U D i addr) p (Do (A_send (int i) (reply_msg\<lparr>m_data0 := 0\<rparr>)) (Done ())) d u"
      by (elim line_turn) (use calm_serves(2) in blast)
    then obtain d e f' where d: "current c = Slot p" "d = isr_handler e (u_map addr f') c"
      "serves (calm U D i addr) p (Do (A_send (int i) (reply_msg\<lparr>m_data0 := 0\<rparr>)) (Done ())) d u"
      by (auto elim!: did_mapE)
    have c: "threads c i = threads s1 i" "tid (threads c p) = int p" "room U D (pg c)"
      using a b assms(6,12) tp by (auto simp: calm_def)
    note m = map_turn [OF c(3) heap_high [of addr] d(1) ne d(2)]
    have di: "faulted i p f (threads d i)" "tid (threads d p) = int p" using m(1,2) True fi c by simp_all
    note r = reply_turn [OF d(3) di(1) cur(1) ne assms(6) di(2)]
    note x = verdict_taken [OF r(1) di(1) assms(14)]
    have "\<exists>fr\<in>U - D. mapping (pg v) addr = Some (fr OR 7)" using m(3) True r(2) x(2) by auto
    with w x(1,3) True show ?thesis by auto
  next
    case False
    then have "vm_turn (int i) (fault_msg (int i) addr) =
        Do (A_line (con_linef (str ''[vm] ILLEGAL fault tid='') (m_data0 (fault_msg (int i) addr)) []))
          (Do (A_line (con_linex (str '' addr='') addr (str '' -> killing process\<newline>'')))
            (Do (A_send (int i) (reply_msg\<lparr>m_data0 := 1\<rparr>)) (Done ())))"
      by (auto simp: vm_turn_def fault_msg_def zero_msg_def Let_def)
    from assms(13) [unfolded this] obtain a b where a: "calm U D i addr s1 a" "calm U D i addr a b"
      and b: "serves (calm U D i addr) p (Do (A_send (int i) (reply_msg\<lparr>m_data0 := 1\<rparr>)) (Done ())) b u"
      by (elim line_turn)
    have c: "threads b i = threads s1 i" "tid (threads b p) = int p" "mapping (pg b) addr = mapping (pg s1) addr"
      using a assms(6) tp by (auto simp: calm_def)
    note r = reply_turn [OF b _ cur(1) ne assms(6) c(2), of f]
    note x = verdict_taken [OF _ fi assms(14)]
    show ?thesis using w x [of "reply_msg\<lparr>m_data0 := 1\<rparr>" "int p"] r c fi False by auto
  qed
qed

theorem pager_policy_witness:
  "\<exists>s1 u fr. serves (calm (avail (boot_pmm big_boot (pg_pmm (pg big_start))) \<union> {0xB8000}) {0xB8000} 3 HEAP_LO) 1
     (vm_turn 3 (fault_msg 3 HEAP_LO)) s1 u \<and> tstate (threads u 3) = T_RUNNABLE \<and>
     mapping (pg (fst (run_kont demo_env (Slot 3) u))) HEAP_LO = Some (fr OR 7)"
proof -
  let ?U = "avail (boot_pmm big_boot (pg_pmm (pg big_start))) \<union> {0xB8000}" and ?D = "{0xB8000} :: u64 set"
    and ?env = "demo_env\<lparr>e_cr2 := HEAP_LO\<rparr>" and ?f = "zero_tf\<lparr>vec := VEC_PF, cs := USER_CS\<rparr>"
  have pg: "pg big_start = boot_long_mode 0x1000 0x2000 0x3000 blank_paging" by (simp add: big_start_def)
  obtain g lvl where b: "\<forall>i<PROG_COUNT. loaded g (mk_progs (b_images big_boot) (b_bases big_boot) i)"
    "tables_ok lvl g" "apart ?U ?D lvl g" "\<forall>v. va_index 39 v \<noteq> 0 \<longrightarrow> walk_open g v"
    "unat (free_frames (boot_pmm big_boot (pg_pmm (pg big_start)))) - 960 \<le> card (avail (pg_pmm g))"
    by (rule boot_loads [OF big_fits(3,2) pg big_fits(1) screen_apart])
  let ?s = "fault_kstate g" and ?buf = "0x40000007F000 :: u64"
  define s1 where "s1 = isr_handler ?env ?f ?s"
  note mm = big_buffers(2) [OF b(1)]
  have bh: "buf_high ?buf" by code_simp
  have ok: "mem_ok ?U ?D {} g" using b(2-4) by (auto simp: mem_ok_def)
  note buf = mem_ok_buffer [OF ok bh mm]
  have ms: "mem_inv ?U ?D (buf_bytes ?buf) ?s"
    using buf(1) bh by (auto simp: mem_inv_def stray_def fault_kstate_def zero_thread_def zero_kstate_def)
  have s: "current ?s = Slot 3" "g_pager_tid ?s = int 1" "receiver_ready (threads ?s 1) (int 3)"
    "irq_pending (threads ?s 3) = 0" "may_trap ?s ?f" "pg ?s = g"
    by (simp_all add: fault_kstate_def receiver_ready_def may_trap_def zero_thread_def)
  have code: "mem_inv ?U ?D (buf_bytes ?buf) (isr_code ?env ?f ?s)"
    by (rule mem.isr_I [OF fault_kstate_kinv ms s(5)]) (simp add: decent_event_def decent_def)
  then have s1: "s1 = isr_code ?env ?f ?s"
    unfolding s1_def isr_handler_def using mem_clean by (intro overrun_none) blast
  have m1: "mem_inv ?U ?D (buf_bytes ?buf) s1" using code s1 by simp
  have "pg_pmm (pg s1) = pg_pmm g" using fault_pmm [of ?f ?env ?s] s(6) by (simp add: s1)
  then have room: "room ?U ?D (pg s1)"
    using m1 b(5) big_count [of "pg_pmm (pg big_start)"] by (simp add: room_def mem_inv_def mem_ok_def)
  have "vm_turn (int 3) (fault_msg (int 3) HEAP_LO) =
      Do (A_line (con_linef (str ''[vm] fault tid='') (m_data0 (fault_msg (int 3) HEAP_LO)) []))
        (Do (A_line (con_linex (str '' addr='') HEAP_LO (str '' -> mapped\<newline>'')))
          (Do (A_map HEAP_LO) (Do (A_send (int 3) (reply_msg\<lparr>m_data0 := 0\<rparr>)) (Done ()))))"
    by (simp add: vm_turn_def fault_msg_def zero_msg_def Let_def)
  moreover have three: "(3 :: nat) \<noteq> 1" by simp
  moreover obtain u where "serves (calm ?U ?D 3 HEAP_LO) 1 (Do (A_map HEAP_LO)
      (Do (A_send (int 3) (reply_msg\<lparr>m_data0 := 0\<rparr>)) (Done ()))) s1 u"
    using pager_runs [OF m1 bh buf(2) three] by blast
  ultimately have sv: "serves (calm ?U ?D 3 HEAP_LO) 1 (vm_turn (int 3) (fault_msg (int 3) HEAP_LO)) s1 u"
    by (simp add: serves.step [OF did.line])
  have "from_user ?f" by (simp add: from_user_def)
  note pp = pager_policy [OF fault_kstate_kinv s(1) _ this s(2) _ s(3,4,5) s1_def _ room sv refl, of demo_env]
  then have "tstate (threads u 3) = T_RUNNABLE"
    "\<exists>fr\<in>?U - ?D. mapping (pg (fst (run_kont demo_env (Slot 3) u))) HEAP_LO = Some (fr OR 7)" by simp_all
  moreover have "serves (calm ?U ?D 3 HEAP_LO) 1 (vm_turn 3 (fault_msg 3 HEAP_LO)) s1 u" using sv by simp
  ultimately show ?thesis by blast
qed

end
