(* ===== verification/Desc.thy ===== *)
theory Desc
  imports CMem
begin

text \<open>
  The tables the processor reads: segment descriptors and task state
  (\<^verbatim>\<open>arch/x86_64/trap/gdt.c\<close>), interrupt gates (\<^verbatim>\<open>idt.c\<close>), and the first stack
  frame of a thread (\<^verbatim>\<open>archstack.c\<close>) with the part of \<^verbatim>\<open>switch.S\<close> that
  unwinds it.  Each is stated together with how the processor decodes it.
\<close>

section \<open>Segment descriptors\<close>

record tss =
  rsp0 :: u64
  rsp1 :: u64
  rsp2 :: u64
  ist :: "nat \<Rightarrow> u64"
  iomap_base :: u16

abbreviation TSS_SIZE :: nat where "TSS_SIZE \<equiv> 104"

abbreviation SEL_KCODE :: nat where "SEL_KCODE \<equiv> 0x08"
abbreviation SEL_KDATA :: nat where "SEL_KDATA \<equiv> 0x10"
abbreviation SEL_UCODE :: nat where "SEL_UCODE \<equiv> 0x18"
abbreviation SEL_UDATA :: nat where "SEL_UDATA \<equiv> 0x20"
abbreviation SEL_TSS :: nat where "SEL_TSS \<equiv> 0x28"

type_synonym gdt = "nat \<Rightarrow> u64"

definition set_tss_desc :: "nat \<Rightarrow> u64 \<Rightarrow> u32 \<Rightarrow> gdt \<Rightarrow> gdt" where
  "set_tss_desc idx base limit g =
     (let lo = ucast (limit AND 0xFFFF);
          lo = lo OR push_bit 16 (base AND 0xFFFFFF);
          lo = lo OR push_bit 40 0x89;
          lo = lo OR push_bit 48 (ucast (drop_bit 16 limit AND 0xF));
          lo = lo OR push_bit 56 (drop_bit 24 base AND 0xFF)
      in g(idx := lo, idx + 1 := drop_bit 32 base AND 0xFFFFFFFF))"

definition zero_tss :: "tss \<Rightarrow> tss" where
  "zero_tss t = \<lparr>rsp0 = 0, rsp1 = 0, rsp2 = 0, ist = (\<lambda>i. if i < 7 then 0 else ist t i), iomap_base = 0\<rparr>"

definition gdt_init :: "u64 \<Rightarrow> tss \<times> gdt \<Rightarrow> tss \<times> gdt" where
  "gdt_init tss_addr s =
     (let b = (\<lambda>n. push_bit n 1 :: u64);
          g = (snd s)(0 := 0,
            1 := b 43 OR b 44 OR b 47 OR b 53,
            2 := b 41 OR b 44 OR b 47,
            3 := b 43 OR b 44 OR b 47 OR b 53 OR push_bit 45 3,
            4 := b 41 OR b 44 OR b 47 OR push_bit 45 3);
          t = (zero_tss (fst s))\<lparr>rsp0 := 0, iomap_base := of_nat TSS_SIZE\<rparr>
      in (t, set_tss_desc 5 tss_addr (of_nat (TSS_SIZE - 1)) g))"

definition arch_set_kernel_stack :: "u64 \<Rightarrow> tss \<Rightarrow> tss" where
  "arch_set_kernel_stack stk t = t\<lparr>rsp0 := stk\<rparr>"

text \<open>How the processor reads a descriptor (Intel manual, volume 3, sections 3.4.5 and 8.2.3).\<close>

definition desc_present :: "u64 \<Rightarrow> bool" where "desc_present d \<longleftrightarrow> bit d 47"
definition desc_dpl :: "u64 \<Rightarrow> u64" where "desc_dpl d = drop_bit 45 d AND 3"
definition desc_code :: "u64 \<Rightarrow> bool" where "desc_code d \<longleftrightarrow> bit d 44 \<and> bit d 43"
definition desc_long :: "u64 \<Rightarrow> bool" where "desc_long d \<longleftrightarrow> bit d 53"
definition desc_type :: "u64 \<Rightarrow> u64" where "desc_type d = drop_bit 40 d AND 0x1F"

definition tss_base :: "u64 \<Rightarrow> u64 \<Rightarrow> u64" where
  "tss_base lo hi = (drop_bit 16 lo AND 0xFFFFFF) OR push_bit 24 (drop_bit 56 lo AND 0xFF) OR
     push_bit 32 (hi AND 0xFFFFFFFF)"

definition desc_limit :: "u64 \<Rightarrow> u64" where
  "desc_limit lo = (lo AND 0xFFFF) OR push_bit 16 (drop_bit 48 lo AND 0xF)"

definition sel_desc :: "gdt \<Rightarrow> nat \<Rightarrow> u64" where
  "sel_desc g sel = g (sel div 8)"

lemma low_masks:
  "(0xF :: u64) = mask 4" "(0xFF :: u64) = mask 8" "(0xFFFF :: u64) = mask 16" "(0xFFFFFF :: u64) = mask 24"
  "(0xFFFFFFFF :: u64) = mask 32" "(0xF :: u32) = mask 4" "(0xFFFF :: u32) = mask 16" "(3 :: u64) = mask 2"
  by (simp_all add: mask_eq_exp_minus_1)

lemma bit_type: "bit (0x89 :: u64) k \<Longrightarrow> k < 8"
proof -
  have "(0x89 :: u64) = take_bit 8 0x89" by simp
  moreover assume "bit (0x89 :: u64) k"
  ultimately have "bit (take_bit 8 (0x89 :: u64)) k" by simp
  then show "k < 8" by (simp only: bit_take_bit_iff)
qed

lemma bit_tss_desc:
  assumes n: "n < 64"
  shows "bit (set_tss_desc idx base limit g idx) n \<longleftrightarrow>
    (n < 16 \<and> bit limit n \<or> 16 \<le> n \<and> n < 40 \<and> bit base (n - 16) \<or> 40 \<le> n \<and> n < 48 \<and> bit (0x89 :: u64) (n - 40) \<or>
     48 \<le> n \<and> n < 52 \<and> bit limit (n - 32) \<or> 56 \<le> n \<and> bit base (n - 32))"
proof -
  define ty :: u64 where "ty = 0x89"
  have eq: "set_tss_desc idx base limit g idx = (((ucast (limit AND mask 16) OR push_bit 16 (base AND mask 24)) OR
     push_bit 40 ty) OR push_bit 48 (ucast (drop_bit 16 limit AND mask 4))) OR push_bit 56 (drop_bit 24 base AND mask 8)"
    unfolding set_tss_desc_def Let_def ty_def low_masks by (simp only: fun_upd_def) simp
  have "bit (ucast (limit AND mask 16) :: u64) n \<longleftrightarrow> n < 16 \<and> bit limit n"
    "bit (push_bit 16 (base AND mask 24)) n \<longleftrightarrow> 16 \<le> n \<and> n < 40 \<and> bit base (n - 16)"
    "bit (push_bit 40 ty) n \<longleftrightarrow> 40 \<le> n \<and> n < 48 \<and> bit ty (n - 40)"
    "bit (push_bit 48 (ucast (drop_bit 16 limit AND mask 4) :: u64)) n \<longleftrightarrow> 48 \<le> n \<and> n < 52 \<and> bit limit (n - 32)"
    "bit (push_bit 56 (drop_bit 24 base AND mask 8)) n \<longleftrightarrow> 56 \<le> n \<and> bit base (n - 32)"
    using n bit_type [of "n - 40", folded ty_def]
    by (auto simp: bit_push_bit_iff bit_ucast_iff bit_and_iff bit_mask_iff bit_drop_bit_eq)
  then show ?thesis
    unfolding ty_def [symmetric] by (simp only: eq bit_or_iff disj_assoc)
qed

lemma set_tss_desc_simps:
  "k \<noteq> idx \<Longrightarrow> k \<noteq> Suc idx \<Longrightarrow> set_tss_desc idx base limit g k = g k"
  "set_tss_desc idx base limit g (Suc idx) = drop_bit 32 base AND mask 32"
  by (simp_all add: set_tss_desc_def Let_def low_masks)

lemma tss_desc_base:
  "tss_base (set_tss_desc idx base limit g idx) (set_tss_desc idx base limit g (Suc idx)) = base"
proof (rule bit_word_eqI)
  fix n :: nat assume n: "n < LENGTH(64)"
  let ?lo = "set_tss_desc idx base limit g idx"
  have "bit (tss_base ?lo (set_tss_desc idx base limit g (Suc idx))) n \<longleftrightarrow>
      n < 24 \<and> bit ?lo (16 + n) \<or> 24 \<le> n \<and> n < 32 \<and> bit ?lo (32 + n) \<or> 32 \<le> n \<and> bit base n"
    unfolding tss_base_def set_tss_desc_simps low_masks
    using n by (auto simp: bit_or_iff bit_and_iff bit_push_bit_iff bit_mask_iff bit_drop_bit_eq)
  then show "bit (tss_base ?lo (set_tss_desc idx base limit g (Suc idx))) n = bit base n"
    using n by (auto simp: bit_tss_desc dest: bit_type)
qed

lemma tss_desc_limit:
  "desc_limit (set_tss_desc idx base limit g idx) = ucast (limit AND mask 20)"
proof (rule bit_word_eqI)
  fix n :: nat assume n: "n < LENGTH(64)"
  let ?lo = "set_tss_desc idx base limit g idx"
  have "bit (desc_limit ?lo) n \<longleftrightarrow> n < 16 \<and> bit ?lo n \<or> 16 \<le> n \<and> n < 20 \<and> bit ?lo (32 + n)"
    unfolding desc_limit_def low_masks
    using n by (auto simp: bit_or_iff bit_and_iff bit_push_bit_iff bit_mask_iff bit_drop_bit_eq)
  also have "\<dots> \<longleftrightarrow> n < 20 \<and> bit limit n"
    by (cases "n < 16"; cases "n < 20") (simp_all add: bit_tss_desc)
  finally show "bit (desc_limit ?lo) n = bit (ucast (limit AND mask 20) :: u64) n"
    using n by (auto simp: bit_ucast_iff bit_and_iff bit_mask_iff)
qed

lemma tss_desc_type:
  "desc_type (set_tss_desc idx base limit g idx) = 9" "desc_present (set_tss_desc idx base limit g idx)"
proof -
  let ?lo = "set_tss_desc idx base limit g idx"
  have "bit (0x89 :: u64) 7" by simp
  then show "desc_present ?lo" by (simp add: desc_present_def bit_tss_desc)
  have five: "(0x1F :: u64) = mask 5" "(9 :: u64) = take_bit 5 0x89" by (simp_all add: mask_eq_exp_minus_1)
  show "desc_type ?lo = 9"
  proof (rule bit_word_eqI)
    fix n :: nat assume n: "n < LENGTH(64)"
    have "bit (desc_type ?lo) n \<longleftrightarrow> n < 5 \<and> bit ?lo (40 + n)"
      unfolding desc_type_def five(1)
      using n by (auto simp: bit_and_iff bit_mask_iff bit_drop_bit_eq)
    also have "\<dots> \<longleftrightarrow> n < 5 \<and> bit (0x89 :: u64) n" by (auto simp: bit_tss_desc)
    also have "\<dots> \<longleftrightarrow> bit (9 :: u64) n" by (simp only: five(2) bit_take_bit_iff)
    finally show "bit (desc_type ?lo) n = bit (9 :: u64) n" .
  qed
qed

section \<open>Interrupt gates\<close>

record idt_entry =
  off_low :: u16
  ie_selector :: u16
  ie_ist :: u8
  type_attr :: u8
  off_mid :: u16
  off_high :: u32
  ie_zero :: u32

abbreviation IDT_GATE_INT64 :: u8 where "IDT_GATE_INT64 \<equiv> 0x8E"
abbreviation IDT_GATE_USER :: u8 where "IDT_GATE_USER \<equiv> 0xEE"
abbreviation KERNEL_CS :: u16 where "KERNEL_CS \<equiv> 0x08"
abbreviation NUM_STUBS :: nat where "NUM_STUBS \<equiv> 48"

type_synonym idt = "nat \<Rightarrow> idt_entry"

definition idt_set_gate :: "nat \<Rightarrow> u64 \<Rightarrow> u16 \<Rightarrow> u8 \<Rightarrow> idt \<Rightarrow> idt" where
  "idt_set_gate n handler sel flags t = t(n := \<lparr>off_low = ucast (handler AND 0xFFFF), ie_selector = sel,
     ie_ist = 0, type_attr = flags, off_mid = ucast (drop_bit 16 handler AND 0xFFFF),
     off_high = ucast (drop_bit 32 handler AND 0xFFFFFFFF), ie_zero = 0\<rparr>)"

text \<open>The stubs of \<^verbatim>\<open>isr.S\<close> are at the addresses \<open>stubs\<close> and \<open>syscall\<close>.\<close>

definition idt_init :: "(nat \<Rightarrow> u64) \<Rightarrow> u64 \<Rightarrow> idt \<Rightarrow> idt" where
  "idt_init stubs syscall t =
     idt_set_gate 0x80 syscall KERNEL_CS IDT_GATE_USER
       (fold (\<lambda>i. idt_set_gate i (stubs i) KERNEL_CS IDT_GATE_INT64) [0..<NUM_STUBS] t)"

definition zero_gate :: idt_entry where
  "zero_gate = \<lparr>off_low = 0, ie_selector = 0, ie_ist = 0, type_attr = 0, off_mid = 0, off_high = 0, ie_zero = 0\<rparr>"

text \<open>
  What the processor makes of a gate: whether it is present, the privilege a software interrupt
  needs, and the address it goes to.
\<close>

definition gate_present :: "idt_entry \<Rightarrow> bool" where
  "gate_present e \<longleftrightarrow> bit (type_attr e) 7"

definition gate_dpl :: "idt_entry \<Rightarrow> u8" where
  "gate_dpl e = drop_bit 5 (type_attr e) AND 3"

definition gate_handler :: "idt_entry \<Rightarrow> u64" where
  "gate_handler e = ucast (off_low e) OR push_bit 16 (ucast (off_mid e)) OR push_bit 32 (ucast (off_high e))"

lemma gate_handler_set: "gate_handler (idt_set_gate n h sel fl t n) = h"
proof (rule bit_word_eqI)
  fix k :: nat assume k: "k < LENGTH(64)"
  have "bit (gate_handler (idt_set_gate n h sel fl t n)) k \<longleftrightarrow>
      k < 16 \<and> bit h k \<or> (16 \<le> k \<and> k < 32 \<and> bit h k) \<or> 32 \<le> k \<and> bit h k"
    unfolding gate_handler_def idt_set_gate_def low_masks fun_upd_same idt_entry.select_convs
    using k by (auto simp: bit_or_iff bit_push_bit_iff bit_ucast_iff bit_and_iff bit_mask_iff bit_drop_bit_eq)
  then show "bit (gate_handler (idt_set_gate n h sel fl t n)) k = bit h k" by auto
qed

lemma idt_set_gate_simps [simp]:
  "k \<noteq> n \<Longrightarrow> idt_set_gate n h sel fl t k = t k" "type_attr (idt_set_gate n h sel fl t n) = fl"
  "ie_selector (idt_set_gate n h sel fl t n) = sel"
  by (simp_all add: idt_set_gate_def)

lemma idt_stubs:
  "fold (\<lambda>i. idt_set_gate i (stubs i) KERNEL_CS IDT_GATE_INT64) [0..<m] t k =
   (if k < m then idt_set_gate k (stubs k) KERNEL_CS IDT_GATE_INT64 t k else t k)"
  by (induction m) (auto simp: idt_set_gate_def)

section \<open>The first stack frame of a thread\<close>

text \<open>The registers \<open>context_switch\<close> saves, and where it continues.\<close>

record cregs =
  c_r15 :: u64
  c_r14 :: u64
  c_r13 :: u64
  c_r12 :: u64
  c_rbx :: u64
  c_rbp :: u64
  c_rip :: u64
  c_rsp :: u64

definition arch_init_stack :: "u64 \<Rightarrow> u64 \<Rightarrow> u64 \<Rightarrow> u64 \<Rightarrow> cmem \<Rightarrow> cmem \<times> u64" where
  "arch_init_stack trampoline stack_top fn arg m =
     (let sp = stack_top - 56;
          m = store64 m sp 0;
          m = store64 m (sp + 8) 0;
          m = store64 m (sp + 16) arg;
          m = store64 m (sp + 24) fn;
          m = store64 m (sp + 32) 0;
          m = store64 m (sp + 40) 0;
          m = store64 m (sp + 48) trampoline
      in (m, sp))"

text \<open>\<open>context_switch\<close>: push the registers and the return address, and pop another thread's.\<close>

definition push_regs :: "cregs \<Rightarrow> cmem \<Rightarrow> cmem \<times> u64" where
  "push_regs r m =
     (let sp = c_rsp r;
          m = store64 m (sp - 8) (c_rip r);
          m = store64 m (sp - 16) (c_rbp r);
          m = store64 m (sp - 24) (c_rbx r);
          m = store64 m (sp - 32) (c_r12 r);
          m = store64 m (sp - 40) (c_r13 r);
          m = store64 m (sp - 48) (c_r14 r);
          m = store64 m (sp - 56) (c_r15 r)
      in (m, sp - 56))"

definition pop_regs :: "cmem \<Rightarrow> u64 \<Rightarrow> cregs" where
  "pop_regs m sp = \<lparr>c_r15 = load64 m sp, c_r14 = load64 m (sp + 8), c_r13 = load64 m (sp + 16),
     c_r12 = load64 m (sp + 24), c_rbx = load64 m (sp + 32), c_rbp = load64 m (sp + 40),
     c_rip = load64 m (sp + 48), c_rsp = sp + 56\<rparr>"

lemma disjoint64_off_iff [simp]:
  "disjoint64 (a + x) (a + y) = disjoint64 x y" "disjoint64 a (a + y) = disjoint64 0 y"
  "disjoint64 (a + x) a = disjoint64 x 0" "disjoint64 (a - x) (a - y) = disjoint64 (- x) (- y)"
  by (simp_all add: disjoint64_def)

lemma pop_push: "(case push_regs r m of (m', sp) \<Rightarrow> pop_regs m' sp) = r"
proof -
  define sp where "sp = c_rsp r - 56"
  have a: "c_rsp r - 8 = sp + 48" "c_rsp r - 16 = sp + 40" "c_rsp r - 24 = sp + 32" "c_rsp r - 32 = sp + 24"
    "c_rsp r - 40 = sp + 16" "c_rsp r - 48 = sp + 8" "c_rsp r - 56 = sp"
    by (simp_all add: sp_def)
  have b: "sp + 56 = c_rsp r" by (simp add: sp_def)
  show ?thesis
    unfolding push_regs_def Let_def a prod.case pop_regs_def b
    by (simp add: disjoint64_def)
qed

lemma pop_init:
  "(case arch_init_stack tr top' fn arg m of (m', sp) \<Rightarrow> pop_regs m' sp) =
   \<lparr>c_r15 = 0, c_r14 = 0, c_r13 = arg, c_r12 = fn, c_rbx = 0, c_rbp = 0, c_rip = tr, c_rsp = top'\<rparr>"
proof -
  define sp where "sp = top' - 56"
  have b: "sp + 56 = top'" by (simp add: sp_def)
  show ?thesis
    unfolding arch_init_stack_def Let_def sp_def [symmetric] prod.case pop_regs_def b
    by (simp add: disjoint64_def)
qed

section \<open>Properties\<close>

text \<open>After \<open>idt_init\<close> the gates present are those of the vectors 0 to 47 and of 0x80, each goes
  to the address of its own stub in the kernel's code segment, and 0x80 is the only one a program
  may call.\<close>

theorem idt_init_exact:
  assumes "n < 256"
  shows "(gate_present (idt_init stubs syscall (\<lambda>_. zero_gate) n) \<longleftrightarrow> n < 48 \<or> n = 0x80) \<and>
    (gate_dpl (idt_init stubs syscall (\<lambda>_. zero_gate) n) = 3 \<longleftrightarrow> n = 0x80) \<and>
    (n < 48 \<longrightarrow> gate_handler (idt_init stubs syscall (\<lambda>_. zero_gate) n) = stubs n) \<and>
    (n = 0x80 \<longrightarrow> gate_handler (idt_init stubs syscall (\<lambda>_. zero_gate) n) = syscall) \<and>
    (n < 48 \<or> n = 0x80 \<longrightarrow> ie_selector (idt_init stubs syscall (\<lambda>_. zero_gate) n) = KERNEL_CS)"
proof (cases "n = 0x80")
  case True
  then show ?thesis by (simp add: idt_init_def gate_handler_set gate_present_def gate_dpl_def)
next
  case False
  then show ?thesis
    by (cases "n < 48")
      (simp_all add: idt_init_def idt_stubs gate_handler_set gate_present_def gate_dpl_def, simp_all add: zero_gate_def)
qed

theorem idt_init_exact_witness:
  "gate_dpl (idt_init (\<lambda>i. 0x100000 + of_nat i) 0x200000 (\<lambda>_. zero_gate) 0x80) = 3 \<and>
   gate_handler (idt_init (\<lambda>i. 0x100000 + of_nat i) 0x200000 (\<lambda>_. zero_gate) 0x80) = 0x200000"
  using idt_init_exact [of "0x80"] by simp

text \<open>The segment table of \<open>gdt_init\<close>: code and data of privilege 0 for the kernel and of
  privilege 3 for programs, 64-bit code, and a present, available task state whose base and limit are
  those of the structure; the task state starts with an I/O bitmap past its end, so that programs
  have no port of their own.\<close>

theorem gdt_init_exact:
  "case gdt_init tss_addr s of (t, g) \<Rightarrow>
    desc_dpl (sel_desc g SEL_KCODE) = 0 \<and> desc_dpl (sel_desc g SEL_KDATA) = 0 \<and>
    desc_dpl (sel_desc g SEL_UCODE) = 3 \<and> desc_dpl (sel_desc g SEL_UDATA) = 3 \<and>
    desc_code (sel_desc g SEL_KCODE) \<and> desc_long (sel_desc g SEL_KCODE) \<and>
    desc_code (sel_desc g SEL_UCODE) \<and> desc_long (sel_desc g SEL_UCODE) \<and>
    \<not> desc_code (sel_desc g SEL_KDATA) \<and> \<not> desc_code (sel_desc g SEL_UDATA) \<and>
    desc_present (sel_desc g SEL_KCODE) \<and> desc_present (sel_desc g SEL_KDATA) \<and>
    desc_present (sel_desc g SEL_UCODE) \<and> desc_present (sel_desc g SEL_UDATA) \<and>
    desc_present (sel_desc g SEL_TSS) \<and>
    desc_type (sel_desc g SEL_TSS) = 9 \<and> tss_base (g 5) (g 6) = tss_addr \<and>
    desc_limit (g 5) = of_nat (TSS_SIZE - 1) \<and> unat (iomap_base t) > unat (desc_limit (g 5))"
proof -
  let ?g0 = "(snd s)(0 := 0, 1 := push_bit 43 1 OR push_bit 44 1 OR push_bit 47 1 OR push_bit 53 1,
            2 := push_bit 41 1 OR push_bit 44 1 OR push_bit 47 1,
            3 := push_bit 43 1 OR push_bit 44 1 OR push_bit 47 1 OR push_bit 53 1 OR push_bit 45 3,
            4 := push_bit 41 1 OR push_bit 44 1 OR push_bit 47 1 OR push_bit 45 3) :: gdt"
  obtain t g where tg: "gdt_init tss_addr s = (t, g)" by fastforce
  then have g: "g = set_tss_desc 5 tss_addr (of_nat (TSS_SIZE - 1)) ?g0"
    by (auto simp: gdt_init_def Let_def)
  have k: "k < 5 \<Longrightarrow> g k = ?g0 k" for k unfolding g by (rule set_tss_desc_simps) auto
  have six: "Suc 5 = 6" by simp
  note tssd = tss_desc_base [of 5 tss_addr "of_nat (TSS_SIZE - 1)" ?g0, folded g, unfolded six]
    tss_desc_limit [of 5 tss_addr "of_nat (TSS_SIZE - 1)" ?g0, folded g]
    tss_desc_type [of 5 tss_addr "of_nat (TSS_SIZE - 1)" ?g0, folded g]
  have lim: "desc_limit (g 5) = 103" using tssd(2) by (simp add: mask_eq_exp_minus_1)
  have "iomap_base t = 104" using tg by (auto simp: gdt_init_def Let_def)
  then show ?thesis
    using tssd(1,3,4) lim k [of 1] k [of 2] k [of 3] k [of 4]
    by (simp add: tg sel_desc_def desc_dpl_def desc_code_def desc_long_def desc_present_def)
qed

text \<open>C40: The first switch to a new thread enters the trampoline with the thread's function in
  \<open>r12\<close>, its argument in \<open>r13\<close> and an empty stack; and a thread that is switched out and in again
  finds its registers as they were.\<close>

theorem first_switch_enters:
  "(case arch_init_stack tramp stack_top fn arg m of (m', sp) \<Rightarrow> pop_regs m' sp) =
     \<lparr>c_r15 = 0, c_r14 = 0, c_r13 = arg, c_r12 = fn, c_rbx = 0, c_rbp = 0, c_rip = tramp, c_rsp = stack_top\<rparr> \<and>
   (case push_regs r m of (m', sp) \<Rightarrow> pop_regs m' sp) = r"
  by (intro conjI pop_init pop_push)

end
