(* ===== verification/MemMap.thy ===== *)
theory MemMap
  imports CMem Pmm
begin

text \<open>
  Discovery of the usable memory from the boot loader's map
  (\<^verbatim>\<open>arch/x86_64/mm/memmap.c\<close>).  Physical memory is read byte by byte at the
  offsets of the packed structures.  The walk advances by a size the table itself gives, so it is
  a partial function: \<open>None\<close> is a walk that does not end.
\<close>

definition load32 :: "cmem \<Rightarrow> u64 \<Rightarrow> u32" where
  "load32 m a = ucast (load64 (\<lambda>x. if x - a < 4 then m x else 0) a)"

text \<open>The fields of \<^verbatim>\<open>struct mb_info_hdr\<close> that are read, and \<^verbatim>\<open>struct mb_mmap_entry\<close>.\<close>

record mb_info_hdr =
  mb_flags :: u32
  mb_mem_upper :: u32
  mmap_length :: u32
  mmap_addr :: u32

definition read_info :: "cmem \<Rightarrow> u64 \<Rightarrow> mb_info_hdr" where
  "read_info m p = \<lparr>mb_flags = load32 m p, mb_mem_upper = load32 m (p + 8),
     mmap_length = load32 m (p + 44), mmap_addr = load32 m (p + 48)\<rparr>"

record mb_mmap_entry =
  e_size :: u32
  e_base :: u64
  e_len :: u64
  e_type :: u32

definition read_entry :: "cmem \<Rightarrow> u64 \<Rightarrow> mb_mmap_entry" where
  "read_entry m p = \<lparr>e_size = load32 m p, e_base = load64 m (p + 4), e_len = load64 m (p + 12),
     e_type = load32 m (p + 20)\<rparr>"

abbreviation MB_FLAG_MMAP :: u32 where "MB_FLAG_MMAP \<equiv> 0x40"
abbreviation MB_FLAG_MEM :: u32 where "MB_FLAG_MEM \<equiv> 1"

definition usable :: "mb_mmap_entry \<Rightarrow> bool" where
  "usable e \<longleftrightarrow> e_type e = 1 \<and> e_len e \<noteq> 0"

definition region_of :: "mb_mmap_entry \<Rightarrow> mem_region" where
  "region_of e = \<lparr>r_base = e_base e, r_len = e_len e\<rparr>"

definition raise_top :: "mb_mmap_entry \<Rightarrow> u64 \<Rightarrow> u64" where
  "raise_top e t = (if e_base e + e_len e > t then e_base e + e_len e else t)"

definition next_entry :: "u64 \<Rightarrow> mb_mmap_entry \<Rightarrow> u64" where
  "next_entry p e = p + ucast (e_size e + 4)"

partial_function (option) mmap_walk ::
    "cmem \<Rightarrow> u64 \<Rightarrow> nat \<Rightarrow> u64 \<Rightarrow> mem_region list \<Rightarrow> u64 \<Rightarrow> (mem_region list \<times> u64) option" where
  "mmap_walk m stop max_n p rs t =
     (if p < stop \<and> length rs < max_n then
        let e = read_entry m p in
        if usable e then mmap_walk m stop max_n (next_entry p e) (rs @ [region_of e]) (raise_top e t)
        else mmap_walk m stop max_n (next_entry p e) rs t
      else Some (rs, t))"

definition arch_mem_detect :: "cmem \<Rightarrow> u32 \<Rightarrow> nat \<Rightarrow> (mem_region list \<times> u64) option" where
  "arch_mem_detect m mb_info max_n =
     (let mbi = read_info m (ucast mb_info) in
      if mb_info \<noteq> 0 \<and> mb_flags mbi AND MB_FLAG_MMAP \<noteq> 0 \<and> mmap_length mbi \<noteq> 0 then
        let p = ucast (mmap_addr mbi); stop = p + ucast (mmap_length mbi)
        in mmap_walk m stop max_n p [] 0
      else if mb_info \<noteq> 0 \<and> mb_flags mbi AND MB_FLAG_MEM \<noteq> 0 \<and> max_n > 0 then
        let r = \<lparr>r_base = 0x100000, r_len = ucast (mb_mem_upper mbi) * 1024\<rparr>
        in Some ([r], r_base r + r_len r)
      else Some ([], 0))"

text \<open>The table between two addresses holds the given entries.\<close>

fun table_at :: "cmem \<Rightarrow> u64 \<Rightarrow> u64 \<Rightarrow> mb_mmap_entry list \<Rightarrow> bool" where
  "table_at m p stop [] \<longleftrightarrow> \<not> p < stop"
| "table_at m p stop (e # es) \<longleftrightarrow> p < stop \<and> read_entry m p = e \<and> table_at m (next_entry p e) stop es"

definition top_of :: "mb_mmap_entry list \<Rightarrow> u64 \<Rightarrow> u64" where
  "top_of es t = fold raise_top es t"

lemma mmap_walk_table:
  "table_at m p stop es \<Longrightarrow> length rs \<le> n \<Longrightarrow>
   mmap_walk m stop n p rs t =
     Some (rs @ map region_of (take (n - length rs) (filter usable es)),
       top_of (take (n - length rs) (filter usable es)) t)"
proof (induction es arbitrary: p rs t)
  case Nil
  then show ?case by (subst mmap_walk.simps) (simp add: top_of_def)
next
  case (Cons e es)
  show ?case
  proof (cases "length rs < n")
    case False
    then show ?thesis using Cons.prems by (subst mmap_walk.simps) (simp add: top_of_def)
  next
    case True
    then have "n - length rs = Suc (n - Suc (length rs))" by simp
    then show ?thesis
      using Cons.prems True Cons.IH [of "next_entry p e" "rs @ [region_of e]"] Cons.IH [of "next_entry p e" rs]
      by (subst mmap_walk.simps) (simp add: top_of_def)
  qed
qed

text \<open>The top is the largest end of the regions.\<close>

lemma top_of_ge: "t \<le> top_of es t"
proof (induction es arbitrary: t)
  case (Cons e es)
  have "t \<le> raise_top e t" by (auto simp: raise_top_def)
  also have "\<dots> \<le> top_of es (raise_top e t)" by (rule Cons)
  finally show ?case by (simp add: top_of_def)
qed (simp add: top_of_def)

lemma top_of_bound: "e \<in> set es \<Longrightarrow> e_base e + e_len e \<le> top_of es t"
proof (induction es arbitrary: t)
  case (Cons x es)
  show ?case
  proof (cases "e = x")
    case True
    have "e_base x + e_len x \<le> raise_top x t" by (auto simp: raise_top_def not_less)
    also have "\<dots> \<le> top_of es (raise_top x t)" by (rule top_of_ge)
    finally show ?thesis using True by (simp add: top_of_def)
  qed (use Cons in \<open>simp add: top_of_def\<close>)
qed simp

lemma top_of_attained: "top_of es t = t \<or> (\<exists>e\<in>set es. top_of es t = e_base e + e_len e)"
proof (induction es arbitrary: t)
  case (Cons x es)
  from Cons [of "raise_top x t"] show ?case by (auto simp: top_of_def raise_top_def split: if_splits)
qed (simp add: top_of_def)

text \<open>An entry that does not advance the walk keeps it from ending.\<close>

definition stuck_at :: "cmem \<Rightarrow> u64 \<Rightarrow> nat \<Rightarrow> u64 \<Rightarrow> mem_region list \<Rightarrow> bool" where
  "stuck_at m stop n p rs \<longleftrightarrow>
     p < stop \<and> length rs < n \<and> \<not> usable (read_entry m p) \<and> e_size (read_entry m p) + 4 = 0"

lemma mmap_walk_stuck:
  assumes "mmap_walk m stop n p rs t = Some r"
  shows "\<not> stuck_at m stop n p rs"
proof (rule mmap_walk.raw_induct [where P = "\<lambda>m stop n p rs t r. \<not> stuck_at m stop n p rs", OF _ assms], rule notI)
  fix walk m stop n p rs t r
  assume IH: "\<And>m stop n p rs t r. walk m stop n p rs t = Some r \<Longrightarrow> \<not> stuck_at m stop n p rs"
    and stuck: "stuck_at m stop n p rs"
    and body: "(if p < stop \<and> length rs < n
       then let e = read_entry m p in
         if usable e then walk m stop n (next_entry p e) (rs @ [region_of e]) (raise_top e t)
         else walk m stop n (next_entry p e) rs t
       else Some (rs, t)) = Some r"
  have "next_entry p (read_entry m p) = p" using stuck by (simp add: next_entry_def stuck_at_def)
  with stuck body have "walk m stop n p rs t = Some r" by (simp add: Let_def stuck_at_def)
  with IH stuck show False by blast
qed

section \<open>A small map\<close>

definition mem_of :: "u64 \<Rightarrow> u8 list \<Rightarrow> cmem" where
  "mem_of a bs = (\<lambda>x. if unat (x - a) < length bs then bs ! unat (x - a) else 0)"

text \<open>
  A boot record at 0x100 with a map of two entries at 0x200: 32 KiB of memory at address 0, and a
  reserved region.
\<close>

definition demo_map :: cmem where
  "demo_map = (\<lambda>x. if x < 0x200
     then mem_of 0x100 ([0x40, 0, 0, 0] @ replicate 40 0 @ [0x30, 0, 0, 0, 0, 2, 0, 0]) x
     else mem_of 0x200
       ([20, 0, 0, 0] @ replicate 8 0 @ [0, 0x80, 0, 0, 0, 0, 0, 0] @ [1, 0, 0, 0] @
        [20, 0, 0, 0] @ [0, 0, 0xF, 0, 0, 0, 0, 0] @ [0, 0, 1, 0, 0, 0, 0, 0] @ [2, 0, 0, 0]) x)"

definition demo_entries :: "mb_mmap_entry list" where
  "demo_entries = [\<lparr>e_size = 20, e_base = 0, e_len = 0x8000, e_type = 1\<rparr>,
     \<lparr>e_size = 20, e_base = 0xF0000, e_len = 0x10000, e_type = 2\<rparr>]"

lemma demo_table: "table_at demo_map 0x200 0x230 demo_entries"
  by code_simp

text \<open>The same map with a first entry that does not advance.\<close>

definition stuck_map :: cmem where
  "stuck_map = (\<lambda>x. if x = 0x200 then 0xFC else if 0x200 < x \<and> x < 0x204 then 0xFF
     else if x = 0x214 then 2 else demo_map x)"

lemma stuck_info:
  "read_info stuck_map 0x100 = \<lparr>mb_flags = 0x40, mb_mem_upper = 0, mmap_length = 0x30, mmap_addr = 0x200\<rparr>"
  by code_simp

lemma stuck_entry: "e_size (read_entry stuck_map 0x200) = 0xFFFFFFFC" "e_type (read_entry stuck_map 0x200) = 2"
  by code_simp+

lemma demo_info: "read_info demo_map 0x100 = \<lparr>mb_flags = 0x40, mb_mem_upper = 0, mmap_length = 0x30, mmap_addr = 0x200\<rparr>"
  by code_simp

section \<open>Properties\<close>

text \<open>From a well-formed map the walk takes the usable entries in order, as many as fit; the
  top of memory is the largest end of a region taken.\<close>

theorem mem_detect_exact:
  assumes "mb_info \<noteq> 0" and "mb_flags (read_info m (ucast mb_info)) AND MB_FLAG_MMAP \<noteq> 0"
    and "mmap_length (read_info m (ucast mb_info)) \<noteq> 0"
    and "p = ucast (mmap_addr (read_info m (ucast mb_info)))"
    and "table_at m p (p + ucast (mmap_length (read_info m (ucast mb_info)))) es"
    and "us = take n (filter usable es)"
  shows "\<exists>t. arch_mem_detect m mb_info n = Some (map region_of us, t) \<and>
    (\<forall>e\<in>set us. e_base e + e_len e \<le> t) \<and> (t = 0 \<or> (\<exists>e\<in>set us. t = e_base e + e_len e))"
proof -
  have "arch_mem_detect m mb_info n = Some (map region_of us, top_of us 0)"
    using assms mmap_walk_table [OF assms(5), of "[]" n 0] by (simp add: arch_mem_detect_def Let_def)
  then show ?thesis using top_of_bound [of _ us 0] top_of_attained [of us 0] by auto
qed

theorem mem_detect_exact_witness:
  "\<exists>t. arch_mem_detect demo_map 0x100 32 = Some ([\<lparr>r_base = 0, r_len = 0x8000\<rparr>], t)"
proof -
  have "\<exists>t. arch_mem_detect demo_map 0x100 32 = Some (map region_of (take 32 (filter usable demo_entries)), t)"
    using mem_detect_exact [of "0x100" demo_map "0x200" demo_entries "take 32 (filter usable demo_entries)" 32]
      demo_info demo_table by auto
  moreover have "map region_of (take 32 (filter usable demo_entries)) = [\<lparr>r_base = 0, r_len = 0x8000\<rparr>]" by code_simp
  ultimately show ?thesis by simp
qed

text \<open>C39: When the first entry of the map is not usable and its size field is 0xFFFFFFFC, the walk
  does not advance (the sum wraps at 32 bits): the detection never returns.\<close>

theorem mem_detect_stuck:
  assumes "mb_info \<noteq> 0" and "mb_flags (read_info m (ucast mb_info)) AND MB_FLAG_MMAP \<noteq> 0"
    and "mmap_length (read_info m (ucast mb_info)) \<noteq> 0"
    and "p = ucast (mmap_addr (read_info m (ucast mb_info)))"
    and "p < p + ucast (mmap_length (read_info m (ucast mb_info)))" and "0 < n"
    and "\<not> usable (read_entry m p)" and "e_size (read_entry m p) = 0xFFFFFFFC"
  shows "arch_mem_detect m mb_info n = None"
proof (rule ccontr)
  assume "arch_mem_detect m mb_info n \<noteq> None"
  then obtain r where "mmap_walk m (p + ucast (mmap_length (read_info m (ucast mb_info)))) n p [] 0 = Some r"
    using assms(1-4) by (auto simp: arch_mem_detect_def Let_def)
  from mmap_walk_stuck [OF this] show False using assms(5-8) by (simp add: stuck_at_def)
qed

theorem mem_detect_stuck_witness:
  "arch_mem_detect stuck_map 0x100 32 = None"
  using mem_detect_stuck [of "0x100" stuck_map "0x200" 32] stuck_info stuck_entry by (simp add: usable_def)

text \<open>C38: After \<open>pmm_init\<close> on what \<open>arch_mem_detect\<close> has found (and before \<open>kmain\<close> takes frames for
  the programs), exactly the frames of the first 32 usable entries of the boot loader's map, above
  the reserved area, are free.\<close>

theorem boot_frames_exact:
  assumes "mb_info \<noteq> 0" and "mb_flags (read_info m (ucast mb_info)) AND MB_FLAG_MMAP \<noteq> 0"
    and "mmap_length (read_info m (ucast mb_info)) \<noteq> 0"
    and "p = ucast (mmap_addr (read_info m (ucast mb_info)))"
    and "table_at m p (p + ucast (mmap_length (read_info m (ucast mb_info)))) es"
    and "arch_mem_detect m mb_info 32 = Some (rs, t)" and "0 < reserved_frames ke t"
  shows "free_set (pmm_init ke rs t q) =
    {f. reserved_frames ke t \<le> f \<and> (\<exists>e\<in>set (take 32 (filter usable es)). f \<in> region_frames (region_of e))}"
proof -
  let ?us = "take 32 (filter usable es)"
  obtain t' where d: "arch_mem_detect m mb_info 32 = Some (map region_of ?us, t')"
    "\<forall>e\<in>set ?us. e_base e + e_len e \<le> t'"
    using mmap_walk_table [OF assms(5), of "[]" 32 0] assms(1-4) top_of_bound [of _ ?us 0]
    by (auto simp: arch_mem_detect_def Let_def)
  then have rs: "rs = map region_of ?us" "t' = t" using assms(6) by simp_all
  have "f < drop_bit PAGE_SHIFT t" if "e \<in> set ?us" "f \<in> region_frames (region_of e)" for e f
  proof -
    have "f < drop_bit PAGE_SHIFT (e_base e + e_len e)" using that(2) by (auto simp: region_frames_def region_of_def)
    also have "\<dots> \<le> drop_bit PAGE_SHIFT t"
      using d(2) that(1) rs(2) unfolding word_le_nat_alt unat_drop_bit_eq
      by (simp add: drop_bit_eq_div div_le_mono)
    finally show ?thesis .
  qed
  then show ?thesis by (auto simp: free_set_pmm_init rs)
qed

theorem boot_frames_exact_witness: "6 \<in> free_set (pmm_init 0x2000 [\<lparr>r_base = 0, r_len = 0x8000\<rparr>] 0x8000 small_pmm)"
proof -
  have d: "arch_mem_detect demo_map 0x100 32 = Some ([\<lparr>r_base = 0, r_len = 0x8000\<rparr>], 0x8000)"
    using mmap_walk_table [OF demo_table, of "[]" 32 0] demo_info
    by (simp add: arch_mem_detect_def Let_def) code_simp
  have f: "take 32 (filter usable demo_entries) = [\<lparr>e_size = 20, e_base = 0, e_len = 0x8000, e_type = 1\<rparr>]"
    by code_simp
  have "reserved_frames 0x2000 0x8000 = 3" by code_simp
  moreover have "(6 :: u64) \<in> region_frames \<lparr>r_base = 0, r_len = 0x8000\<rparr>"
    by (simp add: region_frames_def page_align_up_def)
  ultimately show ?thesis
    using boot_frames_exact [of "0x100" demo_map "0x200" demo_entries _ _ "0x2000" small_pmm, OF _ _ _ _ _ d] demo_info demo_table f
    by (auto simp: region_of_def)
qed

end
