(* ===== verification/Mirror.thy ===== *)
theory Mirror
  imports Prelude
begin

text \<open>
  The optional text-mode mirror of the kernel console (\<^verbatim>\<open>arch/x86_64/hal/vga.h\<close>):
  the 80x25 cells of the display and the static variable \<open>pos\<close>.
\<close>

abbreviation VGA_COLS :: int where "VGA_COLS \<equiv> 80"
abbreviation VGA_ROWS :: int where "VGA_ROWS \<equiv> 25"
abbreviation VGA_ATTR :: u16 where "VGA_ATTR \<equiv> 0x07"

record mirror =
  cells :: "nat \<Rightarrow> u16"
  pos :: int

definition vga_cell :: "u8 \<Rightarrow> u16" where
  "vga_cell c = push_bit 8 VGA_ATTR OR ucast c"

definition arch_vga_init :: "mirror \<Rightarrow> mirror" where
  "arch_vga_init m = m\<lparr>cells := fold (\<lambda>i f. f(i := vga_cell 0x20)) [0..<nat (VGA_COLS * VGA_ROWS)] (cells m)\<rparr>"

definition arch_vga_putc :: "u8 \<Rightarrow> mirror \<Rightarrow> mirror" where
  "arch_vga_putc c m =
     (let m1 = (if c = 0x0A then m\<lparr>pos := pos m + (VGA_COLS - pos m mod VGA_COLS)\<rparr>
                else m\<lparr>cells := (cells m)(nat (pos m) := vga_cell c), pos := pos m + 1\<rparr>)
      in if pos m1 \<ge> VGA_COLS * VGA_ROWS then m1\<lparr>pos := 0\<rparr> else m1)"

definition mirror_ok :: "mirror \<Rightarrow> bool" where
  "mirror_ok m \<longleftrightarrow> 0 \<le> pos m \<and> pos m < VGA_COLS * VGA_ROWS"

lemma arch_vga_putc_ok:
  assumes "mirror_ok m"
  shows "mirror_ok (arch_vga_putc c m)"
proof -
  have "0 \<le> pos m mod 80" "pos m mod 80 < 80" by simp_all
  then show ?thesis using assms by (auto simp: mirror_ok_def arch_vga_putc_def Let_def)
qed

lemma arch_vga_putc_cells:
  assumes "mirror_ok m" and "2000 \<le> i"
  shows "cells (arch_vga_putc c m) i = cells m i"
  using assms by (auto simp: arch_vga_putc_def Let_def mirror_ok_def)

lemma fold_fill: "fold (\<lambda>i f. f(i := v)) [0..<n] f k = (if k < n then v else f k)"
  by (induction n) auto

lemma arch_vga_init_cells: "cells (arch_vga_init m) i = (if i < 2000 then vga_cell 0x20 else cells m i)"
  by (simp add: arch_vga_init_def fold_fill)

lemma mirror_start: "mirror_ok (arch_vga_init \<lparr>cells = f, pos = 0\<rparr>)"
  by (simp add: mirror_ok_def arch_vga_init_def)

section \<open>Properties\<close>

text \<open>Whatever the kernel prints, the mirror writes only the 2000 cells of the display, and
  the next cell is one of them.\<close>

theorem mirror_in_bounds:
  assumes "m = fold arch_vga_putc cs (arch_vga_init \<lparr>cells = f, pos = 0\<rparr>)"
  shows "0 \<le> pos m \<and> pos m < 2000 \<and> (\<forall>i\<ge>2000. cells m i = f i)"
proof -
  have "mirror_ok (fold arch_vga_putc cs m0) \<and> (\<forall>i\<ge>2000. cells (fold arch_vga_putc cs m0) i = cells m0 i)"
    if "mirror_ok m0" for m0
    using that
  proof (induction cs arbitrary: m0)
    case (Cons c cs)
    from Cons.IH [OF arch_vga_putc_ok [OF Cons.prems, of c]] arch_vga_putc_cells [OF Cons.prems]
    show ?case by simp
  qed simp
  from this [OF mirror_start [of f]] show ?thesis
    unfolding assms by (auto simp: mirror_ok_def arch_vga_init_cells)
qed

theorem mirror_in_bounds_witness:
  "pos (fold arch_vga_putc [0x41, 0x0A] (arch_vga_init \<lparr>cells = (\<lambda>_. 0), pos = 0\<rparr>)) < 2000"
  using mirror_in_bounds [OF refl, of "[0x41, 0x0A]" "\<lambda>_. 0"] by blast

end
