(* ===== verification/Riscv.thy ===== *)
theory Riscv
  imports Sched Fmt CMem
begin

text \<open>
  The RISC-V port (\<^verbatim>\<open>arch/riscv64/\<close>): console, trap and timer set-up, the first
  stack frame of a thread, and the start-up that runs two kernel threads under the scheduler of
  \<^verbatim>\<open>kernel/sched.c\<close>.  The time comes from the \<^verbatim>\<open>time\<close> register
  (an argument, \<open>now\<close>); the machine's registers written are fields of the state.
\<close>

section \<open>Console\<close>

abbreviation RV_UART0 :: u64 where "RV_UART0 \<equiv> 0x10000000"
abbreviation UART_THR :: u32 where "UART_THR \<equiv> 0"
abbreviation UART_LSR :: u32 where "UART_LSR \<equiv> 5"

definition rv_uart :: "u32 \<Rightarrow> u64" where
  "rv_uart off = RV_UART0 + ucast off"

text \<open>The polling loop on the values the status register returns: \<open>None\<close> while it waits.\<close>

fun rv_uart_putc :: "u8 \<Rightarrow> u8 list \<Rightarrow> ((u64 \<times> u8) \<times> u8 list) option" where
  "rv_uart_putc c [] = None"
| "rv_uart_putc c (lsr # rest) =
     (if lsr AND 0x20 \<noteq> 0 then Some ((rv_uart UART_THR, c), rest) else rv_uart_putc c rest)"

section \<open>State, traps and timer\<close>

record rvstate = sched +
  rv_on_tick :: bool
  g_interval :: u64
  sbi_deadline :: u64
  stvec :: u64
  sie :: u64
  rv_console :: "u8 list"

abbreviation RV_TIMEBASE :: u64 where "RV_TIMEBASE \<equiv> 10000000"
abbreviation SCAUSE_INT :: u64 where "SCAUSE_INT \<equiv> 0x8000000000000000"
abbreviation IRQ_S_TIMER :: nat where "IRQ_S_TIMER \<equiv> 5"

definition sbi_set_timer :: "u64 \<Rightarrow> rvstate \<Rightarrow> rvstate" where
  "sbi_set_timer t s = s\<lparr>sbi_deadline := t\<rparr>"

definition rv_traps_init :: "u64 \<Rightarrow> rvstate \<Rightarrow> rvstate" where
  "rv_traps_init trap_entry s = s\<lparr>stvec := trap_entry, sie := sie s OR push_bit IRQ_S_TIMER 1\<rparr>"

definition rv_timer_init :: "u32 \<Rightarrow> u64 \<Rightarrow> rvstate \<Rightarrow> rvstate" where
  "rv_timer_init hz now s =
     (let s1 = s\<lparr>rv_on_tick := True, g_interval := RV_TIMEBASE div ucast hz\<rparr>
      in sbi_set_timer (now + g_interval s1) s1)"

definition trap_handler :: "u64 \<Rightarrow> u64 \<Rightarrow> rvstate \<Rightarrow> rvstate" where
  "trap_handler now scause s =
     (if scause AND SCAUSE_INT \<noteq> 0 \<and> scause AND 0xFF = of_nat IRQ_S_TIMER then
        let s1 = sbi_set_timer (now + g_interval s) s
        in if rv_on_tick s1 then schedule (upd_thr (current s1) (\<lambda>t. t\<lparr>kont := K_user\<rparr>) s1) else s1
      else s)"

section \<open>The first stack frame of a thread\<close>

definition rv_init_stack :: "u64 \<Rightarrow> u64 \<Rightarrow> u64 \<Rightarrow> u64 \<Rightarrow> cmem \<Rightarrow> cmem \<times> u64" where
  "rv_init_stack trampoline stk fn arg m =
     (let sp = stk - 112;
          m = fold (\<lambda>i m. store64 m (sp + 8 * of_nat i) 0) [0..<14] m;
          m = store64 m sp trampoline;
          m = store64 m (sp + 16) fn;
          m = store64 m (sp + 24) arg
      in (m, sp))"

definition rv_set_kernel_stack :: "u64 \<Rightarrow> rvstate \<Rightarrow> rvstate" where
  "rv_set_kernel_stack stk s = s"

definition rv_cap_clear :: "thread \<Rightarrow> thread" where
  "rv_cap_clear t = fold (\<lambda>i t. t\<lparr>ctable := (ctable t)(i := \<lparr>cap_type = CAP_NULL, cap_target = - 1,
     cap_rights = 0, io_base = 0, io_len = 0\<rparr>)\<rparr>) [0..<CAP_MAX] t"

section \<open>Start-up\<close>

definition rv_kputs :: "string \<Rightarrow> rvstate \<Rightarrow> rvstate" where
  "rv_kputs m s = s\<lparr>rv_console := rv_console s @ str m\<rparr>"

text \<open>The two threads: the programs 0 and 1 of the model run \<open>worker\<close> on these tags.\<close>

definition worker_tag :: "nat \<Rightarrow> string" where
  "worker_tag p = (if p = 0 then ''A'' else ''B'')"

definition worker_output :: "string \<Rightarrow> u8 list" where
  "worker_output tag = concat (replicate 30 (str tag))"

definition rv_kmain :: "u64 \<Rightarrow> u64 \<Rightarrow> rvstate \<Rightarrow> rvstate" where
  "rv_kmain trap_entry now s =
     (let s1 = rv_kputs ''\<newline>muKern/riscv64 booting in S-mode (QEMU virt)\<newline>'' s;
          s2 = sched_init (rv_traps_init trap_entry s1);
          s3 = fst (thread_create s2 0);
          s4 = fst (thread_create s3 1);
          s5 = rv_timer_init 100 now s4
      in rv_kputs ''[rv] timer armed; preempting 2 kernel threads via generic scheduler:\<newline>'' s5)"

section \<open>Facts\<close>

lemma rv_putc_returns: "lsr \<in> set lsrs \<Longrightarrow> lsr AND 0x20 \<noteq> 0 \<Longrightarrow> \<exists>rest. rv_uart_putc c lsrs = Some ((RV_UART0, c), rest)"
  by (induction lsrs) (auto simp: rv_uart_def)

lemma rv_cap_clear_eq: "rv_cap_clear t = cap_clear t"
proof -
  have "fold (\<lambda>i t. t\<lparr>ctable := (ctable t)(i := null_cap)\<rparr>) [0..<n] t =
      t\<lparr>ctable := (\<lambda>i. if i < n then null_cap else ctable t i)\<rparr>" for n
    by (induction n) (auto simp: fun_eq_iff)
  then show ?thesis unfolding rv_cap_clear_def cap_clear_def null_cap_def by simp
qed

text \<open>The two workers share the processor: one runs, the other is runnable, no third thread exists.\<close>

definition sharing :: "nat \<Rightarrow> rvstate \<Rightarrow> bool" where
  "sharing k s \<longleftrightarrow> k < 2 \<and> current s = Slot k \<and> rv_on_tick s \<and>
     (\<forall>i<SCHED_MAX_THREADS. tid (threads s i) = int i \<and>
        tstate (threads s i) = (if i = k then T_RUNNING else if i < 2 then T_RUNNABLE else T_UNUSED))"

lemma only_runnable:
  assumes "n < SCHED_MAX_THREADS" and "\<forall>i<SCHED_MAX_THREADS. tstate (threads s i) = T_RUNNABLE \<longleftrightarrow> i = n"
  shows "pick_next s = Some n"
  using assms by (auto simp: pick_next_Some_iff)

lemma schedule_to:
  assumes "pick_next s = Some n" and "current s \<noteq> Slot n"
  shows "schedule s = switch_to s (Slot n)"
  using assms by (simp add: schedule_def switch_target_def)

abbreviation timer_cause :: u64 where "timer_cause \<equiv> 0x8000000000000005"

lemma trap_timer:
  "trap_handler now timer_cause s =
     (if rv_on_tick s then schedule (upd_thr (current s) (\<lambda>t. t\<lparr>kont := K_user\<rparr>) (sbi_set_timer (now + g_interval s) s))
      else sbi_set_timer (now + g_interval s) s)"
  by (simp add: trap_handler_def Let_def sbi_set_timer_def)

lemma rv_frames [simp]:
  "rv_on_tick (upd_thr p f s) = rv_on_tick s" "g_interval (upd_thr p f s) = g_interval s"
  "sbi_deadline (upd_thr p f s) = sbi_deadline s"
  by (cases p; simp add: upd_thr.simps)+

lemma rv_schedule_frames [simp]:
  "rv_on_tick (schedule s) = rv_on_tick s" "g_interval (schedule s) = g_interval s"
  "sbi_deadline (schedule s) = sbi_deadline s"
  by (cases s rule: schedule_cases; simp add: switch_to_def Let_def)+

lemma trap_timer_regs:
  "g_interval (trap_handler now timer_cause s) = g_interval s"
  "sbi_deadline (trap_handler now timer_cause s) = now + g_interval s"
  by (simp_all add: trap_timer) (simp_all add: sbi_set_timer_def)

lemma sharing_tick:
  assumes s: "sharing k s"
  shows "sharing (1 - k) (trap_handler now timer_cause s)"
proof -
  let ?s = "upd_thr (Slot k) (\<lambda>t. t\<lparr>kont := K_user\<rparr>) (sbi_set_timer (now + g_interval s) s)"
  have k: "k < 2" "current s = Slot k" "rv_on_tick s" using s by (auto simp: sharing_def)
  have thr: "threads ?s i = (if i = k then (threads s i)\<lparr>kont := K_user\<rparr> else threads s i)" for i
    by (simp add: sbi_set_timer_def)
  have st: "tid (threads ?s i) = int i"
    "tstate (threads ?s i) = (if i = k then T_RUNNING else if i < 2 then T_RUNNABLE else T_UNUSED)"
    if "i < SCHED_MAX_THREADS" for i
    using s that unfolding thr by (auto simp: sharing_def)
  have only: "\<forall>i<SCHED_MAX_THREADS. tstate (threads ?s i) = T_RUNNABLE \<longleftrightarrow> i = 1 - k"
  proof (intro allI impI)
    fix i assume "i < SCHED_MAX_THREADS"
    from st(2) [OF this] show "tstate (threads ?s i) = T_RUNNABLE \<longleftrightarrow> i = 1 - k" using k(1) by (cases "k = 0") (simp_all only: split: if_split, auto)
  qed
  have pick: "pick_next ?s = Some (1 - k)" using only by (intro only_runnable) simp_all
  have cur: "current ?s = Slot k" using k(2) by (simp add: sbi_set_timer_def)
  have "k \<noteq> 1 - k" using k(1) by presburger
  then have sw: "trap_handler now timer_cause s = switch_to ?s (Slot (1 - k))"
    using k schedule_to [OF pick] cur by (simp add: trap_timer)
  have "threads (switch_to ?s (Slot (1 - k))) i =
      (threads ?s i)\<lparr>tstate := (if i = 1 - k then T_RUNNING else if i < 2 then T_RUNNABLE else T_UNUSED)\<rparr>"
    if "i < SCHED_MAX_THREADS" for i
    using st(2) [OF that] st(2) [of k] cur k(1) by (auto simp: threads_switch_to)
  moreover have "rv_on_tick (trap_handler now timer_cause s)" using k by (simp add: trap_timer sbi_set_timer_def)
  ultimately show ?thesis
    using k st(1) by (auto simp: sharing_def sw)
qed

text \<open>The state the start-up leaves: two runnable threads, the idle thread current, the timer armed.\<close>

lemma rv_kmain_state:
  assumes zero: "\<forall>i<SCHED_MAX_THREADS. threads s i = zero_thread"
    and u0: "u = rv_kmain entry t0 s"
  shows "current u = Idle" "rv_on_tick u" "g_interval u = 100000" "sbi_deadline u = t0 + 100000"
    "i < SCHED_MAX_THREADS \<Longrightarrow> tid (threads u i) = int i \<and>
       tstate (threads u i) = (if i < 2 then T_RUNNABLE else T_UNUSED)"
proof -
  define s2 where "s2 = sched_init (rv_traps_init entry (rv_kputs ''\<newline>muKern/riscv64 booting in S-mode (QEMU virt)\<newline>'' s))"
  have t2: "i < SCHED_MAX_THREADS \<Longrightarrow> threads s2 i = zero_thread\<lparr>tstate := T_UNUSED, tid := int i, ipc_call_to := - 1\<rparr>" for i
    using zero by (simp add: s2_def sched_init_def rv_traps_init_def rv_kputs_def)
  have f2: "free_thread s2 = Some 0"
    unfolding free_thread_def first_fit_Some_iff by (simp add: t2)
  define s3 where "s3 = upd_thr (Slot 0) (create_thread_in s2 0 0) s2"
  have f3: "free_thread s3 = Some 1"
    unfolding free_thread_def first_fit_Some_iff by (simp add: s3_def t2)
  define s4 where "s4 = upd_thr (Slot 1) (create_thread_in s3 1 1) s3"
  have u: "u = rv_kputs ''[rv] timer armed; preempting 2 kernel threads via generic scheduler:\<newline>'' (rv_timer_init 100 t0 s4)"
    unfolding u0 rv_kmain_def Let_def s2_def [symmetric]
    by (simp add: thread_create_def f2 s3_def [symmetric] f3 flip: One_nat_def) (simp add: s4_def)
  have cur: "current s4 = Idle" by (simp add: s4_def s3_def s2_def sched_init_def)
  show "current u = Idle" "rv_on_tick u" "g_interval u = 100000" "sbi_deadline u = t0 + 100000"
    by (simp_all add: u rv_kputs_def rv_timer_init_def sbi_set_timer_def Let_def cur)
  show "i < SCHED_MAX_THREADS \<Longrightarrow> tid (threads u i) = int i \<and>
       tstate (threads u i) = (if i < 2 then T_RUNNABLE else T_UNUSED)"
    by (auto simp: u rv_kputs_def rv_timer_init_def sbi_set_timer_def Let_def s4_def s3_def t2 less_2_cases_iff)
qed

lemma sharing_first:
  assumes zero: "\<forall>i<SCHED_MAX_THREADS. threads s i = zero_thread"
  shows "sharing 0 (trap_handler now timer_cause (rv_kmain entry t0 s))"
proof -
  define u where "u = rv_kmain entry t0 s"
  note st = rv_kmain_state [OF zero u_def]
  let ?u = "upd_thr Idle (\<lambda>t. t\<lparr>kont := K_user\<rparr>) (sbi_set_timer (now + g_interval u) u)"
  have thr: "threads ?u i = threads u i" for i by (simp add: sbi_set_timer_def)
  have cur: "current ?u = Idle" using st(1) by (simp add: sbi_set_timer_def)
  have "scan_from ?u = 0" unfolding scan_from_def cur by simp
  then have dist: "i < SCHED_MAX_THREADS \<Longrightarrow> scan_dist ?u i = i" for i
    unfolding scan_dist_def by simp
  have "pick_next ?u = Some 0"
    unfolding pick_next_Some_iff thr using st(5) [of 0] dist by simp
  then have sw: "trap_handler now timer_cause u = switch_to ?u (Slot 0)"
    using st(1,2) cur by (simp add: trap_timer schedule_to)
  have "rv_on_tick (trap_handler now timer_cause u)"
    using st(1,2) by (simp add: trap_timer sbi_set_timer_def)
  then show ?thesis
    using st(5) cur unfolding sharing_def u_def [symmetric] sw
    by (auto simp: threads_switch_to sbi_set_timer_def)
qed

section \<open>The two workers\<close>

text \<open>What happens after start-up: timer interrupts, and the running worker returning, which ends in
  \<open>thread_exit\<close>.\<close>

datatype rv_event = Timer u64 | Return

primrec rv_step :: "rv_event \<Rightarrow> rvstate \<Rightarrow> rvstate" where
  "rv_step (Timer now) s = trap_handler now timer_cause s"
| "rv_step Return s = (if current s = Idle then s else thread_exit s)"

text \<open>Who has the processor, and which workers have not returned.\<close>

primrec turn :: "rv_event \<Rightarrow> tptr \<times> (nat \<Rightarrow> bool) \<Rightarrow> tptr \<times> (nat \<Rightarrow> bool)" where
  "turn (Timer now) ca = (case ca of (c, alive) \<Rightarrow>
     (case c of
        Idle \<Rightarrow> if alive 0 then Slot 0 else if alive 1 then Slot 1 else Idle
      | Slot k \<Rightarrow> if alive (1 - k) then Slot (1 - k) else Idle, alive))"
| "turn Return ca = (case ca of (c, alive) \<Rightarrow>
     (c, case c of Idle \<Rightarrow> alive | Slot k \<Rightarrow> alive(k := False)))"

definition workers :: "tptr \<times> (nat \<Rightarrow> bool) \<Rightarrow> rvstate \<Rightarrow> bool" where
  "workers ca s \<longleftrightarrow> current s = fst ca \<and> fst ca \<in> {Idle, Slot 0, Slot 1} \<and> rv_on_tick s \<and>
     (\<forall>i<SCHED_MAX_THREADS. tid (threads s i) = int i \<and> tstate (threads s i) =
        (if i < 2 then if snd ca i then if fst ca = Slot i then T_RUNNING else T_RUNNABLE else T_DEAD else T_UNUSED))"

lemma workers_runnable:
  "workers ca s \<Longrightarrow> i < SCHED_MAX_THREADS \<Longrightarrow> tstate (threads s i) = T_RUNNABLE \<longleftrightarrow> i < 2 \<and> snd ca i \<and> fst ca \<noteq> Slot i"
  by (simp add: workers_def)

lemma workers_pick:
  assumes "workers ca s"
  shows "switch_target s = (let c = fst (turn (Timer now) ca) in if c = Idle \<and> fst ca = Idle then None else Some c)"
proof -
  obtain c alive where ca: "ca = (c, alive)" by (cases ca)
  have c: "current s = c" "c = Idle \<or> c = Slot 0 \<or> c = Slot 1" using assms by (auto simp: workers_def ca)
  have none: "pick_next s = None" if "\<forall>i<2. alive i \<longrightarrow> c = Slot i"
    unfolding pick_next_None_iff using workers_runnable [OF assms] that by (auto simp: ca)
  have one: "pick_next s = Some k" if "k < 2" "alive k" "c \<noteq> Slot k" "\<forall>i<2. i \<noteq> k \<longrightarrow> alive i \<longrightarrow> c = Slot i" for k
    using workers_runnable [OF assms] that by (intro only_runnable) (auto simp: ca)
  have both: "pick_next s = Some 0" if "c = Idle" "alive 0"
  proof -
    have "scan_from s = 0" using c(1) that(1) by (simp add: scan_from_def)
    then have "i < SCHED_MAX_THREADS \<Longrightarrow> scan_dist s i = i" for i unfolding scan_dist_def by simp
    then show ?thesis
      unfolding pick_next_Some_iff using workers_runnable [OF assms, of 0] that by (simp add: ca)
  qed
  have n2: "(\<forall>i<2. P i) \<longleftrightarrow> P 0 \<and> P 1" for P :: "nat \<Rightarrow> bool" by (auto simp: less_2_cases_iff)
  from c(2) show ?thesis
  proof (elim disjE)
    assume "c = Idle"
    with both one [of 1] none show ?thesis by (auto simp: switch_target_def c(1) ca n2)
  next
    assume "c = Slot 0"
    with one [of 1] none show ?thesis by (auto simp: switch_target_def c(1) ca n2)
  next
    assume "c = Slot 1"
    with one [of 0] none show ?thesis by (auto simp: switch_target_def c(1) ca n2)
  qed
qed

lemma rv_switch_frames [simp]: "rv_on_tick (switch_to s p) = rv_on_tick s"
  by (simp add: switch_to_def Let_def)

lemma workers_tick:
  assumes "workers ca s"
  shows "workers (turn (Timer now) ca) (trap_handler now timer_cause s)"
proof -
  define v where "v = upd_thr (current s) (\<lambda>t. t\<lparr>kont := K_user\<rparr>) (sbi_set_timer (now + g_interval s) s)"
  obtain c alive where ca: "ca = (c, alive)" by (cases ca)
  have v: "workers ca v"
    using assms by (auto simp: workers_def sbi_set_timer_def threads_upd_thr v_def)
  have c: "c = Idle \<or> c = Slot 0 \<or> c = Slot 1" "current v = c" using v by (auto simp: workers_def ca)
  have t: "trap_handler now timer_cause s = schedule v"
    using assms by (simp add: trap_timer workers_def v_def)
  have st: "switch_target v = (let d = fst (turn (Timer now) ca) in if d = Idle \<and> c = Idle then None else Some d)"
    using workers_pick [OF v, of now] by (simp add: ca)
  from c(1) show ?thesis
    unfolding t schedule_def st using v c(2)
    by (elim disjE) (auto simp: ca workers_def threads_switch_to Let_def)
qed

lemma workers_return:
  assumes "workers ca s"
  shows "workers (turn Return ca) (if current s = Idle then s else thread_exit s)"
proof -
  obtain c alive where ca: "ca = (c, alive)" by (cases ca)
  have c: "c = Idle \<or> c = Slot 0 \<or> c = Slot 1" "current s = c" using assms by (auto simp: workers_def ca)
  then show ?thesis using assms by (elim disjE) (auto simp: ca workers_def thread_exit_def)
qed

lemma workers_step: "workers ca s \<Longrightarrow> workers (turn e ca) (rv_step e s)"
proof (cases e)
  case (Timer now)
  then show "workers ca s \<Longrightarrow> workers (turn e ca) (rv_step e s)"
    using workers_tick by (simp only: rv_step.simps)
next
  case Return
  then show "workers ca s \<Longrightarrow> workers (turn e ca) (rv_step e s)"
    using workers_return by (simp only: rv_step.simps)
qed

lemma workers_run: "workers ca s \<Longrightarrow> workers (fold turn es ca) (fold rv_step es s)"
  by (induction es arbitrary: ca s) (simp_all add: workers_step del: turn.simps rv_step.simps)

section \<open>Properties\<close>

text \<open>C37: After start-up the two workers share the processor: whatever the order of timer interrupts
  and of workers that return, the kernel does with the processor what the machine of two turns does
  --- the workers alternate, a worker left alone alternates with the idle thread, and a worker that
  has returned never runs again.\<close>

theorem workers_refine:
  assumes "\<forall>i<SCHED_MAX_THREADS. threads s i = zero_thread"
    and "s' = fold rv_step es (rv_kmain entry t0 s)" and "(c, alive) = fold turn es (Idle, \<lambda>_. True)"
  shows "current s' = c \<and> (\<forall>i<2. tstate (threads s' i) = T_DEAD \<longleftrightarrow> \<not> alive i) \<and>
    (\<forall>i<2. alive i \<longrightarrow> tstate (threads s' i) = (if c = Slot i then T_RUNNING else T_RUNNABLE))"
proof -
  have "workers (Idle, \<lambda>_. True) (rv_kmain entry t0 s)"
    using rv_kmain_state [OF assms(1) refl [of "rv_kmain entry t0 s"]] by (auto simp: workers_def)
  from workers_run [OF this, of es] show ?thesis
    unfolding assms(2) assms(3) [symmetric] by (auto simp: workers_def)
qed

definition rv_zero :: rvstate where
  "rv_zero = \<lparr>threads = (\<lambda>_. zero_thread), idle = zero_thread, current = Idle, stacks = 0, tss_rsp0 = 0,
     rv_on_tick = False, g_interval = 0, sbi_deadline = 0, stvec = 0, sie = 0, rv_console = []\<rparr>"

theorem workers_refine_witness:
  "current (fold rv_step [Timer 7, Timer 9, Return, Timer 11, Timer 13] (rv_kmain 0 0 rv_zero)) = Idle \<and>
   tstate (threads (fold rv_step [Timer 7, Timer 9, Return, Timer 11, Timer 13] (rv_kmain 0 0 rv_zero)) 1) = T_DEAD"
proof -
  have "(Idle, (\<lambda>_. True)(1 := False)) = fold turn [Timer 7, Timer 9, Return, Timer 11, Timer 13] (Idle, \<lambda>_. True)"
    by (simp add: fun_eq_iff)
  from workers_refine [OF _ refl this, of rv_zero] show ?thesis by (simp add: rv_zero_def)
qed

text \<open>After start-up the timer shares the processor: the n-th timer interrupt switches to the
  first worker when n is odd and to the second when it is even, and every interrupt arms the next
  one a hundredth of a second later.\<close>

theorem timer_shares:
  assumes "\<forall>i<SCHED_MAX_THREADS. threads s i = zero_thread" and "ts \<noteq> []"
    and "s' = fold (\<lambda>now. trap_handler now timer_cause) ts (rv_kmain entry t0 s)"
  shows "current s' = Slot (if odd (length ts) then 0 else 1) \<and> sbi_deadline s' = last ts + 100000"
proof -
  let ?run = "\<lambda>ts. fold (\<lambda>now. trap_handler now timer_cause) ts (rv_kmain entry t0 s)"
  have "sharing (if odd (length ts) then 0 else 1) (?run ts) \<and> sbi_deadline (?run ts) = last ts + 100000 \<and>
      g_interval (?run ts) = 100000"
    using assms(2)
  proof (induction ts rule: rev_nonempty_induct)
    case (single t)
    show ?case
      using sharing_first [OF assms(1), of t entry t0] rv_kmain_state [OF assms(1) refl [of "rv_kmain entry t0 s"]]
      by (simp add: trap_timer_regs)
  next
    case (snoc t ts)
    then show ?case
      using sharing_tick [of "if odd (length ts) then 0 else 1" "?run ts" t]
      by (simp add: trap_timer_regs split: if_splits)
  qed
  then show ?thesis using assms(3) by (auto simp: sharing_def split: if_splits)
qed

theorem timer_shares_witness:
  "current (fold (\<lambda>now. trap_handler now timer_cause) [7, 9] (rv_kmain 0 0 rv_zero)) = Slot 1"
  using timer_shares [of rv_zero "[7, 9]" _ 0 0] by (simp add: rv_zero_def)

end
