(* ===== verification/Ring.thy ===== *)
theory Ring
  imports Prelude
begin

text \<open>
  The ring buffers of the terminal drivers.  Both drivers keep an array of \<open>N\<close> bytes with a
  head, where the next byte goes, and a tail, where the oldest is; one place stays free.  The
  interface the line editors rely on is a bounded queue.
\<close>

section \<open>The contents of a ring\<close>

definition ring_count :: "nat \<Rightarrow> nat \<Rightarrow> nat \<Rightarrow> nat" where
  "ring_count N h t = (h + N - t) mod N"

definition ring_items :: "nat \<Rightarrow> (nat \<Rightarrow> 'a) \<Rightarrow> nat \<Rightarrow> nat \<Rightarrow> 'a list" where
  "ring_items N b h t = map (\<lambda>i. b ((t + i) mod N)) [0..<ring_count N h t]"

lemma length_ring_items [simp]: "length (ring_items N b h t) = ring_count N h t"
  by (simp add: ring_items_def)

lemma ring_count_cases:
  assumes "h < N" "t < N"
  shows "ring_count N h t = (if t \<le> h then h - t else h + N - t)"
proof (cases "t \<le> h")
  case True
  then have "h + N - t = (h - t) + N" by simp
  then have "ring_count N h t = (h - t) mod N" by (simp add: ring_count_def)
  with True assms show ?thesis by simp
qed (use assms in \<open>simp add: ring_count_def\<close>)

lemma ring_count_bound: "h < N \<Longrightarrow> t < N \<Longrightarrow> ring_count N h t < N"
  unfolding ring_count_def by simp

lemma ring_count_0 [simp]: "h < N \<Longrightarrow> t < N \<Longrightarrow> ring_count N h t = 0 \<longleftrightarrow> h = t"
  unfolding ring_count_cases by auto

lemma next_mod: "h < N \<Longrightarrow> (h + 1) mod N = (if h + 1 = N then 0 else h + (1 :: nat))"
  by (cases "h + 1 = N") simp_all

lemma next_less: "h < N \<Longrightarrow> (h + 1) mod N < (N :: nat)"
  by simp

lemma ring_count_next:
  assumes "h < N" "t < N" "(h + 1) mod N \<noteq> t"
  shows "ring_count N ((h + 1) mod N) t = Suc (ring_count N h t)"
proof -
  define h' where "h' = (h + 1) mod N"
  have h': "h' = (if h + 1 = N then 0 else h + 1)" "h' < N" "h' \<noteq> t"
    using assms next_mod [OF assms(1)] next_less [OF assms(1)] by (simp_all add: h'_def)
  show ?thesis
    unfolding h'_def [symmetric] ring_count_cases [OF assms(1,2)] ring_count_cases [OF h'(2) assms(2)]
    using h' assms(1,2) by (auto split: if_splits)
qed

lemma ring_count_drop:
  assumes "h < N" "t < N" "h \<noteq> t"
  shows "ring_count N h t = Suc (ring_count N h ((t + 1) mod N))"
proof -
  define t' where "t' = (t + 1) mod N"
  have t': "t' = (if t + 1 = N then 0 else t + 1)" "t' < N"
    using next_mod [OF assms(2)] next_less [OF assms(2)] by (simp_all add: t'_def)
  show ?thesis
    unfolding t'_def [symmetric] ring_count_cases [OF assms(1,2)] ring_count_cases [OF assms(1) t'(2)]
    using t' assms by (auto split: if_splits)
qed

lemma ring_full_iff:
  assumes "h < N" "t < N"
  shows "(h + 1) mod N = t \<longleftrightarrow> ring_count N h t = N - 1"
  unfolding ring_count_cases [OF assms] next_mod [OF assms(1)] using assms by (auto split: if_splits)

lemma ring_last: "h < N \<Longrightarrow> t < N \<Longrightarrow> (t + ring_count N h t) mod N = h"
  by (simp add: ring_count_def mod_add_right_eq)

lemma ring_pos_inj:
  assumes "t < N" "i < k" "k < N"
  shows "(t + i) mod N \<noteq> (t + k) mod (N :: nat)"
proof
  assume "(t + i) mod N = (t + k) mod N"
  then have "(t + k - (t + i)) mod N = 0"
    using assms by (metis add_le_cancel_left less_imp_le mod_eq_dvd_iff_nat dvd_imp_mod_0)
  with assms show False by simp
qed

lemma ring_items_put:
  assumes "h < N" "t < N" "(h + 1) mod N \<noteq> t"
  shows "ring_items N (b(h := x)) ((h + 1) mod N) t = ring_items N b h t @ [x]"
proof -
  have "(t + i) mod N \<noteq> h" if "i < ring_count N h t" for i
    using ring_pos_inj [OF assms(2) that ring_count_bound [OF assms(1,2)]] ring_last [OF assms(1,2)] by simp
  then show ?thesis
    unfolding ring_items_def ring_count_next [OF assms] by (simp add: ring_last [OF assms(1,2)])
qed

lemma ring_items_get:
  assumes "h < N" "t < N" "h \<noteq> t"
  shows "ring_items N b h t = b t # ring_items N b h ((t + 1) mod N)"
proof -
  have "(t + Suc i) mod N = ((t + 1) mod N + i) mod N" for i
    by (simp add: mod_simps)
  then show ?thesis
    using assms(2) unfolding ring_items_def ring_count_drop [OF assms] by (simp add: map_upt_Suc del: upt_Suc)
qed

section \<open>The bounded queue\<close>

text \<open>
  What a driver's ring promises: pushes go to the end as long as there is room and are dropped
  otherwise; a pop takes the oldest byte and converts it, or gives -1.
\<close>

locale bounded_queue =
  fixes items :: "'s \<Rightarrow> u8 list" and ok :: "'s \<Rightarrow> bool"
    and push :: "u8 \<Rightarrow> 's \<Rightarrow> 's" and pop :: "'s \<Rightarrow> int \<times> 's"
    and val :: "u8 \<Rightarrow> int" and room :: nat
  assumes push_ok: "ok s \<Longrightarrow> ok (push c s)"
    and pop_ok: "ok s \<Longrightarrow> ok (snd (pop s))"
    and push_items: "ok s \<Longrightarrow> items (push c s) = (if length (items s) < room then items s @ [c] else items s)"
    and pop_empty: "ok s \<Longrightarrow> items s = [] \<Longrightarrow> pop s = (- 1, s)"
    and pop_items: "ok s \<Longrightarrow> items s = c # q \<Longrightarrow> fst (pop s) = val c \<and> items (snd (pop s)) = q"
begin

definition pushes :: "u8 list \<Rightarrow> 's \<Rightarrow> 's" where
  "pushes = fold push"

fun pops :: "nat \<Rightarrow> 's \<Rightarrow> int list" where
  "pops 0 s = []"
| "pops (Suc n) s = fst (pop s) # pops n (snd (pop s))"

lemma pushes_ok: "ok s \<Longrightarrow> ok (pushes cs s)"
  by (induction cs arbitrary: s) (auto simp: pushes_def push_ok)

lemma pushes_items:
  "ok s \<Longrightarrow> length (items s) \<le> room \<Longrightarrow> items (pushes cs s) = items s @ take (room - length (items s)) cs"
proof (induction cs arbitrary: s)
  case (Cons c cs)
  from Cons.IH [OF push_ok [OF Cons.prems(1)], of c] Cons.prems show ?case
    by (auto simp: pushes_def push_items take_Cons' not_less)
qed (simp add: pushes_def)

lemma pops_items: "ok s \<Longrightarrow> n \<le> length (items s) \<Longrightarrow> pops n s = map val (take n (items s))"
proof (induction n arbitrary: s)
  case (Suc n)
  then obtain c q where "items s = c # q" by (cases "items s") auto
  with Suc pop_items [OF Suc.prems(1)] pop_ok [OF Suc.prems(1)] show ?case by simp
qed simp

text \<open>First in, first out: what fits comes out in order.\<close>

lemma fifo:
  assumes "ok s" "items s = []" "n = min room (length cs)"
  shows "pops n (pushes cs s) = map val (take n cs)"
proof -
  have "items (pushes cs s) = take room cs" using pushes_items [OF assms(1), of cs] assms(2) by simp
  then show ?thesis using pops_items [OF pushes_ok [OF assms(1)], of n cs] assms(3) by simp
qed

end

end
