(* ===== verification/Console.thy ===== *)
theory Console
  imports Ring Usys
begin

text \<open>
  The serial console driver (\<^verbatim>\<open>drivers/console/main.c\<close>): the receive ring, the
  command history, the line editor and the server loop.  The client's line buffer is the memory
  from its address on (\<open>rd_buf\<close>); the bytes written to the UART are collected in \<open>tx\<close>, the
  replies sent in \<open>sent\<close>.  The counters are natural numbers: they stay below the size of their
  arrays (\<open>con_ok\<close> below); the one place where the code's \<open>unsigned\<close> arithmetic can wrap,
  \<open>rd_max - 1\<close> in \<open>set_line\<close>, is written on words.
\<close>

section \<open>State\<close>

abbreviation RING :: nat where "RING \<equiv> 256"
abbreviation HMAX :: nat where "HMAX \<equiv> 16"
abbreviation HLEN :: nat where "HLEN \<equiv> 128"
abbreviation LSR_RX :: u8 where "LSR_RX \<equiv> 0x01"

record con =
  ring :: "nat \<Rightarrow> u8"
  r_head :: nat
  r_tail :: nat
  hist :: "nat \<Rightarrow> nat \<Rightarrow> u8"
  hist_len :: "nat \<Rightarrow> nat"
  h_count :: nat
  h_next :: nat
  h_nav :: nat
  h_saved :: "nat \<Rightarrow> u8"
  h_saved_n :: nat
  rd_active :: bool
  rd_from :: u64
  rd_buf :: "nat \<Rightarrow> u8"
  rd_max :: u32
  rd_n :: nat
  rd_pos :: nat
  esc :: nat
  csi_num :: u32
  tx :: "u8 list"
  sent :: "(u64 \<times> ipc_msg) list"

section \<open>Output\<close>

definition uart_putc :: "u8 \<Rightarrow> con \<Rightarrow> con" where
  "uart_putc c s = s\<lparr>tx := tx s @ [c]\<rparr>"

definition uart_puts :: "u8 list \<Rightarrow> con \<Rightarrow> con" where
  "uart_puts xs s = fold uart_putc xs s"

definition uart_putu :: "u64 \<Rightarrow> con \<Rightarrow> con" where
  "uart_putu v s =
     (if v = 0 then uart_putc 0x30 s else let b = dec_digits v in uart_puts (copy_back b (length b)) s)"

fun backspaces :: "nat \<Rightarrow> con \<Rightarrow> con" where
  "backspaces 0 s = s"
| "backspaces (Suc k) s = backspaces k (uart_putc 0x08 s)"

section \<open>The receive ring\<close>

definition ring_push :: "u8 \<Rightarrow> con \<Rightarrow> con" where
  "ring_push c s =
     (let n = (r_head s + 1) mod RING
      in if n \<noteq> r_tail s then s\<lparr>ring := (ring s)(r_head s := c), r_head := n\<rparr> else s)"

definition ring_pop :: "con \<Rightarrow> int \<times> con" where
  "ring_pop s =
     (if r_head s = r_tail s then (- 1, s)
      else (uint (ring s (r_tail s)), s\<lparr>r_tail := (r_tail s + 1) mod RING\<rparr>))"

text \<open>The values the line status and data registers return, in the order of the reads.\<close>

fun drain_rx :: "(u8 \<times> u8) list \<Rightarrow> con \<Rightarrow> con" where
  "drain_rx [] s = s"
| "drain_rx ((lsr, d) # rest) s = (if lsr AND LSR_RX \<noteq> 0 then drain_rx rest (ring_push d s) else s)"

section \<open>History\<close>

definition hist_push :: "(nat \<Rightarrow> u8) \<Rightarrow> nat \<Rightarrow> con \<Rightarrow> con" where
  "hist_push t n s =
     (if n = 0 then s
      else let newest = (h_next s + HMAX - 1) mod HMAX in
        if h_count s \<noteq> 0 \<and> hist_len s newest = n \<and> (\<forall>i\<in>set [0..<n]. hist s newest i = t i) then s
        else let k = (if HLEN \<le> n then HLEN - 1 else n);
                 e = fold (\<lambda>i e. e(i := t i)) [0..<k] (hist s (h_next s))
             in s\<lparr>hist := (hist s)(h_next s := e), hist_len := (hist_len s)(h_next s := k),
                  h_next := (h_next s + 1) mod HMAX,
                  h_count := (if h_count s < HMAX then h_count s + 1 else h_count s)\<rparr>)"

section \<open>The editor\<close>

text \<open>The output loop over \<open>rd_buf[from..to)\<close>, and the two shifting loops.\<close>

definition put_range :: "nat \<Rightarrow> nat \<Rightarrow> con \<Rightarrow> con" where
  "put_range a b s = uart_puts (map (rd_buf s) [a..<b]) s"

definition shift_up :: "nat \<Rightarrow> nat \<Rightarrow> (nat \<Rightarrow> u8) \<Rightarrow> nat \<Rightarrow> u8" where
  "shift_up p n = fold (\<lambda>i b. b(i := b (i - 1))) (rev [Suc p..<Suc n])"

definition shift_down :: "nat \<Rightarrow> nat \<Rightarrow> (nat \<Rightarrow> u8) \<Rightarrow> nat \<Rightarrow> u8" where
  "shift_down p n = fold (\<lambda>i b. b(i := b (i + 1))) [p..<n]"

definition redraw_from :: "nat \<Rightarrow> con \<Rightarrow> con" where
  "redraw_from a s = backspaces (rd_n s - rd_pos s) (put_range a (rd_n s) s)"

definition ins_char :: "u8 \<Rightarrow> con \<Rightarrow> con" where
  "ins_char c s =
     (if unat (rd_max s) \<le> rd_n s + 1 then s
      else let p = rd_pos s;
               s = s\<lparr>rd_buf := (shift_up p (rd_n s) (rd_buf s))(p := c), rd_n := rd_n s + 1\<rparr>;
               s = (put_range p (rd_n s) s)\<lparr>rd_pos := p + 1\<rparr>
           in backspaces (rd_n s - rd_pos s) s)"

definition del_left :: "con \<Rightarrow> con" where
  "del_left s =
     (if rd_pos s = 0 then s
      else let s = s\<lparr>rd_buf := shift_down (rd_pos s - 1) (rd_n s - 1) (rd_buf s), rd_n := rd_n s - 1,
                     rd_pos := rd_pos s - 1\<rparr>;
               s = uart_putc 0x20 (redraw_from (rd_pos s) (uart_putc 0x08 s))
           in backspaces (rd_n s - rd_pos s + 1) s)"

definition del_at :: "con \<Rightarrow> con" where
  "del_at s =
     (if rd_n s \<le> rd_pos s then s
      else let s = s\<lparr>rd_buf := shift_down (rd_pos s) (rd_n s - 1) (rd_buf s), rd_n := rd_n s - 1\<rparr>;
               s = uart_putc 0x20 (redraw_from (rd_pos s) s)
           in backspaces (rd_n s - rd_pos s + 1) s)"

definition go_left :: "con \<Rightarrow> con" where
  "go_left s = (if rd_pos s \<noteq> 0 then uart_putc 0x08 (s\<lparr>rd_pos := rd_pos s - 1\<rparr>) else s)"

definition go_right :: "con \<Rightarrow> con" where
  "go_right s = (if rd_pos s < rd_n s then uart_putc (rd_buf s (rd_pos s)) (s\<lparr>rd_pos := rd_pos s + 1\<rparr>) else s)"

definition go_home :: "con \<Rightarrow> con" where
  "go_home s = backspaces (rd_pos s) (s\<lparr>rd_pos := 0\<rparr>)"

definition go_end :: "con \<Rightarrow> con" where
  "go_end s = (if rd_pos s < rd_n s then (put_range (rd_pos s) (rd_n s) s)\<lparr>rd_pos := rd_n s\<rparr> else s)"

text \<open>\<open>while (rd_n) { uart_puts("\b \b"); rd_n--; }\<close>\<close>

fun rub_times :: "nat \<Rightarrow> con \<Rightarrow> con" where
  "rub_times 0 s = s"
| "rub_times (Suc k) s = rub_times k ((uart_puts [0x08, 0x20, 0x08] s)\<lparr>rd_n := k\<rparr>)"

definition rub_out :: "con \<Rightarrow> con" where
  "rub_out s = rub_times (rd_n s) s"

definition set_line :: "(nat \<Rightarrow> u8) \<Rightarrow> nat \<Rightarrow> con \<Rightarrow> con" where
  "set_line t n s =
     (let s = rub_out (go_end s);
          n = (if unat (rd_max s) \<le> n then unat (rd_max s - 1) else n);
          s = s\<lparr>rd_buf := fold (\<lambda>i b. b(i := t i)) [0..<n] (rd_buf s), rd_n := n, rd_pos := n\<rparr>
      in put_range 0 (rd_n s) s)"

definition hist_nav :: "int \<Rightarrow> con \<Rightarrow> con" where
  "hist_nav delta s =
     (let nav = int (h_nav s) + (if delta < 0 then 1 else - 1) in
      if nav < 0 \<or> int (h_count s) < nav then s
      else let s1 = (if h_nav s = 0 \<and> 0 < nav then
                  let k = (if rd_n s < HLEN then rd_n s else HLEN - 1)
                  in s\<lparr>h_saved_n := k, h_saved := fold (\<lambda>i b. b(i := rd_buf s i)) [0..<k] (h_saved s)\<rparr>
                else s);
               s2 = s1\<lparr>h_nav := nat nav\<rparr>
           in if nav = 0 then set_line (h_saved s2) (h_saved_n s2) s2
              else let idx = (h_next s2 + HMAX - nat nav) mod HMAX
                   in set_line (hist s2 idx) (hist_len s2 idx) s2)"

definition finish_line :: "con \<Rightarrow> con" where
  "finish_line s =
     (let s = uart_putc 0x0A s;
          s = s\<lparr>rd_buf := (rd_buf s)(rd_n s := 0)\<rparr>;
          s = hist_push (rd_buf s) (rd_n s) s
      in s\<lparr>rd_active := False,
           sent := sent s @ [(rd_from s, zero_msg\<lparr>m_label := MSG_REPLY, m_data0 := of_nat (rd_n s)\<rparr>)]\<rparr>)"

definition kill_line :: "con \<Rightarrow> con" where
  "kill_line s = (rub_out (go_end s))\<lparr>rd_pos := 0\<rparr>"

section \<open>Keys\<close>

definition csi_key :: "u8 \<Rightarrow> con \<Rightarrow> con" where
  "csi_key c s =
     (if c = 0x41 then hist_nav (- 1) s
      else if c = 0x42 then hist_nav 1 s
      else if c = 0x43 then go_right s
      else if c = 0x44 then go_left s
      else if c = 0x48 then go_home s
      else if c = 0x46 then go_end s
      else if c = 0x7E then
        (if csi_num s = 3 then del_at s
         else if csi_num s = 1 \<or> csi_num s = 7 then go_home s
         else if csi_num s = 4 \<or> csi_num s = 8 then go_end s
         else s)
      else s)"

definition normal_key :: "u8 \<Rightarrow> con \<Rightarrow> con" where
  "normal_key c s =
     (if c = 0x1B then s\<lparr>esc := 1\<rparr>
      else if c = 0x0D \<or> c = 0x0A then finish_line s
      else if c = 0x7F \<or> c = 0x08 then del_left s
      else if c = 0x01 then go_home s
      else if c = 0x05 then go_end s
      else if c = 0x02 then go_left s
      else if c = 0x06 then go_right s
      else if c = 0x15 then kill_line s
      else if c = 0x03 then finish_line ((uart_puts [0x5E, 0x43, 0x0A] s)\<lparr>rd_n := 0, rd_pos := 0\<rparr>)
      else if 0x20 \<le> c \<and> c < 0x7F then ins_char c s
      else s)"

text \<open>One turn of the loop of \<open>edit\<close>; the keys that finish the line (\<open>return\<close>) clear \<open>rd_active\<close>.\<close>

definition key :: "u8 \<Rightarrow> con \<Rightarrow> con" where
  "key c s =
     (if esc s = 1 then s\<lparr>esc := (if c = 0x5B \<or> c = 0x4F then 2 else 0), csi_num := 0\<rparr>
      else if esc s = 2 then
        (if 0x30 \<le> c \<and> c \<le> 0x39 then s\<lparr>csi_num := csi_num s * 10 + ucast (c - 0x30)\<rparr>
         else (csi_key c s)\<lparr>esc := 0\<rparr>)
      else normal_key c s)"

partial_function (option) edit_loop :: "con \<Rightarrow> con option" where
  "edit_loop s =
     (let (c, s1) = ring_pop s in
      if c < 0 then Some s1
      else let s2 = key (word_of_int c) s1
           in if rd_active s2 then edit_loop s2 else Some s2)"

definition edit :: "con \<Rightarrow> con option" where
  "edit s = (if rd_active s then edit_loop s else Some s)"

section \<open>The server loop\<close>

text \<open>
  One turn: \<open>from\<close> and \<open>m\<close> are the message received, \<open>rx\<close> what the receive registers return
  when they are read, \<open>mem\<close> the memory of the shared address space from an address on.
\<close>

definition begin_read :: "(nat \<Rightarrow> u8) \<Rightarrow> u64 \<Rightarrow> ipc_msg \<Rightarrow> con \<Rightarrow> con" where
  "begin_read buf from m s = s\<lparr>rd_active := True, rd_from := from, rd_buf := buf, rd_max := ucast (m_data1 m),
     rd_n := 0, rd_pos := 0, esc := 0, h_nav := 0\<rparr>"

definition con_step :: "(u64 \<Rightarrow> nat \<Rightarrow> u8) \<Rightarrow> (u8 \<times> u8) list \<Rightarrow> u64 \<Rightarrow> ipc_msg \<Rightarrow> con \<Rightarrow> con option" where
  "con_step mem rx from m s =
     (if m_label m = MSG_IRQ then edit (drain_rx rx s)
      else if m_label m = MSG_WRITE then
        let s = uart_puts (map (mem (m_data0 m)) [0..<unat (ucast (m_data1 m) :: u32)]) s
        in Some (s\<lparr>sent := sent s @ [(from, zero_msg\<lparr>m_label := MSG_REPLY\<rparr>)]\<rparr>)
      else if m_label m = MSG_READLINE then
        edit (begin_read (mem (m_data0 m)) from m s)
      else Some s)"

text \<open>The start-up after the grant: \<open>t\<close> is the answer to \<open>u_gettid\<close>.\<close>

definition con_start :: "(u8 \<times> u8) list \<Rightarrow> u64 \<Rightarrow> con \<Rightarrow> con" where
  "con_start rx t s =
     uart_puts (str '', line editor + history)\<newline>'')
       (uart_putu t (uart_puts (str ''[con] console driver up (tid='') (drain_rx rx s)))"

end
