(* ===== verification/ConEdit.thy ===== *)
theory ConEdit
  imports Console
begin

text \<open>
  What the line editor of the console driver does: closed forms of its loops, its invariant and
  memory safety, and the refinement of an abstract editor on lists with a history.
\<close>

section \<open>Closed forms of the loops\<close>

named_theorems loop_simps \<open>closed forms of the driver's loops\<close>

lemma uart_puts_eq [loop_simps]: "uart_puts xs s = s\<lparr>tx := tx s @ xs\<rparr>"
  by (induction xs arbitrary: s) (simp_all add: uart_puts_def uart_putc_def)

lemma backspaces_eq [loop_simps]: "backspaces k s = s\<lparr>tx := tx s @ replicate k 0x08\<rparr>"
  by (induction k arbitrary: s) (simp_all add: uart_putc_def)

lemma put_range_eq [loop_simps]: "put_range a b s = s\<lparr>tx := tx s @ map (rd_buf s) [a..<b]\<rparr>"
  by (simp add: put_range_def uart_puts_eq)

lemma rub_times_eq:
  "rub_times k s = s\<lparr>tx := tx s @ concat (replicate k [0x08, 0x20, 0x08]), rd_n := (if k = 0 then rd_n s else 0)\<rparr>"
  by (induction k arbitrary: s) (simp_all add: uart_puts_eq)

lemma rub_out_eq [loop_simps]:
  "rub_out s = s\<lparr>tx := tx s @ concat (replicate (rd_n s) [0x08, 0x20, 0x08]), rd_n := 0\<rparr>"
  by (simp add: rub_out_def rub_times_eq)

lemma copy_loop_eq [loop_simps]:
  "fold (\<lambda>i b. b(i := t i)) [0..<n] b = (\<lambda>i. if i < n then t i else b i)"
  by (induction n) (auto simp: fun_eq_iff)

lemma shift_down_eq: "shift_down p n b = (\<lambda>i. if p \<le> i \<and> i < n then b (i + 1) else b i)"
proof (induction n)
  case (Suc n)
  show ?case
  proof (cases "p \<le> n")
    case True
    with Suc show ?thesis by (auto simp: shift_down_def fun_eq_iff)
  qed (auto simp: shift_down_def fun_eq_iff)
qed (simp add: shift_down_def)

lemma shift_up_eq: "shift_up p n b = (\<lambda>i. if p < i \<and> i \<le> n then b (i - 1) else b i)"
proof (induction n arbitrary: b)
  case (Suc n)
  show ?case
  proof (cases "p \<le> n")
    case True
    then have "shift_up p (Suc n) b = shift_up p n (b(Suc n := b n))"
      by (simp add: shift_up_def)
    with Suc True show ?thesis by (auto simp: fun_eq_iff)
  qed (auto simp: shift_up_def fun_eq_iff)
qed (auto simp: shift_up_def)

section \<open>The invariant\<close>

abbreviation printable :: "u8 \<Rightarrow> bool" where
  "printable c \<equiv> 0x20 \<le> c \<and> c < 0x7F"

definition line_of :: "con \<Rightarrow> u8 list" where
  "line_of s = map (rd_buf s) [0..<rd_n s]"

definition entry :: "con \<Rightarrow> nat \<Rightarrow> u8 list" where
  "entry s k = map (hist s k) [0..<hist_len s k]"

definition parked_line :: "con \<Rightarrow> u8 list" where
  "parked_line s = map (h_saved s) [0..<h_saved_n s]"

definition ring_ok :: "con \<Rightarrow> bool" where
  "ring_ok s \<longleftrightarrow> r_head s < RING \<and> r_tail s < RING"

definition hist_ok :: "con \<Rightarrow> bool" where
  "hist_ok s \<longleftrightarrow> h_count s \<le> HMAX \<and> h_next s < HMAX \<and> h_nav s \<le> h_count s \<and> h_saved_n s < HLEN \<and>
     (\<forall>k<HMAX. hist_len s k < HLEN) \<and> (\<forall>k<HMAX. \<forall>c\<in>set (entry s k). printable c) \<and>
     (\<forall>c\<in>set (parked_line s). printable c)"

definition edit_ok :: "con \<Rightarrow> bool" where
  "edit_ok s \<longleftrightarrow> rd_pos s \<le> rd_n s \<and> rd_n s < unat (rd_max s) \<and> (\<forall>c\<in>set (line_of s). printable c)"

definition con_ok :: "con \<Rightarrow> bool" where
  "con_ok s \<longleftrightarrow> ring_ok s \<and> hist_ok s \<and> (rd_active s \<longrightarrow> edit_ok s)"

text \<open>Nothing outside the arrays is written: the client's buffer, the ring, the history.\<close>

definition inside :: "con \<Rightarrow> con \<Rightarrow> bool" where
  "inside s s' \<longleftrightarrow> rd_max s' = rd_max s \<and> (\<forall>i\<ge>unat (rd_max s). rd_buf s' i = rd_buf s i) \<and>
     (\<forall>i\<ge>RING. ring s' i = ring s i) \<and> (\<forall>k i. HMAX \<le> k \<or> HLEN \<le> i \<longrightarrow> hist s' k i = hist s k i) \<and>
     (\<forall>k\<ge>HMAX. hist_len s' k = hist_len s k) \<and> (\<forall>i\<ge>HLEN. h_saved s' i = h_saved s i)"

lemma inside_refl [simp]: "inside s s"
  by (simp add: inside_def)

lemma inside_trans: "inside s t \<Longrightarrow> inside t u \<Longrightarrow> inside s u"
  by (simp add: inside_def)

section \<open>The abstract editor\<close>

text \<open>
  A line with a cursor, the history with the newest entry first, how far back the user has gone,
  and the line parked when he left it.
\<close>

record aed =
  a_line :: "u8 list"
  a_pos :: nat
  a_hist :: "u8 list list"
  a_nav :: nat
  a_parked :: "u8 list"
  a_open :: bool

datatype command = Insert u8 | Del_left | Del_at | Left | Right | Home | End | Kill | Older | Newer
  | Enter | Cancel | Skip

definition load_line :: "nat \<Rightarrow> u8 list \<Rightarrow> aed \<Rightarrow> aed" where
  "load_line m l a = a\<lparr>a_line := take (m - 1) l, a_pos := length (take (m - 1) l)\<rparr>"

definition remember :: "u8 list \<Rightarrow> u8 list list \<Rightarrow> u8 list list" where
  "remember l h = (if l = [] \<or> h \<noteq> [] \<and> hd h = l then h else take HMAX (take (HLEN - 1) l # h))"

definition recall :: "nat \<Rightarrow> nat \<Rightarrow> aed \<Rightarrow> aed" where
  "recall m k a =
     (if k = 0 then load_line m (a_parked a) (a\<lparr>a_nav := 0\<rparr>) else load_line m (a_hist a ! (k - 1)) (a\<lparr>a_nav := k\<rparr>))"

fun perform :: "nat \<Rightarrow> command \<Rightarrow> aed \<Rightarrow> aed" where
  "perform m (Insert c) a =
     (if m \<le> length (a_line a) + 1 then a
      else a\<lparr>a_line := take (a_pos a) (a_line a) @ c # drop (a_pos a) (a_line a), a_pos := a_pos a + 1\<rparr>)"
| "perform m Del_left a =
     (if a_pos a = 0 then a
      else a\<lparr>a_line := take (a_pos a - 1) (a_line a) @ drop (a_pos a) (a_line a), a_pos := a_pos a - 1\<rparr>)"
| "perform m Del_at a = a\<lparr>a_line := take (a_pos a) (a_line a) @ drop (a_pos a + 1) (a_line a)\<rparr>"
| "perform m Left a = a\<lparr>a_pos := a_pos a - 1\<rparr>"
| "perform m Right a = a\<lparr>a_pos := min (a_pos a + 1) (length (a_line a))\<rparr>"
| "perform m Home a = a\<lparr>a_pos := 0\<rparr>"
| "perform m End a = a\<lparr>a_pos := length (a_line a)\<rparr>"
| "perform m Kill a = a\<lparr>a_line := [], a_pos := 0\<rparr>"
| "perform m Older a =
     (if a_nav a = length (a_hist a) then a
      else recall m (a_nav a + 1)
        (if a_nav a = 0 then a\<lparr>a_parked := take (HLEN - 1) (a_line a)\<rparr> else a))"
| "perform m Newer a = (if a_nav a = 0 then a else recall m (a_nav a - 1) a)"
| "perform m Enter a = a\<lparr>a_hist := remember (a_line a) (a_hist a), a_open := False\<rparr>"
| "perform m Cancel a = a\<lparr>a_line := [], a_pos := 0, a_open := False\<rparr>"
| "perform m Skip a = a"

definition past :: "con \<Rightarrow> u8 list list" where
  "past s = map (\<lambda>k. entry s ((h_next s + HMAX - Suc k) mod HMAX)) [0..<h_count s]"

definition abs_con :: "con \<Rightarrow> aed" where
  "abs_con s = \<lparr>a_line = line_of s, a_pos = rd_pos s, a_hist = past s, a_nav = h_nav s,
     a_parked = parked_line s, a_open = rd_active s\<rparr>"

text \<open>The meaning of a byte in the state of the escape-sequence parser.\<close>

definition csi_command :: "u32 \<Rightarrow> u8 \<Rightarrow> command" where
  "csi_command n c =
     (if c = 0x41 then Older else if c = 0x42 then Newer else if c = 0x43 then Right
      else if c = 0x44 then Left else if c = 0x48 then Home else if c = 0x46 then End
      else if c = 0x7E then
        (if n = 3 then Del_at else if n = 1 \<or> n = 7 then Home else if n = 4 \<or> n = 8 then End else Skip)
      else Skip)"

definition plain_command :: "u8 \<Rightarrow> command" where
  "plain_command c =
     (if c = 0x0D \<or> c = 0x0A then Enter else if c = 0x7F \<or> c = 0x08 then Del_left
      else if c = 0x01 then Home else if c = 0x05 then End else if c = 0x02 then Left
      else if c = 0x06 then Right else if c = 0x15 then Kill else if c = 0x03 then Cancel
      else if printable c then Insert c else Skip)"

definition command_of :: "con \<Rightarrow> u8 \<Rightarrow> command" where
  "command_of s c =
     (if esc s = 1 then Skip
      else if esc s = 2 then (if 0x30 \<le> c \<and> c \<le> 0x39 then Skip else csi_command (csi_num s) c)
      else plain_command c)"

text \<open>The operation of the driver for each command.\<close>

fun do_command :: "command \<Rightarrow> con \<Rightarrow> con" where
  "do_command (Insert c) s = ins_char c s"
| "do_command Del_left s = del_left s"
| "do_command Del_at s = del_at s"
| "do_command Left s = go_left s"
| "do_command Right s = go_right s"
| "do_command Home s = go_home s"
| "do_command End s = go_end s"
| "do_command Kill s = kill_line s"
| "do_command Older s = hist_nav (- 1) s"
| "do_command Newer s = hist_nav 1 s"
| "do_command Enter s = finish_line s"
| "do_command Cancel s = finish_line ((uart_puts [0x5E, 0x43, 0x0A] s)\<lparr>rd_n := 0, rd_pos := 0\<rparr>)"
| "do_command Skip s = s"

text \<open>A key is its command and a change of the parser's state.\<close>

lemma csi_key_command: "csi_key c s = do_command (csi_command (csi_num s) c) s"
  by (simp add: csi_key_def csi_command_def)

lemma normal_key_command:
  "c \<noteq> 0x1B \<Longrightarrow> normal_key c s = do_command (plain_command c) s"
  by (simp add: normal_key_def plain_command_def)

lemma esc_no_command: "plain_command 0x1B = Skip"
  by (simp add: plain_command_def)

lemma key_command: "\<exists>e n. key c s = (do_command (command_of s c) s)\<lparr>esc := e, csi_num := n\<rparr>"
proof -
  have same: "t = t\<lparr>esc := esc t, csi_num := csi_num t\<rparr>" for t :: con by simp
  consider "esc s = 1" | "esc s = 2" "0x30 \<le> c" "c \<le> 0x39" | "esc s = 2" "\<not> (0x30 \<le> c \<and> c \<le> 0x39)"
    | "esc s \<noteq> 1" "esc s \<noteq> 2" "c = 0x1B" | "esc s \<noteq> 1" "esc s \<noteq> 2" "c \<noteq> 0x1B" by blast
  then show ?thesis
  proof cases
    case 1
    then show ?thesis by (auto simp: key_def command_of_def)
  next
    case 2
    then have "key c s = s\<lparr>esc := esc s, csi_num := csi_num s * 10 + ucast (c - 0x30)\<rparr>"
      by (simp add: key_def)
    with 2 show ?thesis by (auto simp: command_of_def)
  next
    case 3
    let ?t = "csi_key c s"
    have "key c s = ?t\<lparr>esc := 0, csi_num := csi_num ?t\<rparr>"
      unfolding key_def using 3 by auto
    moreover have "command_of s c = csi_command (csi_num s) c"
      unfolding command_of_def using 3 by auto
    ultimately show ?thesis by (metis csi_key_command)
  next
    case 4
    then have "key c s = s\<lparr>esc := 1, csi_num := csi_num s\<rparr>" by (simp add: key_def normal_key_def)
    moreover have "command_of s c = Skip" using 4 by (simp add: command_of_def esc_no_command)
    ultimately show ?thesis by (metis do_command.simps(13))
  next
    case 5
    then have "key c s = do_command (command_of s c) s"
      by (simp add: key_def command_of_def normal_key_command)
    then show ?thesis using same [of "do_command (command_of s c) s"] by metis
  qed
qed

section \<open>Each command\<close>

lemma length_line_of [simp]: "length (line_of s) = rd_n s"
  by (simp add: line_of_def)

lemma ins_char_eq:
  assumes "edit_ok s" "rd_n s + 1 < unat (rd_max s)"
  shows "ins_char c s = s\<lparr>rd_buf := (shift_up (rd_pos s) (rd_n s) (rd_buf s))(rd_pos s := c), rd_n := rd_n s + 1,
      rd_pos := rd_pos s + 1, tx := tx s @ c # drop (rd_pos s) (line_of s) @ replicate (rd_n s - rd_pos s) 0x08\<rparr>"
proof -
  let ?b = "(shift_up (rd_pos s) (rd_n s) (rd_buf s))(rd_pos s := c)"
  have "map ?b [rd_pos s..<Suc (rd_n s)] = c # drop (rd_pos s) (line_of s)"
    using assms(1) by (intro nth_equalityI) (auto simp: edit_ok_def shift_up_eq line_of_def nth_Cons' simp del: upt_Suc)
  with assms show ?thesis
    by (simp add: ins_char_def loop_simps Let_def del: upt_Suc)
qed

lemma line_of_ins:
  assumes "edit_ok s"
  shows "line_of (s\<lparr>rd_buf := (shift_up (rd_pos s) (rd_n s) (rd_buf s))(rd_pos s := c), rd_n := rd_n s + 1\<rparr>) =
    take (rd_pos s) (line_of s) @ c # drop (rd_pos s) (line_of s)"
  using assms by (intro nth_equalityI)
    (auto simp: line_of_def edit_ok_def shift_up_eq nth_append nth_Cons' min_def simp del: upt_Suc)

lemma line_of_del:
  assumes "p < rd_n s"
  shows "line_of (s\<lparr>rd_buf := shift_down p (rd_n s - 1) (rd_buf s), rd_n := rd_n s - 1\<rparr>) =
    take p (line_of s) @ drop (Suc p) (line_of s)"
  using assms by (intro nth_equalityI) (auto simp: line_of_def shift_down_eq nth_append)

definition sound :: "command \<Rightarrow> con \<Rightarrow> con \<Rightarrow> bool" where
  "sound k s s' \<longleftrightarrow> abs_con s' = perform (unat (rd_max s)) k (abs_con s) \<and> con_ok s' \<and> inside s s'"

lemma edit_okI:
  "con_ok s \<Longrightarrow> rd_active s \<Longrightarrow> edit_ok s"
  by (simp add: con_ok_def)

text \<open>Commands that change only the line and the cursor.\<close>

lemma sound_edit:
  assumes "con_ok s" "rd_active s" "s' = s\<lparr>rd_buf := b, rd_n := n, rd_pos := p, tx := t\<rparr>"
    and "p \<le> n" "n < unat (rd_max s)" "\<forall>i\<ge>unat (rd_max s). b i = rd_buf s i"
    and "l = map b [0..<n]" "\<forall>c\<in>set l. printable c"
    and "perform (unat (rd_max s)) k (abs_con s) = (abs_con s)\<lparr>a_line := l, a_pos := p\<rparr>"
  shows "sound k s s'"
  using assms
  by (simp add: sound_def abs_con_def con_ok_def ring_ok_def hist_ok_def edit_ok_def inside_def line_of_def
      past_def entry_def parked_line_def)

lemma sound_move:
  assumes "con_ok s" "rd_active s" "s' = s\<lparr>rd_pos := p, tx := t\<rparr>" "p \<le> rd_n s"
    and "perform (unat (rd_max s)) k (abs_con s) = (abs_con s)\<lparr>a_pos := p\<rparr>"
  shows "sound k s s'"
proof (rule sound_edit [OF assms(1,2) _ assms(4)])
  show "s' = s\<lparr>rd_buf := rd_buf s, rd_n := rd_n s, rd_pos := p, tx := t\<rparr>" using assms(3) by simp
qed (use edit_okI [OF assms(1,2)] assms(5) in \<open>auto simp: edit_ok_def abs_con_def line_of_def\<close>)

lemma sound_moves:
  assumes "con_ok s" "rd_active s" "k \<in> {Left, Right, Home, End}"
  shows "sound k s (do_command k s)"
proof -
  have e: "rd_pos s \<le> rd_n s" using edit_okI [OF assms(1,2)] by (simp add: edit_ok_def)
  have same: "u = u\<lparr>rd_pos := rd_pos u, tx := tx u\<rparr>" for u :: con by simp
  note move = sound_move [OF assms(1,2)]
  show ?thesis
  proof (cases "k = Left \<and> rd_pos s = 0 \<or> k \<in> {Right, End} \<and> rd_pos s = rd_n s")
    case True
    with e assms(3) have "do_command k s = s" by (auto simp: go_left_def go_right_def go_end_def)
    then show ?thesis
      using True assms(3) by (auto intro!: move [OF same, of k] simp: e abs_con_def)
  next
    case False
    with assms(3) e consider
      "k = Left" "do_command k s = s\<lparr>rd_pos := rd_pos s - 1, tx := tx s @ [0x08]\<rparr>"
      | "k = Right" "rd_pos s < rd_n s" "do_command k s = s\<lparr>rd_pos := rd_pos s + 1, tx := tx s @ [rd_buf s (rd_pos s)]\<rparr>"
      | "k = Home" "do_command k s = s\<lparr>rd_pos := 0, tx := tx s @ replicate (rd_pos s) 0x08\<rparr>"
      | "k = End" "do_command k s = s\<lparr>rd_pos := rd_n s, tx := tx s @ map (rd_buf s) [rd_pos s..<rd_n s]\<rparr>"
      by (auto simp: go_left_def go_right_def go_home_def go_end_def loop_simps uart_putc_def)
    then show ?thesis
      using e by cases (auto intro!: move simp: abs_con_def)
  qed
qed

lemma sound_insert:
  assumes "con_ok s" "rd_active s" "printable c"
  shows "sound (Insert c) s (ins_char c s)"
proof (cases "rd_n s + 1 < unat (rd_max s)")
  case True
  note e = edit_okI [OF assms(1,2)]
  let ?l = "take (rd_pos s) (line_of s) @ c # drop (rd_pos s) (line_of s)"
  show ?thesis
  proof (rule sound_edit [OF assms(1,2) ins_char_eq [OF e True, unfolded list.simps]])
    show "?l = map ((shift_up (rd_pos s) (rd_n s) (rd_buf s))(rd_pos s := c)) [0..<rd_n s + 1]"
      using line_of_ins [OF e, of c] by (simp add: line_of_def)
    show "\<forall>c\<in>set ?l. printable c"
      using e assms(3) by (auto simp: edit_ok_def dest: in_set_takeD in_set_dropD)
  qed (use e True in \<open>auto simp: edit_ok_def shift_up_eq abs_con_def\<close>)
next
  case False
  then have "ins_char c s = s" by (simp add: ins_char_def)
  with False assms show ?thesis by (simp add: sound_def abs_con_def)
qed

lemma cut_line:
  assumes "p < rd_n s"
  shows "map (shift_down p (rd_n s - 1) (rd_buf s)) [a..<rd_n s - 1] = drop a (take p (line_of s) @ drop (Suc p) (line_of s))"
  unfolding line_of_del [OF assms, symmetric] by (simp add: line_of_def drop_map)

lemma del_left_eq:
  assumes "edit_ok s" "rd_pos s \<noteq> 0"
  defines "p \<equiv> rd_pos s - 1" and "n \<equiv> rd_n s - 1"
  shows "del_left s = s\<lparr>rd_buf := shift_down p n (rd_buf s), rd_n := n, rd_pos := p,
      tx := tx s @ 0x08 # drop (Suc p) (line_of s) @ replicate (n - p) 0x08 @ 0x20 # replicate (n - p + 1) 0x08\<rparr>"
proof -
  have "p < rd_n s" using assms by (auto simp: edit_ok_def)
  then have "map (shift_down p n (rd_buf s)) [p..<n] = drop (Suc p) (line_of s)"
    unfolding n_def by (subst cut_line) (auto simp: min_def)
  with assms(2) show ?thesis
    by (simp add: del_left_def redraw_from_def loop_simps uart_putc_def Let_def p_def n_def)
qed

lemma del_at_eq:
  assumes "rd_pos s < rd_n s"
  defines "p \<equiv> rd_pos s" and "n \<equiv> rd_n s - 1"
  shows "del_at s = s\<lparr>rd_buf := shift_down p n (rd_buf s), rd_n := n, rd_pos := p,
      tx := tx s @ drop (Suc p) (line_of s) @ replicate (n - p) 0x08 @ 0x20 # replicate (n - p + 1) 0x08\<rparr>"
proof -
  have "map (shift_down p n (rd_buf s)) [p..<n] = drop (Suc p) (line_of s)"
    unfolding n_def using assms by (subst cut_line) (auto simp: min_def)
  with assms(1) show ?thesis
    by (simp add: del_at_def redraw_from_def loop_simps uart_putc_def Let_def p_def n_def)
qed

lemma sound_cut:
  assumes "con_ok s" "rd_active s" "p < rd_n s" "s' = s\<lparr>rd_buf := shift_down p (rd_n s - 1) (rd_buf s), rd_n := rd_n s - 1, rd_pos := p, tx := t\<rparr>"
    and "perform (unat (rd_max s)) k (abs_con s) = (abs_con s)\<lparr>a_line := take p (line_of s) @ drop (Suc p) (line_of s), a_pos := p\<rparr>"
  shows "sound k s s'"
proof (rule sound_edit [OF assms(1,2,4)])
  show "take p (line_of s) @ drop (Suc p) (line_of s) = map (shift_down p (rd_n s - 1) (rd_buf s)) [0..<rd_n s - 1]"
    using cut_line [OF assms(3), of 0] by simp
qed (use edit_okI [OF assms(1,2)] assms(3,5) in
    \<open>auto simp: edit_ok_def shift_down_eq dest: in_set_takeD in_set_dropD\<close>)

lemma sound_del:
  assumes "con_ok s" "rd_active s" "k \<in> {Del_left, Del_at}"
  shows "sound k s (do_command k s)"
proof -
  note e = edit_okI [OF assms(1,2)]
  have le: "rd_pos s \<le> rd_n s" using e by (simp add: edit_ok_def)
  consider "do_command k s = s" "k = Del_left" "rd_pos s = 0" | "do_command k s = s" "k = Del_at" "rd_pos s = rd_n s"
    | "k = Del_left" "rd_pos s \<noteq> 0" | "k = Del_at" "rd_pos s < rd_n s"
    using assms(3) le by (cases "rd_pos s = rd_n s") (auto simp: del_left_def del_at_def)
  then show ?thesis
  proof cases
    case 3
    with le show ?thesis
      by (auto intro!: sound_cut [OF assms(1,2) _ del_left_eq [OF e]] simp: abs_con_def)
  next
    case 4
    then show ?thesis
      by (auto intro!: sound_cut [OF assms(1,2) _ del_at_eq] simp: abs_con_def)
  qed (use assms(1) in \<open>auto simp: sound_def abs_con_def\<close>)
qed

lemma go_end_eq:
  "edit_ok s \<Longrightarrow> go_end s = s\<lparr>rd_pos := rd_n s, tx := tx s @ drop (rd_pos s) (line_of s)\<rparr>"
  by (auto simp: go_end_def loop_simps edit_ok_def line_of_def drop_map)

abbreviation rubs :: "nat \<Rightarrow> u8 list" where
  "rubs n \<equiv> concat (replicate n [0x08, 0x20, 0x08])"

lemma kill_line_eq:
  "edit_ok s \<Longrightarrow> kill_line s =
     s\<lparr>rd_n := 0, rd_pos := 0, tx := tx s @ drop (rd_pos s) (line_of s) @ rubs (rd_n s)\<rparr>"
  by (simp add: kill_line_def go_end_eq loop_simps)

lemma sound_kill: "con_ok s \<Longrightarrow> rd_active s \<Longrightarrow> sound Kill s (kill_line s)"
proof -
  assume a: "con_ok s" "rd_active s"
  note e = edit_okI [OF a]
  have "kill_line s = s\<lparr>rd_buf := rd_buf s, rd_n := 0, rd_pos := 0, tx := tx s @ drop (rd_pos s) (line_of s) @ rubs (rd_n s)\<rparr>"
    by (simp add: kill_line_eq [OF e])
  then show ?thesis
    by (rule sound_edit [OF a]) (use e in \<open>auto simp: edit_ok_def\<close>)
qed

lemma set_line_eq:
  fixes n :: nat
  assumes "edit_ok s"
  defines "k \<equiv> min n (unat (rd_max s) - 1)"
  shows "set_line t n s = s\<lparr>rd_buf := (\<lambda>i. if i < k then t i else rd_buf s i), rd_n := k, rd_pos := k,
      tx := tx s @ drop (rd_pos s) (line_of s) @ rubs (rd_n s) @ map t [0..<k]\<rparr>"
proof -
  have m: "rd_max s \<noteq> 0" using assms(1) by (auto simp: edit_ok_def)
  have "unat (rd_max s - 1) = unat (rd_max s) - 1"
    using m by (simp add: unat_minus_one)
  then have k: "(if unat (rd_max s) \<le> n then unat (rd_max s - 1) else n) = k"
    using assms(1) by (auto simp: k_def edit_ok_def)
  define u where "u = rub_out (go_end s)"
  have u: "u = s\<lparr>rd_n := 0, rd_pos := rd_n s, tx := tx s @ drop (rd_pos s) (line_of s) @ rubs (rd_n s)\<rparr>"
    by (simp add: u_def go_end_eq [OF assms(1)] loop_simps)
  have "rd_max u = rd_max s" by (simp add: u)
  then show ?thesis
    unfolding set_line_def Let_def u_def [symmetric] using k
    by (simp only:) (simp add: u loop_simps cong: map_cong)
qed

lemma sound_load:
  assumes "con_ok s" "rd_active s" "\<forall>c\<in>set (map t [0..<n]). printable c"
  shows "con_ok (set_line t n s)" "inside s (set_line t n s)"
    "abs_con (set_line t n s) = load_line (unat (rd_max s)) (map t [0..<n]) (abs_con s)"
proof -
  note e = edit_okI [OF assms(1,2)]
  define k where "k = min n (unat (rd_max s) - 1)"
  have l: "take (unat (rd_max s) - 1) (map t [0..<n]) = map t [0..<k]"
    by (simp add: k_def take_map take_upt min_def)
  have k: "k < unat (rd_max s)" "k \<le> n" using e by (auto simp: k_def edit_ok_def)
  have p: "\<forall>c\<in>set (map t [0..<k]). printable c" using assms(3) k(2) by auto
  have eq: "map (\<lambda>i. if i < k then t i else rd_buf s i) [0..<k] = map t [0..<k]" by simp
  note set = set_line_eq [OF e, of t n, folded k_def]
  show "con_ok (set_line t n s)" "inside s (set_line t n s)"
    "abs_con (set_line t n s) = load_line (unat (rd_max s)) (map t [0..<n]) (abs_con s)"
    using assms(1) k p unfolding set load_line_def l
    by (auto simp: con_ok_def ring_ok_def hist_ok_def edit_ok_def inside_def abs_con_def line_of_def eq
        past_def entry_def parked_line_def)
qed

subsection \<open>History\<close>

lemma abs_con_simps [simp]:
  "a_line (abs_con s) = line_of s" "a_pos (abs_con s) = rd_pos s" "a_hist (abs_con s) = past s"
  "a_nav (abs_con s) = h_nav s" "a_parked (abs_con s) = parked_line s" "a_open (abs_con s) = rd_active s"
  by (simp_all add: abs_con_def)

lemma length_past [simp]: "length (past s) = h_count s"
  by (simp add: past_def)

lemma past_nth: "k < h_count s \<Longrightarrow> past s ! k = entry s ((h_next s + HMAX - Suc k) mod HMAX)"
  by (simp add: past_def)

definition park :: "con \<Rightarrow> con" where
  "park s = (let k = (if rd_n s < HLEN then rd_n s else HLEN - 1)
     in s\<lparr>h_saved_n := k, h_saved := (\<lambda>i. if i < k then rd_buf s i else h_saved s i)\<rparr>)"

lemma hist_nav_eq:
  "hist_nav (- 1) s =
    (if h_count s \<le> h_nav s then s
     else let u = (if h_nav s = 0 then park s else s)\<lparr>h_nav := Suc (h_nav s)\<rparr>;
              k = (h_next s + HMAX - Suc (h_nav s)) mod HMAX
          in set_line (hist u k) (hist_len u k) u)"
  "hist_nav 1 s =
    (if h_nav s = 0 \<or> Suc (h_count s) < h_nav s then s
     else let u = s\<lparr>h_nav := h_nav s - 1\<rparr>; k = (h_next s + HMAX - (h_nav s - 1)) mod HMAX
          in if h_nav s = 1 then set_line (h_saved u) (h_saved_n u) u else set_line (hist u k) (hist_len u k) u)"
  by (auto simp: hist_nav_def park_def loop_simps Let_def nat_add_distrib nat_diff_distrib)

lemma park_line: "parked_line (park s) = take (HLEN - 1) (line_of s)"
  by (auto simp: parked_line_def park_def line_of_def Let_def take_map take_upt min_def)

lemma park_frame [simp]:
  "rd_active (park s) = rd_active s" "rd_max (park s) = rd_max s" "line_of (park s) = line_of s"
  "rd_pos (park s) = rd_pos s" "rd_n (park s) = rd_n s" "h_nav (park s) = h_nav s" "h_count (park s) = h_count s"
  "hist (park s) = hist s" "hist_len (park s) = hist_len s" "h_next (park s) = h_next s" "past (park s) = past s"
  "entry (park s) = entry s" "ring_ok (park s) = ring_ok s" "h_saved_n (park s) < HLEN"
  by (simp_all add: park_def Let_def line_of_def past_def entry_def ring_ok_def fun_eq_iff)

lemma park_ok: "con_ok s \<Longrightarrow> rd_active s \<Longrightarrow> con_ok (park s)"
  by (auto simp: con_ok_def hist_ok_def edit_ok_def park_line dest: in_set_takeD)

lemma park_inside: "inside s (park s)"
  by (simp add: inside_def park_def Let_def)

lemma park_abs: "abs_con (park s) = (abs_con s)\<lparr>a_parked := take (HLEN - 1) (line_of s)\<rparr>"
  by (simp add: abs_con_def park_line)

lemma nav_update:
  "con_ok s \<Longrightarrow> k \<le> h_count s \<Longrightarrow> con_ok (s\<lparr>h_nav := k\<rparr>)"
  "inside s (s\<lparr>h_nav := k\<rparr>)"
  "abs_con (s\<lparr>h_nav := k\<rparr>) = (abs_con s)\<lparr>a_nav := k\<rparr>"
  by (auto simp: con_ok_def ring_ok_def hist_ok_def edit_ok_def line_of_def inside_def abs_con_def past_def
      entry_def parked_line_def)

text \<open>Loading an entry of the history or the parked line is the abstract recall.\<close>

lemma recall_entry:
  assumes "con_ok s" "rd_active s" "0 < k" "k \<le> h_count s"
  defines "u \<equiv> s\<lparr>h_nav := k\<rparr>" and "i \<equiv> (h_next s + HMAX - k) mod HMAX"
  defines "v \<equiv> set_line (hist u i) (hist_len u i) u"
  shows "con_ok v" "inside s v" "abs_con v = recall (unat (rd_max s)) k (abs_con s)"
proof -
  have u: "con_ok u" "rd_active u" "rd_max u = rd_max s"
    using nav_update(1) [OF assms(1,4)] assms(2) by (simp_all add: u_def)
  have i: "i < HMAX" by (simp add: i_def)
  have e: "map (hist u i) [0..<hist_len u i] = entry s i" by (simp add: u_def entry_def)
  have p: "\<forall>c\<in>set (map (hist u i) [0..<hist_len u i]). printable c"
    using assms(1) i unfolding e by (simp add: con_ok_def hist_ok_def)
  have "past s ! (k - 1) = entry s i"
    using assms(3,4) by (simp add: past_nth i_def)
  moreover have "a_hist (abs_con s) = past s" by (simp add: abs_con_def)
  ultimately show "abs_con v = recall (unat (rd_max s)) k (abs_con s)"
    using assms(3) unfolding v_def sound_load(3) [OF u(1,2) p] e u(3)
    by (simp add: recall_def u_def nav_update)
  show "con_ok v" using sound_load(1) [OF u(1,2) p] by (simp add: v_def)
  show "inside s v"
    using inside_trans [OF nav_update(2) [of s k, folded u_def] sound_load(2) [OF u(1,2) p]] by (simp add: v_def)
qed

lemma recall_parked:
  assumes "con_ok s" "rd_active s"
  defines "u \<equiv> s\<lparr>h_nav := 0\<rparr>"
  defines "v \<equiv> set_line (h_saved u) (h_saved_n u) u"
  shows "con_ok v" "inside s v" "abs_con v = recall (unat (rd_max s)) 0 (abs_con s)"
proof -
  have u: "con_ok u" "rd_active u" "rd_max u = rd_max s"
    using nav_update(1) [OF assms(1), of 0] assms(2) by (simp_all add: u_def)
  have e: "map (h_saved u) [0..<h_saved_n u] = parked_line s" by (simp add: u_def parked_line_def)
  have p: "\<forall>c\<in>set (map (h_saved u) [0..<h_saved_n u]). printable c"
    using assms(1) unfolding e by (simp add: con_ok_def hist_ok_def)
  have "a_parked (abs_con s) = parked_line s" by (simp add: abs_con_def)
  then show "abs_con v = recall (unat (rd_max s)) 0 (abs_con s)"
    unfolding v_def sound_load(3) [OF u(1,2) p] e u(3) by (simp add: recall_def u_def nav_update)
  show "con_ok v" using sound_load(1) [OF u(1,2) p] by (simp add: v_def)
  show "inside s v"
    using inside_trans [OF nav_update(2) [of s 0, folded u_def] sound_load(2) [OF u(1,2) p]] by (simp add: v_def)
qed

lemma sound_older:
  assumes "con_ok s" "rd_active s"
  shows "sound Older s (hist_nav (- 1) s)"
proof (cases "h_count s \<le> h_nav s")
  case True
  with assms show ?thesis by (simp add: hist_nav_eq sound_def abs_con_def con_ok_def hist_ok_def)
next
  case False
  define t where "t = (if h_nav s = 0 then park s else s)"
  have t: "con_ok t" "rd_active t" "inside s t" "rd_max t = rd_max s" "h_nav t = h_nav s" "h_count t = h_count s" "h_next t = h_next s"
    using assms park_ok park_inside by (auto simp: t_def)
  have a: "abs_con t = (if h_nav s = 0 then (abs_con s)\<lparr>a_parked := take (HLEN - 1) (line_of s)\<rparr> else abs_con s)"
    by (simp add: t_def park_abs)
  have "Suc (h_nav s) \<le> h_count t" using False t by simp
  note r = recall_entry [OF t(1,2) zero_less_Suc this]
  have "hist_nav (- 1) s = (let u = t\<lparr>h_nav := Suc (h_nav s)\<rparr>; k = (h_next t + HMAX - Suc (h_nav s)) mod HMAX
          in set_line (hist u k) (hist_len u k) u)"
    using False t by (simp add: hist_nav_eq t_def [symmetric])
  moreover have "perform (unat (rd_max s)) Older (abs_con s) = recall (unat (rd_max s)) (Suc (h_nav s)) (abs_con t)"
    using False by (simp add: a)
  ultimately show ?thesis
    using r inside_trans [OF t(3) r(2)] t(4) by (simp add: sound_def Let_def)
qed

lemma sound_newer:
  assumes "con_ok s" "rd_active s"
  shows "sound Newer s (hist_nav 1 s)"
proof -
  have n: "h_nav s \<le> h_count s" using assms(1) by (simp add: con_ok_def hist_ok_def)
  consider "h_nav s = 0" | "h_nav s = 1" | "1 < h_nav s" by linarith
  then show ?thesis
  proof cases
    case 1
    with assms show ?thesis by (simp add: hist_nav_eq sound_def abs_con_def)
  next
    case 2
    with n recall_parked [OF assms] show ?thesis
      by (simp add: hist_nav_eq sound_def abs_con_def Let_def)
  next
    case 3
    then have "0 < h_nav s - 1" "h_nav s - 1 \<le> h_count s" using n by simp_all
    with recall_entry [OF assms this] 3 n show ?thesis
      by (simp add: hist_nav_eq sound_def abs_con_def Let_def)
  qed
qed

lemma mod_back:
  "p < HMAX \<Longrightarrow> j < HMAX \<Longrightarrow> (p + HMAX - j) mod HMAX = (if j \<le> p then p - j else p + HMAX - j)"
  using ring_count_cases [of p HMAX j] by (simp add: ring_count_def)

lemma ring_index:
  assumes "p < HMAX"
  shows "0 < j \<Longrightarrow> j < HMAX \<Longrightarrow> ((p + 1) mod HMAX + HMAX - Suc j) mod HMAX = (p + HMAX - j) mod HMAX"
    and "0 < j \<Longrightarrow> j < HMAX \<Longrightarrow> (p + HMAX - j) mod HMAX \<noteq> p"
    and "((p + 1) mod HMAX + HMAX - 1) mod HMAX = p"
proof -
  show "((p + 1) mod HMAX + HMAX - Suc j) mod HMAX = (p + HMAX - j) mod HMAX" if "0 < j" "j < HMAX"
  proof (cases "p + 1 = HMAX")
    case True
    then have "p = 15" by simp
    with that show ?thesis unfolding mod_back [OF assms that(2)] by simp
  next
    case False
    with assms have "(p + 1) mod HMAX = p + 1" by simp
    moreover have "p + 1 + HMAX - Suc j = p + HMAX - j" by simp
    ultimately show ?thesis by (simp only:)
  qed
  show "(p + HMAX - j) mod HMAX \<noteq> p" if "0 < j" "j < HMAX"
    unfolding mod_back [OF assms that(2)] using that assms by auto
  show "((p + 1) mod HMAX + HMAX - 1) mod HMAX = p"
  proof (cases "p + 1 = HMAX")
    case False
    with assms have "(p + 1) mod HMAX = p + 1" by simp
    with assms show ?thesis by simp
  qed simp
qed

lemma past_newest: "h_count s \<noteq> 0 \<Longrightarrow> past s \<noteq> [] \<and> hd (past s) = entry s ((h_next s + HMAX - 1) mod HMAX)"
  by (simp add: past_def upt_conv_Cons del: upt_Suc)

lemma same_entry:
  "hist_len s k = n \<and> (\<forall>i\<in>set [0..<n]. hist s k i = t i) \<longleftrightarrow> entry s k = map t [0..<n]"
  by (auto simp: entry_def list_eq_iff_nth_eq)

lemma hist_push_past:
  assumes "hist_ok s"
  shows "past (hist_push t n s) = remember (map t [0..<n]) (past s)"
proof -
  let ?l = "map t [0..<n]" and ?new = "(h_next s + HMAX - 1) mod HMAX"
  have p: "h_next s < HMAX" "h_count s \<le> HMAX" using assms by (simp_all add: hist_ok_def)
  have dup: "h_count s \<noteq> 0 \<and> hist_len s ?new = n \<and> (\<forall>i\<in>set [0..<n]. hist s ?new i = t i) \<longleftrightarrow> past s \<noteq> [] \<and> hd (past s) = ?l"
    unfolding same_entry using past_newest [of s] by (cases "h_count s = 0") (auto simp: past_def)
  show ?thesis
  proof (cases "n = 0 \<or> past s \<noteq> [] \<and> hd (past s) = ?l")
    case True
    then have "hist_push t n s = s" unfolding hist_push_def Let_def dup by auto
    with True show ?thesis by (auto simp: remember_def)
  next
    case False
    then have ne: "n \<noteq> 0" "\<not> (past s \<noteq> [] \<and> hd (past s) = ?l)" by auto
    let ?k = "min n (HLEN - 1)"
    let ?e = "\<lambda>i. if i < ?k then t i else hist s (h_next s) i"
    have k: "(if HLEN \<le> n then HLEN - 1 else n) = ?k" by auto
    define u where "u = s\<lparr>hist := (hist s)(h_next s := ?e), hist_len := (hist_len s)(h_next s := ?k),
        h_next := (h_next s + 1) mod HMAX, h_count := (if h_count s < HMAX then h_count s + 1 else h_count s)\<rparr>"
    have u: "hist_push t n s = u"
      unfolding hist_push_def Let_def dup k u_def if_not_P [OF ne(1)] if_not_P [OF ne(2)] by (simp add: loop_simps)
    have e0: "entry u (h_next s) = take (HLEN - 1) ?l"
      by (auto simp: u_def entry_def take_map take_upt min_def)
    have ek: "entry u i = entry s i" if "i \<noteq> h_next s" for i
      using that by (simp add: u_def entry_def)
    have "past u = take HMAX (take (HLEN - 1) ?l # past s)"
    proof (rule nth_equalityI)
      show "length (past u) = length (take HMAX (take (HLEN - 1) ?l # past s))" using p by (auto simp: u_def)
      fix j assume "j < length (past u)"
      then have j: "j < h_count u" "j < HMAX" using p by (auto simp: u_def split: if_splits)
      have nx: "h_next u = (h_next s + 1) mod HMAX" by (simp add: u_def)
      show "past u ! j = take HMAX (take (HLEN - 1) ?l # past s) ! j"
      proof (cases j)
        case 0
        then show ?thesis using j ring_index(3) [OF p(1)] e0 by (simp add: past_nth nx)
      next
        case (Suc i)
        then have c: "i < h_count s" using j p by (auto simp: u_def split: if_splits)
        have "past u ! j = entry u ((h_next s + HMAX - j) mod HMAX)"
          using ring_index(1) [OF p(1), of j] j Suc by (simp only: past_nth nx zero_less_Suc)
        also have "\<dots> = past s ! i"
          using ring_index(2) [OF p(1), of j] j Suc c by (simp add: ek past_nth)
        finally show ?thesis using Suc j by simp
      qed
    qed
    with False show ?thesis unfolding u by (auto simp: remember_def)
  qed
qed

lemma hist_push_frame:
  assumes "hist_ok s" "\<forall>c\<in>set (map t [0..<n]). printable c"
  shows "hist_ok (hist_push t n s)" "inside s (hist_push t n s)" "parked_line (hist_push t n s) = parked_line s"
    "h_nav (hist_push t n s) = h_nav s" "ring_ok (hist_push t n s) = ring_ok s" "line_of (hist_push t n s) = line_of s"
    "rd_pos (hist_push t n s) = rd_pos s" "rd_n (hist_push t n s) = rd_n s"
  using assms
  by (auto simp: hist_push_def Let_def loop_simps hist_ok_def entry_def inside_def parked_line_def ring_ok_def line_of_def)

lemma finish_line_eq:
  assumes "con_ok s" "\<forall>c\<in>set (line_of s). printable c" "rd_n s < unat (rd_max s)"
  shows "abs_con (finish_line s) = (abs_con s)\<lparr>a_hist := remember (line_of s) (past s), a_open := False\<rparr>"
    "con_ok (finish_line s)" "inside s (finish_line s)" "\<not> rd_active (finish_line s)"
proof -
  let ?u = "s\<lparr>tx := tx s @ [0x0A], rd_buf := (rd_buf s)(rd_n s := 0)\<rparr>"
  have l: "map (rd_buf ?u) [0..<rd_n ?u] = line_of s" by (simp add: line_of_def)
  have h: "hist_ok ?u" using assms(1) by (simp add: con_ok_def hist_ok_def entry_def parked_line_def)
  have past: "past ?u = past s" "inside s ?u" using assms(3) by (simp_all add: past_def entry_def inside_def)
  have f: "finish_line s = (hist_push (rd_buf ?u) (rd_n ?u) ?u)\<lparr>rd_active := False,
           sent := sent (hist_push (rd_buf ?u) (rd_n ?u) ?u) @
             [(rd_from (hist_push (rd_buf ?u) (rd_n ?u) ?u),
               zero_msg\<lparr>m_label := MSG_REPLY, m_data0 := of_nat (rd_n (hist_push (rd_buf ?u) (rd_n ?u) ?u))\<rparr>)]\<rparr>"
    by (simp add: finish_line_def uart_putc_def Let_def)
  have p: "\<forall>c\<in>set (map (rd_buf ?u) [0..<rd_n ?u]). printable c" using assms(2) unfolding l .
  note fr = hist_push_frame [OF h p]
  have more: "abs_con (v\<lparr>rd_active := b, sent := x\<rparr>) = (abs_con v)\<lparr>a_open := b\<rparr>"
    "hist_ok (v\<lparr>rd_active := b, sent := x\<rparr>) = hist_ok v" "ring_ok (v\<lparr>rd_active := b, sent := x\<rparr>) = ring_ok v"
    "inside w (v\<lparr>rd_active := b, sent := x\<rparr>) = inside w v" for v w b x
    by (simp_all add: abs_con_def line_of_def past_def entry_def parked_line_def hist_ok_def ring_ok_def inside_def)
  have lu: "line_of ?u = line_of s" "parked_line ?u = parked_line s" "ring_ok ?u = ring_ok s"
    by (simp_all add: line_of_def parked_line_def ring_ok_def)
  show "abs_con (finish_line s) = (abs_con s)\<lparr>a_hist := remember (line_of s) (past s), a_open := False\<rparr>"
    unfolding f more using fr hist_push_past [OF h, of "rd_buf ?u" "rd_n ?u"] l
    by (simp add: abs_con_def past lu)
  show "con_ok (finish_line s)" "inside s (finish_line s)" "\<not> rd_active (finish_line s)"
    using fr assms(1) inside_trans [OF past(2) fr(2)] unfolding con_ok_def f more by (simp_all add: lu)
qed

lemma sound_enter: "con_ok s \<Longrightarrow> rd_active s \<Longrightarrow> sound Enter s (finish_line s)"
  using finish_line_eq [of s] edit_okI [of s] by (auto simp: sound_def edit_ok_def)

lemma sound_cancel:
  assumes "con_ok s" "rd_active s"
  shows "sound Cancel s (do_command Cancel s)"
proof -
  let ?u = "s\<lparr>tx := tx s @ [0x5E, 0x43, 0x0A], rd_n := 0, rd_pos := 0\<rparr>"
  have m: "0 < unat (rd_max s)" using edit_okI [OF assms] by (auto simp: edit_ok_def)
  have u: "con_ok ?u" "line_of ?u = []" "past ?u = past s" "abs_con ?u = (abs_con s)\<lparr>a_line := [], a_pos := 0\<rparr>" "inside s ?u"
    using assms m by (auto simp: con_ok_def ring_ok_def hist_ok_def edit_ok_def line_of_def entry_def
        parked_line_def past_def abs_con_def inside_def)
  have "do_command Cancel s = finish_line ?u" by (simp add: loop_simps)
  then show ?thesis
    using finish_line_eq [OF u(1)] u m inside_trans [OF u(5)] by (simp add: sound_def remember_def)
qed

section \<open>Keys\<close>

lemma sound_command:
  assumes "con_ok s" "rd_active s" "\<And>c. k = Insert c \<Longrightarrow> printable c"
  shows "sound k s (do_command k s)"
proof (cases k)
  case (Insert c)
  with sound_insert [OF assms(1,2)] assms(3) show ?thesis by simp
next
  case Skip
  with assms(1) show ?thesis by (simp add: sound_def)
next
  case Cancel
  with sound_cancel [OF assms(1,2)] show ?thesis by simp
qed (use sound_del [OF assms(1,2), of k] sound_moves [OF assms(1,2), of k] sound_kill [OF assms(1,2)]
    sound_older [OF assms(1,2)] sound_newer [OF assms(1,2)] sound_enter [OF assms(1,2)] in simp_all)

lemma plain_insert: "plain_command c = Insert d \<Longrightarrow> printable d"
  by (auto simp: plain_command_def split: if_splits)

lemma command_insert: "command_of s c = Insert d \<Longrightarrow> printable d"
  by (auto simp: command_of_def csi_command_def dest: plain_insert split: if_splits)

lemma parser_frame:
  "abs_con (t\<lparr>esc := e, csi_num := n\<rparr>) = abs_con t" "con_ok (t\<lparr>esc := e, csi_num := n\<rparr>) = con_ok t"
  "inside s (t\<lparr>esc := e, csi_num := n\<rparr>) = inside s t"
  by (simp_all add: abs_con_def line_of_def past_def entry_def parked_line_def con_ok_def ring_ok_def hist_ok_def
      edit_ok_def inside_def)

lemma sound_key: "con_ok s \<Longrightarrow> rd_active s \<Longrightarrow> sound (command_of s c) s (key c s)"
proof -
  assume a: "con_ok s" "rd_active s"
  obtain e n where "key c s = (do_command (command_of s c) s)\<lparr>esc := e, csi_num := n\<rparr>"
    using key_command by blast
  with sound_command [OF a command_insert] show ?thesis by (simp add: sound_def parser_frame)
qed

section \<open>What no command touches, and the reply\<close>

lemma hist_push_static:
  "ring (hist_push t n s) = ring s" "r_head (hist_push t n s) = r_head s" "r_tail (hist_push t n s) = r_tail s"
  "esc (hist_push t n s) = esc s" "csi_num (hist_push t n s) = csi_num s" "sent (hist_push t n s) = sent s"
  "rd_from (hist_push t n s) = rd_from s" "rd_n (hist_push t n s) = rd_n s" "rd_buf (hist_push t n s) = rd_buf s"
  by (simp_all add: hist_push_def Let_def)

definition same_ring :: "con \<Rightarrow> con \<Rightarrow> bool" where
  "same_ring s t \<longleftrightarrow> ring t = ring s \<and> r_head t = r_head s \<and> r_tail t = r_tail s \<and> rd_from t = rd_from s"

definition replied :: "con \<Rightarrow> con \<Rightarrow> bool" where
  "replied s t \<longleftrightarrow> (if rd_active t then sent t = sent s
     else sent t = sent s @ [(rd_from s, zero_msg\<lparr>m_label := MSG_REPLY, m_data0 := of_nat (rd_n t)\<rparr>)] \<and>
       rd_buf t (rd_n t) = 0)"

lemmas editor_defs = ins_char_def del_left_def del_at_def go_left_def go_right_def go_home_def go_end_def
  kill_line_def set_line_def hist_nav_def redraw_from_def uart_putc_def loop_simps Let_def

lemma set_line_frame:
  "same_ring s (set_line t n s)" "esc (set_line t n s) = esc s" "csi_num (set_line t n s) = csi_num s"
  "sent (set_line t n s) = sent s" "rd_active (set_line t n s) = rd_active s"
  by (simp_all add: same_ring_def set_line_def go_end_def loop_simps Let_def)

lemma hist_nav_frame:
  "same_ring s (hist_nav d s)" "esc (hist_nav d s) = esc s" "csi_num (hist_nav d s) = csi_num s"
  "sent (hist_nav d s) = sent s" "rd_active (hist_nav d s) = rd_active s"
  using set_line_frame by (simp_all add: hist_nav_def Let_def same_ring_def)

lemma finish_line_frame:
  "same_ring s (finish_line s)" "esc (finish_line s) = esc s" "csi_num (finish_line s) = csi_num s"
  "replied s (finish_line s)"
  by (simp_all add: finish_line_def Let_def same_ring_def replied_def hist_push_static uart_putc_def)

lemma do_command_frame:
  assumes "rd_active s"
  shows "same_ring s (do_command k s) \<and> esc (do_command k s) = esc s \<and> csi_num (do_command k s) = csi_num s \<and>
    replied s (do_command k s)"
proof (cases k)
  case Cancel
  let ?u = "s\<lparr>tx := tx s @ [0x5E, 0x43, 0x0A], rd_n := 0, rd_pos := 0\<rparr>"
  have "same_ring s (finish_line ?u) = same_ring ?u (finish_line ?u)" "replied s (finish_line ?u) = replied ?u (finish_line ?u)"
    by (simp_all add: same_ring_def replied_def)
  with Cancel finish_line_frame [of ?u] show ?thesis by (simp add: uart_puts_eq)
qed (use assms hist_nav_frame finish_line_frame in \<open>simp_all add: replied_def same_ring_def ins_char_def
      del_left_def del_at_def go_left_def go_right_def go_home_def go_end_def kill_line_def redraw_from_def
      uart_putc_def loop_simps Let_def\<close>)

text \<open>The parser of escape sequences.\<close>

definition parse :: "nat \<times> u32 \<Rightarrow> u8 \<Rightarrow> nat \<times> u32" where
  "parse p c = (case p of (e, n) \<Rightarrow>
     if e = 1 then (if c = 0x5B \<or> c = 0x4F then 2 else 0, 0)
     else if e = 2 then (if 0x30 \<le> c \<and> c \<le> 0x39 then (2, n * 10 + ucast (c - 0x30)) else (0, n))
     else (if c = 0x1B then 1 else e, n))"

definition command_at :: "nat \<times> u32 \<Rightarrow> u8 \<Rightarrow> command" where
  "command_at p c = (case p of (e, n) \<Rightarrow>
     if e = 1 then Skip
     else if e = 2 then (if 0x30 \<le> c \<and> c \<le> 0x39 then Skip else csi_command n c)
     else plain_command c)"

abbreviation parser :: "con \<Rightarrow> nat \<times> u32" where
  "parser s \<equiv> (esc s, csi_num s)"

lemma parser_key:
  assumes "rd_active s"
  shows "parser (key c s) = parse (parser s) c" "same_ring s (key c s)" "replied s (key c s)"
proof -
  note f = do_command_frame [OF assms]
  obtain e n where k: "key c s = (do_command (command_of s c) s)\<lparr>esc := e, csi_num := n\<rparr>"
    using key_command by blast
  show "same_ring s (key c s)" "replied s (key c s)"
    using f [of "command_of s c"] unfolding k by (simp_all add: same_ring_def replied_def)
  show "parser (key c s) = parse (parser s) c"
    using f [of "plain_command c"] f [of "csi_command (csi_num s) c"]
    by (auto simp: key_def parse_def csi_key_command normal_key_command) (simp_all add: normal_key_def)
qed

lemma command_of_at: "command_of s c = command_at (parser s) c"
  by (simp add: command_of_def command_at_def)

section \<open>The ring as a queue, and the loop\<close>

definition typed :: "con \<Rightarrow> u8 list" where
  "typed s = ring_items RING (ring s) (r_head s) (r_tail s)"

interpretation rx: bounded_queue typed ring_ok ring_push ring_pop uint 255
proof
  fix s c
  assume ok: "ring_ok s"
  then have i: "r_head s < RING" "r_tail s < RING" by (simp_all add: ring_ok_def)
  show "ring_ok (ring_push c s)" "ring_ok (snd (ring_pop s))"
    using ok by (simp_all add: ring_ok_def ring_push_def ring_pop_def Let_def)
  show "typed (ring_push c s) = (if length (typed s) < 255 then typed s @ [c] else typed s)"
  proof (cases "(r_head s + 1) mod RING = r_tail s")
    case True
    then show ?thesis using ring_full_iff [OF i] by (simp add: ring_push_def typed_def)
  next
    case False
    then have "ring_count RING (r_head s) (r_tail s) < 255"
      using ring_full_iff [OF i] ring_count_bound [OF i] by auto
    with False show ?thesis
      using ring_items_put [OF i False] by (simp add: ring_push_def typed_def Let_def)
  qed
  show "typed s = [] \<Longrightarrow> ring_pop s = (- 1, s)"
    using i ring_count_0 [OF i] by (auto simp: typed_def ring_pop_def ring_items_def)
  show "typed s = c # q \<Longrightarrow> fst (ring_pop s) = uint c \<and> typed (snd (ring_pop s)) = q" for q
  proof -
    assume c: "typed s = c # q"
    then have ne: "r_head s \<noteq> r_tail s" using ring_count_0 [OF i] by (auto simp: typed_def ring_items_def)
    with ring_items_get [OF i ne, of "ring s"] c show ?thesis by (simp add: typed_def ring_pop_def)
  qed
qed

text \<open>The abstract editor reads keys until one finishes the line.\<close>

fun take_keys :: "nat \<Rightarrow> u8 list \<Rightarrow> nat \<times> u32 \<Rightarrow> aed \<Rightarrow> aed \<times> u8 list" where
  "take_keys m [] p a = (a, [])"
| "take_keys m (c # r) p a =
     (let a' = perform m (command_at p c) a in if a_open a' then take_keys m r (parse p c) a' else (a', r))"

lemma same_ring_ok: "same_ring s t \<Longrightarrow> typed t = typed s" "same_ring s t \<Longrightarrow> ring_ok t = ring_ok s"
  by (simp_all add: same_ring_def typed_def ring_ok_def)

lemma pop_frame:
  "abs_con (snd (ring_pop s)) = abs_con s" "inside s (snd (ring_pop s))" "parser (snd (ring_pop s)) = parser s"
  "con_ok s \<Longrightarrow> con_ok (snd (ring_pop s))" "rd_max (snd (ring_pop s)) = rd_max s" "sent (snd (ring_pop s)) = sent s"
  "rd_from (snd (ring_pop s)) = rd_from s" "rd_active (snd (ring_pop s)) = rd_active s"
  by (auto simp: ring_pop_def abs_con_def line_of_def past_def entry_def parked_line_def inside_def con_ok_def
      ring_ok_def hist_ok_def edit_ok_def)

lemma inside_max: "inside s t \<Longrightarrow> rd_max t = rd_max s"
  by (simp add: inside_def)

lemma edit_loop_run:
  assumes "con_ok s" "rd_active s"
  shows "\<exists>s'. edit_loop s = Some s' \<and> con_ok s' \<and> inside s s' \<and> replied s s' \<and>
    (abs_con s', typed s') = take_keys (unat (rd_max s)) (typed s) (parser s) (abs_con s)"
  using assms
proof (induction "typed s" arbitrary: s)
  case Nil
  then have "ring_pop s = (- 1, s)" using rx.pop_empty [of s] by (simp add: con_ok_def)
  then have "edit_loop s = Some s" by (subst edit_loop.simps) simp
  with Nil show ?case by (auto simp: replied_def)
next
  case (Cons c r)
  let ?t = "snd (ring_pop s)"
  let ?u = "key c ?t"
  have pop: "fst (ring_pop s) = uint c" "typed ?t = r"
    using rx.pop_items [of s c r] Cons.hyps(2) Cons.prems(1) by (auto simp: con_ok_def)
  have loop: "edit_loop s = (if rd_active ?u then edit_loop ?u else Some ?u)"
    using pop(1) by (subst edit_loop.simps) (simp add: case_prod_beta)
  have t: "con_ok ?t" "rd_active ?t" using Cons.prems by (simp_all add: pop_frame)
  note k = sound_key [OF t, of c, unfolded sound_def] and f = parser_key [OF t(2), of c]
  have u: "abs_con ?u = perform (unat (rd_max s)) (command_at (parser s) c) (abs_con s)" "con_ok ?u" "inside s ?u"
    using k inside_trans [OF pop_frame(2)] by (simp_all add: pop_frame command_of_at)
  have ty: "typed ?u = r" "parser ?u = parse (parser s) c" "rd_from ?u = rd_from s"
    using f(1) same_ring_ok(1) [OF f(2)] f(2) pop(2) by (simp_all add: pop_frame same_ring_def)
  have rp: "replied s ?u" using f(3) by (simp add: replied_def pop_frame)
  show ?case
  proof (cases "rd_active ?u")
    case True
    from Cons.hyps(1) [OF ty(1) [symmetric] u(2) True] obtain s' where s':
      "edit_loop ?u = Some s'" "con_ok s'" "inside ?u s'" "replied ?u s'"
      "(abs_con s', typed s') = take_keys (unat (rd_max ?u)) r (parser ?u) (abs_con ?u)"
      unfolding ty(1) by blast
    have "a_open (abs_con ?u)" using True by simp
    then have "(abs_con s', typed s') = take_keys (unat (rd_max s)) (typed s) (parser s) (abs_con s)"
      unfolding Cons.hyps(2) [symmetric] s'(5) ty(2) inside_max [OF u(3)]
      by (simp add: u(1) [symmetric] Let_def)
    moreover have "replied s s'" using s'(4) rp True ty(3) by (simp add: replied_def split: if_splits)
    ultimately show ?thesis using loop True s' inside_trans [OF u(3)] by auto
  next
    case False
    then have "\<not> a_open (abs_con ?u)" by simp
    then have "(abs_con ?u, typed ?u) = take_keys (unat (rd_max s)) (typed s) (parser s) (abs_con s)"
      unfolding Cons.hyps(2) [symmetric] by (simp add: u(1) [symmetric] ty(1) Let_def)
    with loop False u rp show ?thesis by auto
  qed
qed

lemma ring_push_frame:
  "abs_con (ring_push c s) = abs_con s" "con_ok s \<Longrightarrow> inside s (ring_push c s)" "con_ok s \<Longrightarrow> con_ok (ring_push c s)"
  "parser (ring_push c s) = parser s" "rd_max (ring_push c s) = rd_max s" "sent (ring_push c s) = sent s"
  "rd_from (ring_push c s) = rd_from s" "rd_active (ring_push c s) = rd_active s"
  by (auto simp: ring_push_def abs_con_def line_of_def past_def entry_def parked_line_def inside_def con_ok_def
      ring_ok_def hist_ok_def edit_ok_def Let_def)

text \<open>What the receive registers deliver in one interrupt.\<close>

fun received :: "(u8 \<times> u8) list \<Rightarrow> u8 list" where
  "received [] = []"
| "received ((lsr, d) # r) = (if lsr AND LSR_RX \<noteq> 0 then d # received r else [])"

lemma drain_rx_pushes: "drain_rx r s = rx.pushes (received r) s"
  by (induction r s rule: drain_rx.induct) (simp_all add: rx.pushes_def)

lemma drain_frame:
  "abs_con (rx.pushes ds s) = abs_con s" "con_ok s \<Longrightarrow> inside s (rx.pushes ds s)" "con_ok s \<Longrightarrow> con_ok (rx.pushes ds s)"
  "parser (rx.pushes ds s) = parser s" "rd_max (rx.pushes ds s) = rd_max s" "sent (rx.pushes ds s) = sent s"
  "rd_from (rx.pushes ds s) = rd_from s" "rd_active (rx.pushes ds s) = rd_active s"
proof -
  show "con_ok s \<Longrightarrow> con_ok (rx.pushes ds s)"
    by (induction ds arbitrary: s) (simp_all add: rx.pushes_def ring_push_frame)
  show "con_ok s \<Longrightarrow> inside s (rx.pushes ds s)"
  proof (induction ds arbitrary: s)
    case (Cons d ds)
    from inside_trans [OF ring_push_frame(2) Cons.IH, OF Cons.prems ring_push_frame(3) [OF Cons.prems]]
    show ?case by (simp add: rx.pushes_def)
  qed (simp add: rx.pushes_def)
qed (induction ds arbitrary: s; simp add: rx.pushes_def ring_push_frame)+

lemma typed_drain: "con_ok s \<Longrightarrow> typed (drain_rx r s) = typed s @ take (255 - length (typed s)) (received r)"
proof -
  assume "con_ok s"
  then have "ring_ok s" "r_head s < RING" "r_tail s < RING" by (simp_all add: con_ok_def ring_ok_def)
  moreover have "length (typed s) \<le> 255"
    using ring_count_bound [OF calculation(2,3)] by (simp add: typed_def)
  ultimately show ?thesis unfolding drain_rx_pushes by (intro rx.pushes_items)
qed

section \<open>Properties\<close>

lemma con_step_irq:
  "m_label m = MSG_IRQ \<Longrightarrow> con_step mem r from m s = edit (drain_rx r s)"
  by (simp add: con_step_def)

lemma begin_read_ok:
  "con_ok s \<Longrightarrow> ucast (m_data1 m) \<noteq> (0 :: u32) \<Longrightarrow> con_ok (begin_read b from m s)"
  by (auto simp: con_ok_def begin_read_def ring_ok_def hist_ok_def edit_ok_def entry_def parked_line_def line_of_def
      unat_eq_0 intro: gr0I)

text \<open>A console with nothing typed and no history, and a reader with a buffer of eight bytes.\<close>

definition demo_con :: con where
  "demo_con = \<lparr>ring = \<lambda>_. 0, r_head = 0, r_tail = 0, hist = \<lambda>_ _. 0, hist_len = \<lambda>_. 0, h_count = 0, h_next = 0,
     h_nav = 0, h_saved = \<lambda>_. 0, h_saved_n = 0, rd_active = False, rd_from = 0, rd_buf = \<lambda>_. 0, rd_max = 0,
     rd_n = 0, rd_pos = 0, esc = 0, csi_num = 0, tx = [], sent = []\<rparr>"

definition demo_reader :: con where
  "demo_reader = begin_read (\<lambda>_. 0) 9 (con_readline 0 8) demo_con"

lemma demo_con_ok: "con_ok demo_con"
  by (simp add: con_ok_def demo_con_def ring_ok_def hist_ok_def entry_def parked_line_def)

lemma demo_reader_ok: "con_ok demo_reader" "rd_active demo_reader"
proof -
  show "con_ok demo_reader"
    unfolding demo_reader_def by (rule begin_read_ok [OF demo_con_ok]) (simp add: con_readline_def zero_msg_def)
qed (simp add: demo_reader_def begin_read_def)

text \<open>C14: The console driver handles every message except a READLINE whose buffer has length 0 (for
  which \<open>rd_max - 1\<close> wraps): it returns to its loop, keeps its invariant, and writes neither past
  the end of the client's line buffer nor outside its own ring and history.\<close>

theorem console_safe:
  assumes "con_ok s" and "m_label m = MSG_READLINE \<Longrightarrow> ucast (m_data1 m) \<noteq> (0 :: u32)"
  shows "\<exists>s'. con_step mem r from m s = Some s' \<and> con_ok s' \<and>
    inside (if m_label m = MSG_READLINE then begin_read (mem (m_data0 m)) from m s else s) s'"
proof -
  have ed: "\<exists>s'. edit t = Some s' \<and> con_ok s' \<and> inside t s'" if "con_ok t" for t
    using edit_loop_run [OF that] that unfolding edit_def by auto
  consider "m_label m = MSG_IRQ" | "m_label m = MSG_WRITE" | "m_label m = MSG_READLINE"
    | "m_label m \<notin> {MSG_IRQ, MSG_WRITE, MSG_READLINE}" by blast
  then show ?thesis
  proof cases
    case 1
    from ed [of "drain_rx r s"] drain_frame(2,3) [OF assms(1)] obtain s' where
      "edit (drain_rx r s) = Some s'" "con_ok s'" "inside s s'"
      unfolding drain_rx_pushes using inside_trans by blast
    with 1 show ?thesis by (simp add: con_step_irq)
  next
    case 2
    then show ?thesis
      using assms(1) by (auto simp: con_step_def loop_simps inside_def con_ok_def ring_ok_def hist_ok_def edit_ok_def
          entry_def parked_line_def line_of_def Let_def)
  next
    case 3
    from ed [OF begin_read_ok [OF assms(1) assms(2) [OF 3]]] 3 show ?thesis by (simp add: con_step_def)
  qed (use assms(1) in \<open>auto simp: con_step_def\<close>)
qed

theorem console_safe_witness:
  "\<exists>s'. con_step (\<lambda>_ _. 0) [] 9 (con_readline 0x1000 8) demo_con = Some s' \<and> con_ok s' \<and>
     inside (begin_read (\<lambda>_. 0) 9 (con_readline 0x1000 8) demo_con) s'"
  using console_safe [OF demo_con_ok, of "con_readline 0x1000 8" "\<lambda>_ _. 0" "[]" 9]
  by (simp add: con_readline_def zero_msg_def)

text \<open>C13: While a client reads a line, each interrupt takes the bytes received (as many as the ring
  has room for) after those typed ahead, and the driver does with them what the abstract editor
  does: the same line, cursor, history and parked line, and the keys behind the one that finishes
  the line stay for the next reader.  The client gets its reply when the line is finished, with
  its length, and the line ends with NUL.\<close>

theorem typing_refines:
  assumes "con_ok s" and "rd_active s" and "m_label m = MSG_IRQ"
  shows "\<exists>s'. con_step mem r from m s = Some s' \<and> replied s s' \<and>
    (abs_con s', typed s') = take_keys (unat (rd_max s)) (typed s @ take (255 - length (typed s)) (received r))
       (parser s) (abs_con s)"
proof -
  let ?t = "drain_rx r s"
  have t: "con_ok ?t" "rd_active ?t" "parser ?t = parser s" "abs_con ?t = abs_con s" "rd_max ?t = rd_max s"
    "sent ?t = sent s" "rd_from ?t = rd_from s"
    using assms drain_frame unfolding drain_rx_pushes by auto
  from edit_loop_run [OF t(1,2)] obtain s' where "edit_loop ?t = Some s'" "replied ?t s'"
    "(abs_con s', typed s') = take_keys (unat (rd_max s)) (typed ?t) (parser s) (abs_con s)"
    using t by auto
  with t(2,6,7) assms(3) show ?thesis
    unfolding con_step_irq [OF assms(3)] edit_def typed_drain [OF assms(1)] by (simp add: replied_def)
qed

theorem typing_refines_witness:
  "\<exists>s'. con_step (\<lambda>_ _. 0) [(1, 0x62), (1, 0x02), (1, 0x61), (1, 0x0D), (1, 0x63), (0, 0)] 9 (zero_msg\<lparr>m_label := MSG_IRQ\<rparr>)
     demo_reader = Some s' \<and> line_of s' = [0x61, 0x62] \<and> typed s' = [0x63] \<and> \<not> rd_active s'"
proof -
  have ty: "typed demo_reader = []" "parser demo_reader = (0, 0)" "rd_max demo_reader = 8"
    "abs_con demo_reader = \<lparr>a_line = [], a_pos = 0, a_hist = [], a_nav = 0, a_parked = [], a_open = True\<rparr>"
    by (simp_all add: demo_reader_def begin_read_def demo_con_def typed_def ring_items_def ring_count_def
        con_readline_def zero_msg_def abs_con_def line_of_def past_def parked_line_def)
  have run: "take_keys 8 [0x62, 0x02, 0x61, 0x0D, 0x63] (0, 0)
      \<lparr>a_line = [], a_pos = 0, a_hist = [], a_nav = 0, a_parked = [], a_open = True\<rparr> =
    (\<lparr>a_line = [0x61, 0x62], a_pos = 1, a_hist = [[0x61, 0x62]], a_nav = 0, a_parked = [], a_open = False\<rparr>, [0x63])"
    by (simp add: command_at_def plain_command_def parse_def remember_def)
  obtain s' where s': "con_step (\<lambda>_ _. 0) [(1, 0x62), (1, 0x02), (1, 0x61), (1, 0x0D), (1, 0x63), (0, 0)] 9
      (zero_msg\<lparr>m_label := MSG_IRQ\<rparr>) demo_reader = Some s'"
    "(abs_con s', typed s') = take_keys 8 [0x62, 0x02, 0x61, 0x0D, 0x63] (0, 0)
      \<lparr>a_line = [], a_pos = 0, a_hist = [], a_nav = 0, a_parked = [], a_open = True\<rparr>"
    using typing_refines [OF demo_reader_ok, of "zero_msg\<lparr>m_label := MSG_IRQ\<rparr>" "\<lambda>_ _. 0"
        "[(1, 0x62), (1, 0x02), (1, 0x61), (1, 0x0D), (1, 0x63), (0, 0)]" 9] ty
    by (auto simp: zero_msg_def)
  then have "abs_con s' = \<lparr>a_line = [0x61, 0x62], a_pos = 1, a_hist = [[0x61, 0x62]], a_nav = 0, a_parked = [],
      a_open = False\<rparr>" "typed s' = [0x63]" unfolding run by simp_all
  then have "line_of s' = [0x61, 0x62]" "\<not> rd_active s'" by (simp_all flip: abs_con_simps)
  with s'(1) \<open>typed s' = [0x63]\<close> show ?thesis by blast
qed

lemma hd_remember:
  assumes "hist_ok s" "l \<noteq> []"
  shows "remember l (past s) \<noteq> []" "hd (remember l (past s)) = take 127 l"
proof -
  have "length (hd (past s)) < HLEN" if "past s \<noteq> []"
  proof -
    have "h_count s \<noteq> 0" using that by (simp add: past_def)
    with past_newest [of s] assms(1) show ?thesis by (simp add: hist_ok_def entry_def)
  qed
  then show "remember l (past s) \<noteq> []" "hd (remember l (past s)) = take 127 l"
    using assms(2) by (auto simp: remember_def)
qed

text \<open>A cursor key: escape, bracket and a letter.\<close>

lemma escape_sequence:
  assumes "con_ok s" "rd_active s" "esc s = 0" "\<not> (0x30 \<le> c \<and> c \<le> 0x39)"
  defines "u \<equiv> fold key [0x1B, 0x5B, c] s"
  shows "abs_con u = perform (unat (rd_max s)) (csi_command 0 c) (abs_con s)" "con_ok u" "rd_active u" "esc u = 0"
    "rd_max u = rd_max s"
proof -
  define v where "v = key 0x1B s"
  define w where "w = key 0x5B v"
  have u: "u = key c w" by (simp add: u_def v_def w_def)
  have cmd: "command_of s 0x1B = Skip" using assms(3) by (simp add: command_of_def esc_no_command)
  note sv = sound_key [OF assms(1,2), of "0x1B", unfolded sound_def cmd]
  have v: "abs_con v = abs_con s" "con_ok v" "rd_max v = rd_max s" "fst (parser v) = 1"
    using sv parser_key(1) [OF assms(2), of "0x1B"] assms(3) by (simp_all add: v_def inside_max parse_def)
  have va: "rd_active v" using v(1) assms(2) by (metis abs_con_simps(6))
  have "command_of v 0x5B = Skip" using v(4) by (simp add: command_of_def)
  then have w: "abs_con w = abs_con s" "con_ok w" "rd_max w = rd_max s" "parser w = (2, 0)"
    using sound_key [OF v(2) va, of "0x5B"] parser_key(1) [OF va, of "0x5B"] v
    by (auto simp: sound_def w_def parse_def dest: inside_max)
  have wa: "rd_active w" using w(1) assms(2) by (metis abs_con_simps(6))
  have k: "command_of w c = csi_command 0 c" unfolding command_of_def using w(4) assms(4) by auto
  have su: "sound (csi_command 0 c) w u" using sound_key [OF w(2) wa, of c] unfolding k u .
  then show a: "abs_con u = perform (unat (rd_max s)) (csi_command 0 c) (abs_con s)" "con_ok u" "rd_max u = rd_max s"
    using w by (auto simp: sound_def dest: inside_max)
  show "esc u = 0" using parser_key(1) [OF wa, of c] w(4) assms(4) by (auto simp: u parse_def)
  have "a_open (perform m (csi_command 0 c) x) = a_open x" for m x
    by (simp add: csi_command_def recall_def load_line_def)
  with a(1) assms(2) show "rd_active u" by (metis abs_con_simps(6))
qed

text \<open>C23: A line that was entered comes back: the next reader that presses the up key has it as his
  line (its first 127 bytes, and no more than fit into his buffer), with the cursor at its end,
  and the down key brings back his own empty line.\<close>

theorem history_recalls:
  assumes "con_ok s" and "rd_active s" and "line_of s \<noteq> []" and "ucast (m_data1 m) \<noteq> (0 :: u32)"
    and "t = begin_read b from m (finish_line s)" and "u = fold key [0x1B, 0x5B, 0x41] t"
  shows "line_of u = take (unat (ucast (m_data1 m) :: u32) - 1) (take 127 (line_of s)) \<and> rd_pos u = length (line_of u) \<and>
    line_of (fold key [0x1B, 0x5B, 0x42] u) = []"
proof -
  have e: "edit_ok s" "hist_ok s" using assms(1,2) by (simp_all add: con_ok_def)
  have f: "con_ok (finish_line s)" "past (finish_line s) = remember (line_of s) (past s)"
    using finish_line_eq [OF assms(1)] e(1) by (auto simp: edit_ok_def simp flip: abs_con_simps)
  have t: "con_ok t" "rd_active t" "esc t = 0" "rd_max t = ucast (m_data1 m)" "line_of t = []" "h_nav t = 0"
    "past t = remember (line_of s) (past s)"
    using begin_read_ok [OF f(1) assms(4)] f(2) by (simp_all add: assms(5) begin_read_def line_of_def past_def entry_def)
  have u: "abs_con u = load_line (unat (rd_max t)) (take 127 (line_of s)) ((abs_con t)\<lparr>a_parked := [], a_nav := 1\<rparr>)"
    "con_ok u" "rd_active u" "esc u = 0" "rd_max u = rd_max t"
    using escape_sequence [OF t(1,2,3), of "0x41"] t hd_remember [OF e(2) assms(3)]
    by (simp_all add: assms(6) csi_command_def recall_def hd_conv_nth)
  have "abs_con (fold key [0x1B, 0x5B, 0x42] u) = load_line (unat (rd_max t)) [] ((abs_con u)\<lparr>a_nav := 0\<rparr>)"
    using escape_sequence(1) [OF u(2-4), of "0x42"] u(1,5)
    by (simp add: csi_command_def recall_def load_line_def)
  then show ?thesis
    using u(1) t(4) by (simp add: load_line_def flip: abs_con_simps)
qed

text \<open>A reader who has typed a character.\<close>

definition demo_typing :: con where
  "demo_typing = ins_char 0x61 demo_reader"

lemma demo_typing_ok: "con_ok demo_typing" "rd_active demo_typing" "line_of demo_typing = [0x61]"
proof -
  have "sound (Insert 0x61) demo_reader demo_typing"
    unfolding demo_typing_def by (rule sound_insert [OF demo_reader_ok]) simp
  then have "abs_con demo_typing = perform (unat (rd_max demo_reader)) (Insert 0x61) (abs_con demo_reader)" "con_ok demo_typing"
    by (simp_all add: sound_def)
  moreover have "rd_max demo_reader = 8" "line_of demo_reader = []"
    by (simp_all add: demo_reader_def begin_read_def con_readline_def zero_msg_def line_of_def)
  ultimately show "con_ok demo_typing" "rd_active demo_typing" "line_of demo_typing = [0x61]"
    using demo_reader_ok(2) by (simp_all flip: abs_con_simps)
qed

theorem history_recalls_witness:
  "line_of (fold key [0x1B, 0x5B, 0x41] (begin_read (\<lambda>_. 0) 9 (con_readline 0 8) (finish_line demo_typing))) = [0x61]"
  using history_recalls [OF demo_typing_ok(1,2) _ _ refl refl, of "con_readline 0 8" "\<lambda>_. 0" 9]
  by (simp add: demo_typing_ok con_readline_def zero_msg_def)

end
