(* ===== verification/ConScreen.thy ===== *)
theory ConScreen
  imports ConEdit
begin

text \<open>
  What the user of the serial console sees: the bytes the line editor writes, run by a terminal
  line that knows backspace, newline and printable characters.  The line is as wide as it needs to
  be; wrapping at the terminal's edge is not modelled.
\<close>

section \<open>The terminal\<close>

record screen =
  cells :: "nat \<Rightarrow> u8"
  column :: nat

definition term_put :: "u8 \<Rightarrow> screen \<Rightarrow> screen" where
  "term_put c t =
     (if c = 0x08 then t\<lparr>column := column t - 1\<rparr>
      else if c = 0x0A then \<lparr>cells = \<lambda>_. 0x20, column = 0\<rparr>
      else t\<lparr>cells := (cells t)(column t := c), column := column t + 1\<rparr>)"

definition disp :: "u8 list \<Rightarrow> screen \<Rightarrow> screen" where
  "disp xs = fold term_put xs"

text \<open>The line \<open>l\<close> stands from column \<open>k\<close> on, with blanks behind it and the cursor at place \<open>p\<close>.\<close>

definition shown :: "nat \<Rightarrow> u8 list \<Rightarrow> nat \<Rightarrow> screen \<Rightarrow> bool" where
  "shown k l p t \<longleftrightarrow> (\<forall>i. cells t (k + i) = (if i < length l then l ! i else 0x20)) \<and> column t = k + p"

definition showing :: "nat \<Rightarrow> screen \<Rightarrow> con \<Rightarrow> bool" where
  "showing k t s \<longleftrightarrow> shown k (line_of s) (rd_pos s) (disp (tx s) t)"

lemma disp_append [simp]: "disp (xs @ ys) t = disp ys (disp xs t)"
  by (simp add: disp_def)

lemma disp_Nil [simp]: "disp [] t = t"
  by (simp add: disp_def)

lemma disp_Cons: "disp (x # xs) t = disp xs (term_put x t)"
  by (simp add: disp_def)

lemma disp_back: "disp (replicate n 0x08) t = t\<lparr>column := column t - n\<rparr>"
  by (induction n arbitrary: t) (simp_all add: disp_Cons term_put_def)

lemma disp_print:
  "\<forall>c\<in>set xs. printable c \<Longrightarrow>
   disp xs t = t\<lparr>cells := (\<lambda>j. if column t \<le> j \<and> j < column t + length xs then xs ! (j - column t) else cells t j),
     column := column t + length xs\<rparr>"
proof (induction xs arbitrary: t)
  case (Cons x xs)
  then have "x \<noteq> 0x08" "x \<noteq> 0x0A" by auto
  with Cons show ?case
    by (auto simp: disp_Cons term_put_def fun_eq_iff nth_Cons')
qed (auto intro!: screen.equality simp: fun_eq_iff)

lemma shown_print:
  assumes "shown k l p t" "p \<le> length l" "\<forall>c\<in>set xs. printable c"
  shows "shown k (take p l @ xs @ drop (p + length xs) l) (p + length xs) (disp xs t)"
proof -
  have "column t = k + p" using assms(1) by (simp add: shown_def)
  then show ?thesis
    using assms(1,2) unfolding shown_def disp_print [OF assms(3)]
    by (auto simp: nth_append min_def)
qed

lemma shown_back: "shown k l p t \<Longrightarrow> n \<le> p \<Longrightarrow> shown k l (p - n) (disp (replicate n 0x08) t)"
  by (simp add: shown_def disp_back)

lemma shown_rest:
  assumes "shown k l p t" "p \<le> length l" "\<forall>c\<in>set l. printable c"
  shows "shown k l (length l) (disp (drop p l) t)"
  using shown_print [OF assms(1,2), of "drop p l"] assms(2,3) by (auto dest: in_set_dropD)

lemma shown_append:
  assumes "shown k l (length l) t" "\<forall>c\<in>set xs. printable c"
  shows "shown k (l @ xs) (length l + length xs) (disp xs t)"
  using shown_print [OF assms(1) le_refl assms(2)] by simp

lemma shown_rub:
  assumes "shown k (l @ [c]) (length l + 1) t"
  shows "shown k l (length l) (disp [0x08, 0x20, 0x08] t)"
  using assms by (auto simp: shown_def disp_Cons term_put_def nth_append)

lemma shown_rubs: "shown k l (length l) t \<Longrightarrow> shown k [] 0 (disp (rubs (length l)) t)"
proof (induction l arbitrary: t rule: rev_induct)
  case (snoc c l)
  then have "shown k l (length l) (disp [0x08, 0x20, 0x08] t)" by (intro shown_rub) simp
  from snoc.IH [OF this] have "shown k [] 0 (disp ([0x08, 0x20, 0x08] @ rubs (length l)) t)"
    by (simp only: disp_append)
  then show ?case by simp
qed simp

section \<open>Each command\<close>

lemma show_ins:
  assumes "edit_ok s" "rd_n s + 1 < unat (rd_max s)" "printable c" "showing k t s"
  shows "showing k t (ins_char c s)"
proof -
  let ?l = "line_of s" and ?p = "rd_pos s"
  have p: "?p \<le> length ?l" "\<forall>c\<in>set ?l. printable c" using assms(1) by (simp_all add: edit_ok_def)
  have "shown k (take ?p ?l @ (c # drop ?p ?l) @ drop (?p + length (c # drop ?p ?l)) ?l) (?p + length (c # drop ?p ?l))
      (disp (c # drop ?p ?l) (disp (tx s) t))"
    using assms(3,4) p by (intro shown_print) (auto simp: showing_def dest: in_set_dropD)
  then have "shown k (take ?p ?l @ c # drop ?p ?l) (rd_n s + 1) (disp (c # drop ?p ?l) (disp (tx s) t))"
    using p by simp
  from shown_back [OF this, of "rd_n s - ?p"] p
  have "shown k (take ?p ?l @ c # drop ?p ?l) (?p + 1)
      (disp (replicate (rd_n s - ?p) 0x08) (disp (c # drop ?p ?l) (disp (tx s) t)))"
    by (simp add: Suc_diff_le)
  moreover have "line_of (ins_char c s) = take ?p ?l @ c # drop ?p ?l"
    unfolding ins_char_eq [OF assms(1,2)] using line_of_ins [OF assms(1), of c] by (simp add: line_of_def)
  ultimately show ?thesis
    unfolding showing_def ins_char_eq [OF assms(1,2)] by (simp add: disp_Cons)
qed

definition mid_delete :: "con \<Rightarrow> command \<Rightarrow> bool" where
  "mid_delete s k \<longleftrightarrow> k = Del_left \<and> 0 < rd_pos s \<and> rd_pos s < rd_n s \<or> k = Del_at \<and> rd_pos s + 1 < rd_n s"

lemma cut_end: "0 < rd_n s \<Longrightarrow> line_of s = map (rd_buf s) [0..<rd_n s - 1] @ [rd_buf s (rd_n s - 1)]"
  by (cases "rd_n s") (simp_all add: line_of_def)

lemma show_del:
  assumes "edit_ok s" "showing k t s" "c \<in> {Del_left, Del_at}" "\<not> mid_delete s c"
  shows "showing k t (do_command c s)"
proof -
  have p: "rd_pos s \<le> rd_n s" using assms(1) by (simp add: edit_ok_def)
  let ?b = "shift_down (rd_n s - 1) (rd_n s - 1) (rd_buf s)"
  have b: "?b = rd_buf s" by (simp add: shift_down_def)
  consider "do_command c s = s" | "0 < rd_n s" "c = Del_left" "rd_pos s = rd_n s" | "0 < rd_n s" "c = Del_at" "rd_pos s = rd_n s - 1"
    using assms(3,4) p unfolding mid_delete_def
    by (cases "rd_pos s = 0"; cases "rd_pos s = rd_n s"; cases "rd_pos s + 1 = rd_n s") (auto simp: del_left_def del_at_def)
  then show ?thesis
  proof cases
    case 2
    then have "del_left s = s\<lparr>rd_buf := rd_buf s, rd_n := rd_n s - 1, rd_pos := rd_n s - 1, tx := tx s @ [0x08, 0x20, 0x08]\<rparr>"
      using del_left_eq [OF assms(1)] b by simp
    moreover have "shown k (map (rd_buf s) [0..<rd_n s - 1]) (rd_n s - 1) (disp [0x08, 0x20, 0x08] (disp (tx s) t))"
      using shown_rub [of k "map (rd_buf s) [0..<rd_n s - 1]" "rd_buf s (rd_n s - 1)"] assms(2) 2
      unfolding showing_def cut_end [OF 2(1)] by simp
    ultimately show ?thesis using 2 by (simp add: showing_def line_of_def)
  next
    case 3
    then have "del_at s = s\<lparr>rd_buf := rd_buf s, rd_n := rd_n s - 1, rd_pos := rd_n s - 1, tx := tx s @ [0x20, 0x08]\<rparr>"
      using del_at_eq [of s] b by simp
    moreover have "shown k (map (rd_buf s) [0..<rd_n s - 1]) (rd_n s - 1) (disp [0x20, 0x08] (disp (tx s) t))"
      using assms(2) 3 unfolding showing_def cut_end [OF 3(1)]
      by (auto simp: shown_def disp_Cons term_put_def nth_append)
    ultimately show ?thesis using 3 by (simp add: showing_def line_of_def)
  qed (use assms(2) in simp)
qed

lemma show_set:
  assumes "edit_ok s" "showing k t s" "\<forall>c\<in>set (map e [0..<n]). printable c"
  shows "showing k t (set_line e n s)"
proof -
  let ?m = "min n (unat (rd_max s) - 1)"
  have p: "rd_pos s \<le> length (line_of s)" "\<forall>c\<in>set (line_of s). printable c" using assms(1) by (simp_all add: edit_ok_def)
  have "shown k [] 0 (disp (rubs (rd_n s)) (disp (drop (rd_pos s) (line_of s)) (disp (tx s) t)))"
    using shown_rubs [OF shown_rest [OF _ p]] assms(2) by (simp add: showing_def)
  from shown_append [of k "[]" _ "map e [0..<?m]"] this assms(3)
  have "shown k (map e [0..<?m]) ?m
      (disp (map e [0..<?m]) (disp (rubs (rd_n s)) (disp (drop (rd_pos s) (line_of s)) (disp (tx s) t))))"
    by simp
  moreover have "line_of (set_line e n s) = map e [0..<?m]"
    unfolding set_line_eq [OF assms(1)] line_of_def by (auto simp: list_eq_iff_nth_eq)
  ultimately show ?thesis
    by (simp add: showing_def) (simp add: set_line_eq [OF assms(1)])
qed

lemma show_move:
  assumes "edit_ok s" "showing k t s" "c \<in> {Left, Right, Home, End, Kill}"
  shows "showing k t (do_command c s)"
proof -
  let ?l = "line_of s" and ?p = "rd_pos s"
  have p: "?p \<le> length ?l" "\<forall>c\<in>set ?l. printable c" using assms(1) by (simp_all add: edit_ok_def)
  have sh: "shown k ?l ?p (disp (tx s) t)" using assms(2) by (simp add: showing_def)
  have same: "line_of (s\<lparr>rd_pos := q, tx := x\<rparr>) = ?l" "line_of (s\<lparr>rd_n := 0, rd_pos := q, tx := x\<rparr>) = []" for q x
    by (simp_all add: line_of_def)
  consider "c = Left" "?p = 0" | "c = Left" "?p \<noteq> 0" | "c = Right" "?p = rd_n s" | "c = Right" "?p < rd_n s"
    | "c = Home" | "c = End" | "c = Kill"
    using assms(3) p(1) by (cases "?p < rd_n s") auto
  then show ?thesis
  proof cases
    case 2
    then show ?thesis
      using shown_back [OF sh, of 1] by (simp add: showing_def go_left_def uart_putc_def same)
  next
    case 4
    then have c: "rd_buf s ?p = ?l ! ?p" by (simp add: line_of_def)
    have "shown k (take ?p ?l @ [?l ! ?p] @ drop (?p + 1) ?l) (?p + 1) (disp [?l ! ?p] (disp (tx s) t))"
      using shown_print [OF sh p(1), of "[?l ! ?p]"] p(2) 4 by simp
    moreover have "take ?p ?l @ [?l ! ?p] @ drop (?p + 1) ?l = ?l" using 4 by (simp flip: id_take_nth_drop)
    ultimately show ?thesis using 4 c by (simp add: showing_def go_right_def uart_putc_def same)
  next
    case 5
    then show ?thesis
      using shown_back [OF sh, of ?p] by (simp add: showing_def go_home_def backspaces_eq same)
  next
    case 6
    then show ?thesis
      using shown_rest [OF sh p] by (simp add: showing_def go_end_eq [OF assms(1)] same)
  next
    case 7
    then show ?thesis
      using shown_rubs [OF shown_rest [OF sh p]] by (simp add: showing_def kill_line_eq [OF assms(1)] same)
  qed (use assms(2) in \<open>simp_all add: go_left_def go_right_def\<close>)
qed

lemma show_nav:
  assumes "con_ok s" "rd_active s" "showing k t s" "c \<in> {Older, Newer}"
  shows "showing k t (do_command c s)"
proof -
  note e = edit_okI [OF assms(1,2)]
  have nav: "showing k t (set_line a n u)"
    if "con_ok u" "rd_active u" "tx u = tx s" "line_of u = line_of s" "rd_pos u = rd_pos s" "\<forall>c\<in>set (map a [0..<n]). printable c"
    for u a n
    using that assms(3) by (intro show_set edit_okI) (simp_all add: showing_def)
  have ent: "\<forall>c\<in>set (map (hist s j) [0..<hist_len s j]). printable c" if "j < HMAX" for j
    using that assms(1) by (simp add: con_ok_def hist_ok_def entry_def)
  have par: "\<forall>c\<in>set (map (h_saved s) [0..<h_saved_n s]). printable c"
    using assms(1) by (simp add: con_ok_def hist_ok_def parked_line_def)
  have idx: "j mod HMAX < HMAX" for j by simp
  have frame: "tx (u\<lparr>h_nav := j\<rparr>) = tx u" "line_of (u\<lparr>h_nav := j\<rparr>) = line_of u" "tx (park u) = tx u" for u j
    by (simp_all add: line_of_def park_def Let_def)
  show ?thesis
  proof (cases "c = Older")
    case True
    define u where "u = (if h_nav s = 0 then park s else s)"
    have u: "con_ok u" "rd_active u" "tx u = tx s" "line_of u = line_of s" "rd_pos u = rd_pos s" "hist u = hist s"
      "hist_len u = hist_len s" "h_count u = h_count s"
      using assms(1,2) park_ok by (auto simp: u_def frame)
    show ?thesis
    proof (cases "h_count s \<le> h_nav s")
      case False
      then have "Suc (h_nav s) \<le> h_count u" using u by simp
      then show ?thesis
        using True False u nav_update(1) [OF u(1)] ent [OF idx]
        by (auto simp: hist_nav_eq Let_def frame u_def [symmetric] intro!: nav)
    qed (use True assms(3) in \<open>simp add: hist_nav_eq\<close>)
  next
    case False
    with assms(4) have c: "c = Newer" by simp
    show ?thesis
    proof (cases "h_nav s = 0 \<or> Suc (h_count s) < h_nav s")
      case True
      with c assms(3) show ?thesis by (simp add: hist_nav_eq)
    next
      case False
      then have "h_nav s - 1 \<le> h_count s" by linarith
      then have "con_ok (s\<lparr>h_nav := h_nav s - 1\<rparr>)" by (rule nav_update(1) [OF assms(1)])
      with c False assms(2) par ent [OF idx] show ?thesis
        by (auto simp: hist_nav_eq Let_def frame intro!: nav)
    qed
  qed
qed

section \<open>Properties\<close>

lemma show_command:
  assumes "con_ok s" "rd_active s" "showing k t s" "c \<notin> {Enter, Cancel}" "\<not> mid_delete s c"
    and "\<And>d. c = Insert d \<Longrightarrow> printable d"
  shows "showing k t (do_command c s)"
proof (cases c)
  case (Insert d)
  show ?thesis
  proof (cases "rd_n s + 1 < unat (rd_max s)")
    case True
    then show ?thesis using show_ins [OF edit_okI [OF assms(1,2)] True] assms(3,6) Insert by simp
  qed (use assms(3) Insert in \<open>simp add: ins_char_def\<close>)
qed (use assms show_del [OF edit_okI [OF assms(1,2)] assms(3), of c] show_move [OF edit_okI [OF assms(1,2)] assms(3), of c]
    show_nav [OF assms(1-3), of c] in simp_all)

lemma key_shows: "showing k t (key c s) = showing k t (do_command (command_of s c) s)"
proof -
  obtain e n where "key c s = (do_command (command_of s c) s)\<lparr>esc := e, csi_num := n\<rparr>"
    using key_command by blast
  then show ?thesis by (simp add: showing_def line_of_def)
qed

text \<open>C21: The terminal shows the line that is edited: after every key, in whatever state the line,
  the cursor and the history are, the text from the prompt on is exactly the line and the cursor
  stands where the next character goes --- unless the key deletes a character with text to the
  right of it, or ends the line.\<close>

theorem display_faithful:
  assumes "con_ok s" and "rd_active s" and "showing k t s"
    and "command_of s c \<notin> {Enter, Cancel}" and "\<not> mid_delete s (command_of s c)"
  shows "showing k t (key c s)"
  unfolding key_shows using show_command [OF assms] command_insert by blast

definition blank :: "nat \<Rightarrow> screen" where
  "blank k = \<lparr>cells = \<lambda>_. 0x20, column = k\<rparr>"

lemma demo_shown: "showing 2 (blank 2) demo_reader"
  by (simp add: showing_def shown_def blank_def demo_reader_def begin_read_def demo_con_def line_of_def)

theorem display_faithful_witness: "showing 2 (blank 2) (key 0x61 demo_reader)"
proof -
  have "command_of demo_reader 0x61 = Insert 0x61"
    by (simp add: command_of_def plain_command_def demo_reader_def begin_read_def)
  then show ?thesis
    using display_faithful [OF demo_reader_ok demo_shown, of "0x61"] by (simp add: mid_delete_def)
qed

lemma mid_delete_output:
  assumes "edit_ok s" "mid_delete s c" "u = do_command c s"
    and q: "q = (if c = Del_left then rd_pos s - 1 else rd_pos s)" and n: "n = rd_n s - 1"
    and w: "w = (if c = Del_left then disp [0x08] (disp (tx s) t) else disp (tx s) t)"
  shows "q < n \<and> rd_n u = n \<and> rd_pos u = q \<and>
    disp (tx u) t = disp (replicate (n - q + 1) 0x08) (disp [0x20] (disp (replicate (n - q) 0x08)
      (disp (drop (Suc q) (line_of s)) w)))"
proof -
  have "q < n" using assms(1,2) by (auto simp: mid_delete_def q n edit_ok_def)
  then have "q < rd_n s" by (simp add: n)
  note l = line_of_del [OF this, folded n]
  consider "c = Del_left" "rd_pos s \<noteq> 0" "q = rd_pos s - 1" | "c = Del_at" "rd_pos s < rd_n s" "q = rd_pos s"
    using assms(2) by (auto simp: mid_delete_def q)
  then show ?thesis
  proof cases
    case 1
    then show ?thesis
      using del_left_eq [OF assms(1) 1(2)] l \<open>q < n\<close> by (simp add: assms(3) n w disp_Cons line_of_def)
  next
    case 2
    then show ?thesis
      using del_at_eq [OF 2(2)] l \<open>q < n\<close> by (simp add: assms(3) n w disp_Cons line_of_def)
  qed
qed

text \<open>C22: A delete in the middle of the line spoils the display: \<open>redraw_from\<close> has already moved the
  cursor back when the blank meant for the old end of the line is written, so the blank replaces
  the character at the cursor, and the cursor ends up as many columns too far left as there are
  characters behind it.  (\<open>k\<close> is the width of the prompt.)\<close>

theorem mid_delete_garbles:
  assumes "con_ok s" and "rd_active s" and "showing k t s" and "mid_delete s (command_of s c)"
    and "s' = key c s" and "d = disp (tx s') t" and "0 < k"
  shows "cells d (k + rd_pos s') = 0x20 \<and> column d = k + rd_pos s' - (rd_n s' - rd_pos s') \<and>
    rd_pos s' < rd_n s' \<and> \<not> showing k t s'"
proof -
  let ?l = "line_of s" and ?u = "do_command (command_of s c) s"
  note e = edit_okI [OF assms(1,2)]
  have p: "rd_pos s \<le> rd_n s" "\<forall>c\<in>set ?l. printable c" using e by (simp_all add: edit_ok_def)
  define q where "q = (if command_of s c = Del_left then rd_pos s - 1 else rd_pos s)"
  define n where "n = rd_n s - 1"
  define w where "w = (if command_of s c = Del_left then disp [0x08] (disp (tx s) t) else disp (tx s) t)"
  note u = mid_delete_output [OF e assms(4) refl q_def n_def w_def]
  have q: "q < n" "Suc q \<le> length ?l" using u p(1) by (auto simp: n_def)
  have w: "column w = k + q"
    using assms(3,4) by (auto simp: w_def q_def showing_def shown_def mid_delete_def disp_Cons term_put_def)
  have len: "length (drop (Suc q) ?l) = n - q" using q by (simp add: n_def)
  have pr: "\<forall>c\<in>set (drop (Suc q) ?l). printable c" using p(2) by (auto dest: in_set_dropD)
  obtain f where f: "disp (drop (Suc q) ?l) w = w\<lparr>cells := f, column := k + q + (n - q)\<rparr>"
    using disp_print [OF pr, of w] unfolding w len by blast
  have d: "disp (tx ?u) t = w\<lparr>cells := f(k + q := 0x20), column := k + q - (n - q)\<rparr>"
    unfolding u [THEN conjunct2, THEN conjunct2, THEN conjunct2] f disp_back using q(1) by (simp add: disp_Cons term_put_def)
  obtain a b where key: "key c s = ?u\<lparr>esc := a, csi_num := b\<rparr>" using key_command by blast
  have s': "rd_n s' = n" "rd_pos s' = q" "tx s' = tx ?u"
    using u by (simp_all add: assms(5) key)
  have col: "column d = k + q - (n - q)" "cells d (k + q) = 0x20" by (simp_all add: assms(6) s' d)
  have "\<not> showing k t s'"
  proof
    assume "showing k t s'"
    then have h: "shown k (line_of s') q d" by (simp add: showing_def assms(6) s')
    have "k + q - (n - q) = k + q" using h col(1) by (simp add: shown_def)
    then show False using q(1) assms(7) by linarith
  qed
  with col q(1) s' show ?thesis by simp
qed

text \<open>A reader who has typed "ab" behind a prompt of two columns and gone one to the left.\<close>

definition demo_middle :: con where
  "demo_middle = go_left (ins_char 0x62 demo_typing)"

lemma demo_middle_ok:
  "con_ok demo_middle" "rd_active demo_middle" "showing 2 (blank 2) demo_middle" "rd_n demo_middle = 2" "rd_pos demo_middle = 1"
  "esc demo_middle = 0"
proof -
  have p: "printable 0x61" "printable 0x62" by simp_all
  have s1: "showing 2 (blank 2) demo_typing"
    using show_command [OF demo_reader_ok demo_shown, of "Insert 0x61"] by (simp add: mid_delete_def demo_typing_def)
  let ?t = "ins_char 0x62 demo_typing"
  have t: "con_ok ?t" "abs_con ?t = perform (unat (rd_max demo_typing)) (Insert 0x62) (abs_con demo_typing)"
    using sound_insert [OF demo_typing_ok(1,2) p(2)] by (simp_all add: sound_def)
  have f: "rd_max demo_typing = 8" "esc demo_typing = 0" "rd_n demo_typing = 1" "rd_pos demo_typing = 1" "rd_active demo_typing"
    by (simp_all add: demo_typing_def ins_char_def demo_reader_def begin_read_def con_readline_def zero_msg_def
        loop_simps)
  have ta: "rd_active ?t" "rd_n ?t = 2" "rd_pos ?t = 2" "esc ?t = 0"
    using f by (simp_all add: ins_char_def loop_simps Let_def)
  have s2: "showing 2 (blank 2) ?t"
    using show_command [OF demo_typing_ok(1,2) s1, of "Insert 0x62"] by (simp add: mid_delete_def)
  show "showing 2 (blank 2) demo_middle"
    using show_command [OF t(1) ta(1) s2, of Left] by (simp add: mid_delete_def demo_middle_def)
  have "sound Left ?t demo_middle"
    using sound_moves [OF t(1) ta(1), of Left] by (simp add: demo_middle_def)
  then show "con_ok demo_middle" by (simp add: sound_def)
  show "rd_active demo_middle" "rd_n demo_middle = 2" "rd_pos demo_middle = 1" "esc demo_middle = 0"
    using ta by (simp_all add: demo_middle_def go_left_def uart_putc_def)
qed

theorem mid_delete_garbles_witness:
  "\<not> showing 2 (blank 2) (key 0x7F demo_middle) \<and>
   cells (disp (tx (key 0x7F demo_middle)) (blank 2)) (2 + rd_pos (key 0x7F demo_middle)) = 0x20"
proof -
  have "mid_delete demo_middle (command_of demo_middle 0x7F)"
    by (simp add: mid_delete_def command_of_def plain_command_def demo_middle_ok)
  from mid_delete_garbles [OF demo_middle_ok(1-3) this refl refl] show ?thesis by simp
qed

end
