(* ===== verification/VgaTerm.thy ===== *)
theory VgaTerm
  imports Ring Usys
begin

text \<open>
  The VGA terminal server (\<^verbatim>\<open>servers/vga/main.c\<close>): the scrolling text display, the
  decoding of keyboard scan codes, the key ring, the line reader and the server loop.  The text
  buffer is a map from cell numbers; the client's line buffer the memory from its address on.
\<close>

section \<open>State and display\<close>

abbreviation COLS :: nat where "COLS \<equiv> 80"
abbreviation ROWS :: nat where "ROWS \<equiv> 25"
abbreviation KRING :: nat where "KRING \<equiv> 128"

record vga =
  fb :: "nat \<Rightarrow> u16"
  cur_r :: nat
  cur_c :: nat
  shift :: bool
  kr :: "nat \<Rightarrow> u8"
  kr_head :: nat
  kr_tail :: nat
  v_active :: bool
  v_from :: u64
  v_buf :: "nat \<Rightarrow> u8"
  v_max :: u32
  v_n :: nat
  v_sent :: "(u64 \<times> ipc_msg) list"

definition cell :: "u8 \<Rightarrow> u16" where
  "cell c = push_bit 8 0x07 OR ucast c"

abbreviation blank_cell :: u16 where
  "blank_cell \<equiv> cell 0x20"

text \<open>The two loops of \<open>scroll\<close>, and the loop of \<open>vga_clear\<close>.\<close>

definition scroll :: "vga \<Rightarrow> vga" where
  "scroll s =
     (let f = fold (\<lambda>i f. f(i := f (i + COLS))) [0..<(ROWS - 1) * COLS] (fb s);
          f = fold (\<lambda>c f. f((ROWS - 1) * COLS + c := blank_cell)) [0..<COLS] f
      in s\<lparr>fb := f\<rparr>)"

definition next_row :: "vga \<Rightarrow> vga" where
  "next_row s =
     (let s = s\<lparr>cur_c := 0, cur_r := cur_r s + 1\<rparr>
      in if ROWS \<le> cur_r s then (scroll s)\<lparr>cur_r := ROWS - 1\<rparr> else s)"

definition set_cell :: "u16 \<Rightarrow> vga \<Rightarrow> vga" where
  "set_cell x s = s\<lparr>fb := (fb s)(cur_r s * COLS + cur_c s := x)\<rparr>"

definition vga_putc :: "u8 \<Rightarrow> vga \<Rightarrow> vga" where
  "vga_putc ch s =
     (if ch = 0x0A then next_row s
      else if ch = 0x08 then
        (if 0 < cur_c s then set_cell blank_cell (s\<lparr>cur_c := cur_c s - 1\<rparr>) else s)
      else if ch = 0x0D then s\<lparr>cur_c := 0\<rparr>
      else let s = set_cell (cell ch) s; s = s\<lparr>cur_c := cur_c s + 1\<rparr>
           in if COLS \<le> cur_c s then next_row s else s)"

definition vga_clear :: "vga \<Rightarrow> vga" where
  "vga_clear s = s\<lparr>fb := fold (\<lambda>i f. f(i := blank_cell)) [0..<COLS * ROWS] (fb s), cur_r := 0, cur_c := 0\<rparr>"

section \<open>Keyboard\<close>

definition map_lo :: "u8 list" where
  "map_lo = [
     0, 27, 0x31, 0x32, 0x33, 0x34, 0x35, 0x36, 0x37, 0x38, 0x39, 0x30, 0x2D, 0x3D, 0x08, 0x09,
     0x71, 0x77, 0x65, 0x72, 0x74, 0x79, 0x75, 0x69, 0x6F, 0x70, 0x5B, 0x5D, 0x0A, 0,
     0x61, 0x73, 0x64, 0x66, 0x67, 0x68, 0x6A, 0x6B, 0x6C, 0x3B, 0x27, 0x60, 0, 0x5C,
     0x7A, 0x78, 0x63, 0x76, 0x62, 0x6E, 0x6D, 0x2C, 0x2E, 0x2F, 0, 0x2A, 0, 0x20]"

definition map_hi :: "u8 list" where
  "map_hi = [
     0, 27, 0x21, 0x40, 0x23, 0x24, 0x25, 0x5E, 0x26, 0x2A, 0x28, 0x29, 0x5F, 0x2B, 0x08, 0x09,
     0x51, 0x57, 0x45, 0x52, 0x54, 0x59, 0x55, 0x49, 0x4F, 0x50, 0x7B, 0x7D, 0x0A, 0,
     0x41, 0x53, 0x44, 0x46, 0x47, 0x48, 0x4A, 0x4B, 0x4C, 0x3A, 0x22, 0x7E, 0, 0x7C,
     0x5A, 0x58, 0x43, 0x56, 0x42, 0x4E, 0x4D, 0x3C, 0x3E, 0x3F, 0, 0x2A, 0, 0x20]"

definition kr_push :: "u8 \<Rightarrow> vga \<Rightarrow> vga" where
  "kr_push c s =
     (let n = (kr_head s + 1) mod KRING
      in if n \<noteq> kr_tail s then s\<lparr>kr := (kr s)(kr_head s := c), kr_head := n\<rparr> else s)"

text \<open>\<open>kr_pop\<close> returns a \<open>char\<close>, which is signed.\<close>

definition kr_pop :: "vga \<Rightarrow> int \<times> vga" where
  "kr_pop s =
     (if kr_head s = kr_tail s then (- 1, s)
      else (sint (kr s (kr_tail s)), s\<lparr>kr_tail := (kr_tail s + 1) mod KRING\<rparr>))"

definition kbd_drain :: "u8 \<Rightarrow> vga \<Rightarrow> vga" where
  "kbd_drain scan s =
     (if scan = 0x2A \<or> scan = 0x36 then s\<lparr>shift := True\<rparr>
      else if scan = 0xAA \<or> scan = 0xB6 then s\<lparr>shift := False\<rparr>
      else if scan AND 0x80 \<noteq> 0 then s
      else if 0x3A \<le> scan then s
      else let c = (if shift s then map_hi else map_lo) ! unat scan
           in if c \<noteq> 0 then kr_push c s else s)"

section \<open>The line reader and the server loop\<close>

definition vga_key :: "u8 \<Rightarrow> vga \<Rightarrow> vga" where
  "vga_key c s =
     (if c = 0x0A then
        let s = vga_putc 0x0A s;
            s = s\<lparr>v_buf := (v_buf s)(v_n s := 0)\<rparr>
        in s\<lparr>v_active := False,
             v_sent := v_sent s @ [(v_from s, zero_msg\<lparr>m_label := MSG_REPLY, m_data0 := of_nat (v_n s)\<rparr>)]\<rparr>
      else if c = 0x08 then
        (if v_n s \<noteq> 0 then vga_putc 0x08 (s\<lparr>v_n := v_n s - 1\<rparr>) else s)
      else if 0x20 \<le> c \<and> c < 0x7F \<and> v_n s + 1 < unat (v_max s) then
        vga_putc c (s\<lparr>v_buf := (v_buf s)(v_n s := c), v_n := v_n s + 1\<rparr>)
      else s)"

partial_function (option) vga_loop :: "vga \<Rightarrow> vga option" where
  "vga_loop s =
     (let (c, s1) = kr_pop s in
      if c < 0 then Some s1
      else let s2 = vga_key (word_of_int c) s1
           in if v_active s2 then vga_loop s2 else Some s2)"

definition vga_edit :: "vga \<Rightarrow> vga option" where
  "vga_edit s = (if v_active s then vga_loop s else Some s)"

definition vga_write :: "u8 list \<Rightarrow> vga \<Rightarrow> vga" where
  "vga_write = fold vga_putc"

definition vga_banner :: "vga \<Rightarrow> vga" where
  "vga_banner s = vga_write (str '' VGA terminal -- type below\<newline>'') (vga_write (str ''muKern'') (vga_clear s))"

definition vga_request :: "(nat \<Rightarrow> u8) \<Rightarrow> u64 \<Rightarrow> ipc_msg \<Rightarrow> vga \<Rightarrow> vga" where
  "vga_request buf from m s =
     s\<lparr>v_active := True, v_from := from, v_buf := buf, v_max := ucast (m_data1 m), v_n := 0\<rparr>"

text \<open>One turn of the loop of \<open>main\<close>; \<open>scan\<close> is what the keyboard's data port returns.\<close>

definition vga_step :: "(u64 \<Rightarrow> nat \<Rightarrow> u8) \<Rightarrow> u8 \<Rightarrow> u64 \<Rightarrow> ipc_msg \<Rightarrow> vga \<Rightarrow> vga option" where
  "vga_step mem scan from m s =
     (if m_label m = MSG_IRQ then vga_edit (kbd_drain scan s)
      else if m_label m = MSG_WRITE then
        let s = vga_write (map (mem (m_data0 m)) [0..<unat (ucast (m_data1 m) :: u32)]) s
        in Some (s\<lparr>v_sent := v_sent s @ [(from, zero_msg\<lparr>m_label := MSG_REPLY\<rparr>)]\<rparr>)
      else if m_label m = MSG_READLINE then vga_edit (vga_request (mem (m_data0 m)) from m s)
      else Some s)"

section \<open>The display as rows\<close>

definition rows :: "vga \<Rightarrow> u16 list list" where
  "rows s = map (\<lambda>r. map (\<lambda>c. fb s (r * COLS + c)) [0..<COLS]) [0..<ROWS]"

text \<open>The reference display: a list of rows; a line feed in the last row drops the first one.\<close>

fun feed :: "u16 list list \<times> nat \<times> nat \<Rightarrow> u16 list list \<times> nat \<times> nat" where
  "feed (t, r, c) = (if r + 1 = ROWS then (tl t @ [replicate COLS blank_cell], r, 0) else (t, r + 1, 0))"

fun show_char :: "u8 \<Rightarrow> u16 list list \<times> nat \<times> nat \<Rightarrow> u16 list list \<times> nat \<times> nat" where
  "show_char ch (t, r, c) =
     (if ch = 0x0A then feed (t, r, c)
      else if ch = 0x0D then (t, r, 0)
      else if ch = 0x08 then
        (if c = 0 then (t, r, 0) else (t[r := (t ! r)[c - 1 := blank_cell]], r, c - 1))
      else let t' = t[r := (t ! r)[c := cell ch]] in if c + 1 = COLS then feed (t', r, c) else (t', r, c + 1))"

definition display :: "vga \<Rightarrow> u16 list list \<times> nat \<times> nat" where
  "display s = (rows s, cur_r s, cur_c s)"

definition cursor_ok :: "vga \<Rightarrow> bool" where
  "cursor_ok s \<longleftrightarrow> cur_r s < ROWS \<and> cur_c s < COLS"

lemma shift_rows:
  "fold (\<lambda>i f. f(i := f (i + COLS))) [0..<n] f = (\<lambda>i. if i < n then f (i + COLS) else f i)"
  by (induction n) (auto simp: fun_eq_iff)

lemma fill_row:
  "fold (\<lambda>c f. f(a + c := x)) [0..<n] f = (\<lambda>i. if a \<le> i \<and> i < a + n then x else f i)"
  by (induction n) (auto simp: fun_eq_iff)

lemma scroll_eq:
  "scroll s = s\<lparr>fb := \<lambda>i. if i < 1920 then fb s (i + 80) else if i < 2000 then blank_cell else fb s i\<rparr>"
  by (simp add: scroll_def shift_rows fill_row Let_def fun_eq_iff)

lemma length_rows [simp]: "length (rows s) = ROWS"
  by (simp add: rows_def)

lemma rows_nth: "r < ROWS \<Longrightarrow> rows s ! r = map (\<lambda>c. fb s (r * COLS + c)) [0..<COLS]"
  by (simp add: rows_def)

lemma rows_scroll: "rows (scroll s) = tl (rows s) @ [replicate COLS blank_cell]"
  by (rule nth_equalityI)
    (auto simp: rows_nth nth_append nth_tl scroll_eq list_eq_iff_nth_eq algebra_simps)

lemma rows_set:
  assumes "r < ROWS" "c < COLS" "fb s' = (fb s)(r * COLS + c := x)"
  shows "rows s' = (rows s)[r := (rows s ! r)[c := x]]"
proof (rule nth_equalityI)
  fix i assume "i < length (rows s')"
  then have i: "i < ROWS" by simp
  have "i * COLS + j = r * COLS + c \<longleftrightarrow> i = r \<and> j = c" if "j < COLS" for j
    using page_offset_unique [of "i * COLS" COLS "r * COLS" j c] that assms(2) by auto
  then show "rows s' ! i = (rows s)[r := (rows s ! r)[c := x]] ! i"
    using i assms by (auto simp: rows_nth nth_list_update list_eq_iff_nth_eq)
qed simp

lemma rows_cong: "fb s' = fb s \<Longrightarrow> rows s' = rows s"
  by (simp add: rows_def)

lemma scroll_frame [simp]:
  "cur_c (scroll s) = cur_c s" "cur_r (scroll s) = cur_r s" "v_n (scroll s) = v_n s" "v_buf (scroll s) = v_buf s"
  "v_max (scroll s) = v_max s" "v_active (scroll s) = v_active s" "v_sent (scroll s) = v_sent s"
  "v_from (scroll s) = v_from s" "kr (scroll s) = kr s" "kr_head (scroll s) = kr_head s" "kr_tail (scroll s) = kr_tail s"
  by (simp_all add: scroll_def Let_def)

lemma display_next_row:
  "cursor_ok s \<Longrightarrow> display (next_row s) = feed (display s) \<and> cursor_ok (next_row s)"
  by (auto simp: display_def next_row_def cursor_ok_def Let_def rows_scroll rows_cong [of "scroll _\<lparr>cur_r := _\<rparr>" "scroll _"]
      rows_cong [of "_\<lparr>cur_c := _, cur_r := _\<rparr>"])

lemma display_set:
  assumes "cur_r s < ROWS" "cur_c s < COLS"
  shows "display (set_cell x s) = ((rows s)[cur_r s := (rows s ! cur_r s)[cur_c s := x]], cur_r s, cur_c s)"
  unfolding display_def using rows_set [OF assms, where s = s and s' = "set_cell x s" and x = x] by (simp add: set_cell_def)

lemma display_putc:
  assumes "cursor_ok s"
  shows "display (vga_putc ch s) = show_char ch (display s) \<and> cursor_ok (vga_putc ch s)"
proof -
  have c: "cur_r s < ROWS" "cur_c s < COLS" using assms by (simp_all add: cursor_ok_def)
  have upd: "display (u\<lparr>cur_c := k\<rparr>) = (fst (display u), cur_r u, k)" for u k
    by (simp add: display_def rows_def)
  have d: "display s = (rows s, cur_r s, cur_c s)" by (simp add: display_def)
  consider "ch = 0x0A" | "ch = 0x0D" | "ch = 0x08" "cur_c s = 0" | "ch = 0x08" "0 < cur_c s"
    | "ch \<notin> {0x0A, 0x0D, 0x08}" "cur_c s + 1 < COLS" | "ch \<notin> {0x0A, 0x0D, 0x08}" "cur_c s + 1 = COLS"
    using c(2) by (cases "cur_c s + 1 = COLS") auto
  then show ?thesis
  proof cases
    case 1
    then show ?thesis using display_next_row [OF assms] by (simp add: vga_putc_def d)
  next
    case 4
    let ?u = "s\<lparr>cur_c := cur_c s - 1\<rparr>"
    have "rows ?u = rows s" by (simp add: rows_def)
    then show ?thesis
      using display_set [of ?u blank_cell] c 4 by (simp add: vga_putc_def d cursor_ok_def set_cell_def)
  next
    case 5
    then show ?thesis
      using display_set [OF c, of "cell ch"] c
      by (simp add: vga_putc_def Let_def upd d cursor_ok_def set_cell_def)
  next
    case 6
    let ?u = "(set_cell (cell ch) s)\<lparr>cur_c := cur_c s + 1\<rparr>"
    let ?v = "set_cell (cell ch) s"
    have "next_row ?u = next_row ?v" by (simp add: next_row_def Let_def)
    moreover have "cursor_ok ?v" using assms by (simp add: cursor_ok_def set_cell_def)
    moreover have "vga_putc ch s = next_row ?u" using 6 by (simp add: vga_putc_def Let_def set_cell_def)
    ultimately show ?thesis
      using display_next_row [of ?v] display_set [OF c, of "cell ch"] 6 by (simp add: d)
  qed (use assms c in \<open>simp_all add: vga_putc_def d upd cursor_ok_def\<close>)
qed

lemma display_write:
  "cursor_ok s \<Longrightarrow> display (vga_write xs s) = fold show_char xs (display s) \<and> cursor_ok (vga_write xs s)"
  by (induction xs arbitrary: s) (simp_all add: vga_write_def display_putc)

lemma display_clear: "display (vga_clear s) = (replicate ROWS (replicate COLS blank_cell), 0, 0)"
proof -
  have "fb (vga_clear s) = (\<lambda>i. if i < 2000 then blank_cell else fb s i)"
    using fill_row [of 0 blank_cell 2000 "fb s"] by (simp add: vga_clear_def fun_eq_iff)
  then have "rows (vga_clear s) = replicate ROWS (replicate COLS blank_cell)"
    by (auto simp: rows_def list_eq_iff_nth_eq)
  then show ?thesis by (simp add: display_def vga_clear_def)
qed

section \<open>The reader\<close>

text \<open>Everything but the display.\<close>

definition same_reader :: "vga \<Rightarrow> vga \<Rightarrow> bool" where
  "same_reader s t \<longleftrightarrow> v_n t = v_n s \<and> v_buf t = v_buf s \<and> v_max t = v_max s \<and> v_active t = v_active s \<and>
     v_sent t = v_sent s \<and> v_from t = v_from s \<and> kr t = kr s \<and> kr_head t = kr_head s \<and> kr_tail t = kr_tail s"

lemma putc_reader: "same_reader s (vga_putc c s)"
  by (simp add: same_reader_def vga_putc_def next_row_def set_cell_def Let_def)

lemma write_reader: "same_reader s (vga_write xs s)"
proof (induction xs arbitrary: s)
  case (Cons x xs)
  from Cons [of "vga_putc x s"] putc_reader [of s x] show ?case by (simp add: vga_write_def same_reader_def)
qed (simp add: vga_write_def same_reader_def)

definition keys :: "vga \<Rightarrow> u8 list" where
  "keys s = ring_items KRING (kr s) (kr_head s) (kr_tail s)"

definition kring_ok :: "vga \<Rightarrow> bool" where
  "kring_ok s \<longleftrightarrow> kr_head s < KRING \<and> kr_tail s < KRING"

interpretation kb: bounded_queue keys kring_ok kr_push kr_pop sint 127
proof
  fix s c
  assume ok: "kring_ok s"
  then have i: "kr_head s < KRING" "kr_tail s < KRING" by (simp_all add: kring_ok_def)
  show "kring_ok (kr_push c s)" "kring_ok (snd (kr_pop s))"
    using ok by (simp_all add: kring_ok_def kr_push_def kr_pop_def Let_def)
  show "keys (kr_push c s) = (if length (keys s) < 127 then keys s @ [c] else keys s)"
  proof (cases "(kr_head s + 1) mod KRING = kr_tail s")
    case True
    then show ?thesis using ring_full_iff [OF i] by (simp add: kr_push_def keys_def)
  next
    case False
    then have "ring_count KRING (kr_head s) (kr_tail s) < 127"
      using ring_full_iff [OF i] ring_count_bound [OF i] by auto
    with False show ?thesis
      using ring_items_put [OF i False] by (simp add: kr_push_def keys_def Let_def)
  qed
  show "keys s = [] \<Longrightarrow> kr_pop s = (- 1, s)"
    using i ring_count_0 [OF i] by (auto simp: keys_def kr_pop_def ring_items_def)
  show "keys s = c # q \<Longrightarrow> fst (kr_pop s) = sint c \<and> keys (snd (kr_pop s)) = q" for q
  proof -
    assume c: "keys s = c # q"
    then have ne: "kr_head s \<noteq> kr_tail s" using ring_count_0 [OF i] by (auto simp: keys_def ring_items_def)
    with ring_items_get [OF i ne, of "kr s"] c show ?thesis by (simp add: keys_def kr_pop_def)
  qed
qed

definition vline :: "vga \<Rightarrow> u8 list" where
  "vline s = map (v_buf s) [0..<v_n s]"

definition vga_ok :: "vga \<Rightarrow> bool" where
  "vga_ok s \<longleftrightarrow> cursor_ok s \<and> kring_ok s \<and> (\<forall>c\<in>set (keys s). c < 0x80) \<and> (v_active s \<longrightarrow> v_n s < unat (v_max s))"

text \<open>Nothing outside the text buffer, the line buffer and the key ring is written.\<close>

definition vga_inside :: "vga \<Rightarrow> vga \<Rightarrow> bool" where
  "vga_inside s t \<longleftrightarrow> v_max t = v_max s \<and> (\<forall>i\<ge>ROWS * COLS. fb t i = fb s i) \<and>
     (\<forall>i\<ge>unat (v_max s). v_buf t i = v_buf s i) \<and> (\<forall>i\<ge>KRING. kr t i = kr s i)"

lemma vga_inside_refl [simp]: "vga_inside s s"
  by (simp add: vga_inside_def)

lemma vga_inside_trans: "vga_inside s t \<Longrightarrow> vga_inside t u \<Longrightarrow> vga_inside s u"
  by (simp add: vga_inside_def)

lemma putc_inside: "cursor_ok s \<Longrightarrow> vga_inside s (vga_putc c s)"
  using putc_reader [of s c]
  by (auto simp: vga_inside_def same_reader_def cursor_ok_def vga_putc_def next_row_def set_cell_def Let_def scroll_eq)

lemma write_inside: "cursor_ok s \<Longrightarrow> vga_inside s (vga_write xs s)"
proof (induction xs arbitrary: s)
  case (Cons x xs)
  from vga_inside_trans [OF putc_inside Cons.IH, OF Cons.prems conjunct2 [OF display_putc [OF Cons.prems]]]
  show ?case by (simp add: vga_write_def)
qed (simp add: vga_write_def)

text \<open>The reference reader: the line after a key, whether it is still open, and the echo.\<close>

fun read_key :: "nat \<Rightarrow> u8 \<Rightarrow> u8 list \<Rightarrow> u8 list \<times> bool \<times> u8 list" where
  "read_key m c l =
     (if c = 0x0A then (l, False, [0x0A])
      else if c = 0x08 then (butlast l, True, if l = [] then [] else [0x08])
      else if 0x20 \<le> c \<and> c < 0x7F \<and> length l + 1 < m then (l @ [c], True, [c])
      else (l, True, []))"

fun read_keys :: "nat \<Rightarrow> u8 list \<Rightarrow> u8 list \<Rightarrow> u8 list \<times> bool \<times> u8 list \<times> u8 list" where
  "read_keys m [] l = (l, True, [], [])"
| "read_keys m (c # r) l =
     (case read_key m c l of (l', op, e) \<Rightarrow>
        if op then case read_keys m r l' of (l2, op2, e2, r2) \<Rightarrow> (l2, op2, e @ e2, r2)
        else (l', False, e, r))"

definition answered :: "vga \<Rightarrow> vga \<Rightarrow> bool" where
  "answered s t \<longleftrightarrow> v_from t = v_from s \<and> (if v_active t then v_sent t = v_sent s
     else v_sent t = v_sent s @ [(v_from s, zero_msg\<lparr>m_label := MSG_REPLY, m_data0 := of_nat (length (vline t))\<rparr>)] \<and>
       v_buf t (length (vline t)) = 0)"

lemma keys_cong: "kr t = kr s \<Longrightarrow> kr_head t = kr_head s \<Longrightarrow> kr_tail t = kr_tail s \<Longrightarrow> keys t = keys s"
  by (simp add: keys_def)

lemma length_vline [simp]: "length (vline s) = v_n s"
  by (simp add: vline_def)

definition key_ok :: "u8 \<Rightarrow> vga \<Rightarrow> vga \<Rightarrow> bool" where
  "key_ok c s t \<longleftrightarrow> (vline t, v_active t) = (fst (read_key (unat (v_max s)) c (vline s)), fst (snd (read_key (unat (v_max s)) c (vline s)))) \<and>
     display t = fold show_char (snd (snd (read_key (unat (v_max s)) c (vline s)))) (display s) \<and>
     vga_ok t \<and> vga_inside s t \<and> keys t = keys s \<and> answered s t"

lemma display_fields [simp]:
  "display (s\<lparr>v_n := n\<rparr>) = display s" "display (s\<lparr>v_buf := b\<rparr>) = display s"
  "display (s\<lparr>v_active := a\<rparr>) = display s" "display (s\<lparr>v_sent := x\<rparr>) = display s"
  "cursor_ok (s\<lparr>v_n := n\<rparr>) = cursor_ok s" "cursor_ok (s\<lparr>v_buf := b\<rparr>) = cursor_ok s"
  "cursor_ok (s\<lparr>v_active := a\<rparr>) = cursor_ok s" "cursor_ok (s\<lparr>v_sent := x\<rparr>) = cursor_ok s"
  by (simp_all add: display_def rows_def cursor_ok_def)

text \<open>A character put after a change of the line: \<open>u\<close> is the state before the output.\<close>

lemma key_put:
  assumes "vga_ok s" "v_active s" "u = s\<lparr>v_buf := b, v_n := n\<rparr>" "n < unat (v_max s)" "\<forall>i\<ge>unat (v_max s). b i = v_buf s i"
    and "read_key (unat (v_max s)) c (vline s) = (map b [0..<n], True, [c])"
  shows "key_ok c s (vga_putc c u)"
proof -
  have u: "cursor_ok u" "display u = display s" using assms(1,3) by (simp_all add: vga_ok_def)
  note r = putc_reader [of u c] and d = display_putc [OF u(1), of c]
  have k: "keys (vga_putc c u) = keys s" "kring_ok (vga_putc c u) = kring_ok s"
    using r assms(3) by (simp_all add: same_reader_def keys_def kring_ok_def)
  have "vga_inside s u" using assms(3,5) by (simp add: vga_inside_def)
  from vga_inside_trans [OF this putc_inside [OF u(1)]] have "vga_inside s (vga_putc c u)" .
  with r d u k assms(1,2,4) show ?thesis
    by (simp add: key_ok_def assms(6) del: read_key.simps)
      (simp add: assms(3) same_reader_def vga_ok_def answered_def vline_def)
qed

lemma key_enter:
  assumes "vga_ok s" "v_active s"
  shows "key_ok 0x0A s (vga_key 0x0A s)"
proof -
  let ?p = "vga_putc 0x0A s"
  have c: "cursor_ok s" "v_n s < unat (v_max s)" using assms by (simp_all add: vga_ok_def)
  note r = putc_reader [of s "0x0A"] and d = display_putc [OF c(1), of "0x0A"] and i = putc_inside [OF c(1), of "0x0A"]
  have t: "vga_key 0x0A s = ?p\<lparr>v_buf := (v_buf s)(v_n s := 0), v_active := False,
     v_sent := v_sent s @ [(v_from s, zero_msg\<lparr>m_label := MSG_REPLY, m_data0 := of_nat (v_n s)\<rparr>)]\<rparr>"
    using r by (simp add: vga_key_def Let_def same_reader_def)
  have k: "keys (vga_key 0x0A s) = keys s" "kring_ok (vga_key 0x0A s) = kring_ok s"
    using r unfolding t by (simp_all add: same_reader_def keys_def kring_ok_def)
  have v: "vline (vga_key 0x0A s) = vline s"
    using r unfolding t by (simp add: same_reader_def vline_def)
  have "vga_inside s (vga_key 0x0A s)" using i c(2) unfolding t by (simp add: vga_inside_def)
  then show ?thesis
    using r d k v assms c unfolding key_ok_def
    by (simp add: vga_ok_def answered_def) (simp add: t same_reader_def)
qed

lemma vga_key_ok:
  assumes "vga_ok s" "v_active s"
  shows "key_ok c s (vga_key c s)"
proof -
  have n: "v_n s < unat (v_max s)" using assms by (simp add: vga_ok_def)
  have same: "key_ok c s s" if "read_key (unat (v_max s)) c (vline s) = (vline s, True, [])"
    using that assms by (simp add: key_ok_def answered_def del: read_key.simps)
  consider "c = 0x0A" | "c = 0x08" "v_n s = 0" | "c = 0x08" "v_n s \<noteq> 0"
    | "c \<noteq> 0x0A" "c \<noteq> 0x08" "0x20 \<le> c" "c < 0x7F" "v_n s + 1 < unat (v_max s)"
    | "c \<noteq> 0x0A" "c \<noteq> 0x08" "\<not> (0x20 \<le> c \<and> c < 0x7F \<and> v_n s + 1 < unat (v_max s))" by blast
  then show ?thesis
  proof cases
    case 1
    with key_enter [OF assms] show ?thesis by simp
  next
    case 2
    with same show ?thesis by (simp add: vga_key_def vline_def)
  next
    case 3
    have "butlast (vline s) = map (v_buf s) [0..<v_n s - 1]" using 3 by (cases "v_n s") (simp_all add: vline_def)
    moreover have "vline s \<noteq> []" using 3 by (simp add: vline_def)
    ultimately show ?thesis
      using key_put [OF assms refl, where b = "v_buf s" and n = "v_n s - 1" and c = "0x08"] n 3 by (simp add: vga_key_def)
  next
    case 4
    have "vline s @ [c] = map ((v_buf s)(v_n s := c)) [0..<v_n s + 1]" by (simp add: vline_def)
    with 4 show ?thesis
      using key_put [OF assms refl, where b = "(v_buf s)(v_n s := c)" and n = "v_n s + 1" and c = c]
      by (simp add: vga_key_def del: upt_Suc)
  next
    case 5
    then have "vga_key c s = s" unfolding vga_key_def by auto
    moreover have "read_key (unat (v_max s)) c (vline s) = (vline s, True, [])" using 5 by auto
    ultimately show ?thesis using same by simp
  qed
qed

lemma kr_pop_frame:
  "display (snd (kr_pop s)) = display s" "cursor_ok (snd (kr_pop s)) = cursor_ok s" "vline (snd (kr_pop s)) = vline s"
  "vga_inside s (snd (kr_pop s))" "v_max (snd (kr_pop s)) = v_max s" "v_active (snd (kr_pop s)) = v_active s"
  "v_n (snd (kr_pop s)) = v_n s" "v_sent (snd (kr_pop s)) = v_sent s" "v_from (snd (kr_pop s)) = v_from s"
  by (simp_all add: kr_pop_def display_def rows_def cursor_ok_def vline_def vga_inside_def)

lemma low_char: "(c :: u8) < 0x80 \<Longrightarrow> 0 \<le> sint c \<and> word_of_int (sint c) = c"
proof -
  assume "c < 0x80"
  then have "uint c < 128" by (simp add: word_less_def)
  moreover have "- (2 ^ 7) \<le> uint c" by (rule order_trans [OF _ unsigned_greater_eq]) simp
  ultimately have "sint c = uint c" by (simp add: sint_uint signed_take_bit_int_eq_self)
  then show ?thesis by simp
qed

lemma vga_loop_run:
  assumes "vga_ok s" "v_active s"
  shows "\<exists>t e. vga_loop s = Some t \<and> vga_ok t \<and> vga_inside s t \<and> answered s t \<and> display t = fold show_char e (display s) \<and>
    (vline t, v_active t, e, keys t) = read_keys (unat (v_max s)) (keys s) (vline s)"
  using assms
proof (induction "keys s" arbitrary: s)
  case Nil
  then have "kr_pop s = (- 1, s)" using kb.pop_empty [of s] by (simp add: vga_ok_def)
  then have "vga_loop s = Some s" by (subst vga_loop.simps) simp
  with Nil show ?case by (auto simp: answered_def)
next
  case (Cons c r)
  let ?p = "snd (kr_pop s)"
  let ?u = "vga_key c ?p"
  have low: "0 \<le> sint c" "word_of_int (sint c) = c"
    using Cons.prems(1) low_char [of c] by (auto simp: vga_ok_def simp flip: Cons.hyps(2))
  have pop: "fst (kr_pop s) = sint c" "keys ?p = r" "kring_ok ?p"
    using kb.pop_items [of s c r] kb.pop_ok [of s] Cons.hyps(2) Cons.prems(1) by (auto simp: vga_ok_def)
  have loop: "vga_loop s = (if v_active ?u then vga_loop ?u else Some ?u)"
    using low by (subst vga_loop.simps) (simp add: case_prod_beta pop(1))
  have "vga_ok ?p" "v_active ?p"
    using Cons.prems pop(2,3) by (auto simp: vga_ok_def kr_pop_frame simp flip: Cons.hyps(2))
  note k = vga_key_ok [OF this, of c, unfolded key_ok_def kr_pop_frame]
  let ?k = "read_key (unat (v_max s)) c (vline s)"
  have u: "vga_ok ?u" "vga_inside s ?u" "keys ?u = r" "answered s ?u" "vline ?u = fst ?k" "v_active ?u = fst (snd ?k)"
    "display ?u = fold show_char (snd (snd ?k)) (display s)"
    using k pop(2) vga_inside_trans [OF kr_pop_frame(4)] by (auto simp: answered_def kr_pop_frame simp del: read_key.simps)
  have rk: "read_keys (unat (v_max s)) (c # r) (vline s) =
     (if v_active ?u then case read_keys (unat (v_max s)) r (vline ?u) of (l2, op2, e2, r2) \<Rightarrow> (l2, op2, snd (snd ?k) @ e2, r2)
      else (vline ?u, False, snd (snd ?k), r))"
    unfolding u(5,6) by (simp add: case_prod_beta del: read_key.simps)
  show ?case
  proof (cases "v_active ?u")
    case True
    from Cons.hyps(1) [OF u(3) [symmetric] u(1) True] obtain t e where t: "vga_loop ?u = Some t" "vga_ok t" "vga_inside ?u t"
      "answered ?u t" "display t = fold show_char e (display ?u)"
      "(vline t, v_active t, e, keys t) = read_keys (unat (v_max ?u)) r (vline ?u)"
      unfolding u(3) by blast
    have "v_max ?u = v_max s" using u(2) by (simp add: vga_inside_def)
    then have "(vline t, v_active t, snd (snd ?k) @ e, keys t) = read_keys (unat (v_max s)) (keys s) (vline s)"
      unfolding Cons.hyps(2) [symmetric] rk using t(6) [symmetric] True by simp
    moreover have "answered s t" using t(4) u(4) True by (simp add: answered_def split: if_splits)
    moreover have "display t = fold show_char (snd (snd ?k) @ e) (display s)" by (simp add: t(5) u(7))
    moreover have "vga_loop s = Some t" using loop True t(1) by simp
    ultimately show ?thesis using t(2) vga_inside_trans [OF u(2) t(3)] by blast
  next
    case False
    then have "(vline ?u, v_active ?u, snd (snd ?k), keys ?u) = read_keys (unat (v_max s)) (keys s) (vline s)"
      unfolding Cons.hyps(2) [symmetric] rk by (simp add: u(3))
    with loop False u show ?thesis by (auto simp del: read_key.simps)
  qed
qed

section \<open>Properties\<close>

lemma scan_chars: "i < 0x3A \<Longrightarrow> map_lo ! i < 0x80" "i < 0x3A \<Longrightarrow> map_hi ! i < 0x80"
proof -
  have "\<forall>c\<in>set map_lo. c < 0x80" "\<forall>c\<in>set map_hi. c < 0x80" "length map_lo = 0x3A" "length map_hi = 0x3A"
    by (simp_all add: map_lo_def map_hi_def)
  then show "i < 0x3A \<Longrightarrow> map_lo ! i < 0x80" "i < 0x3A \<Longrightarrow> map_hi ! i < 0x80" by (auto dest: nth_mem)
qed

lemma kr_push_ok:
  assumes "vga_ok s" "c < 0x80"
  shows "vga_ok (kr_push c s)" "vga_inside s (kr_push c s)"
proof -
  have k: "kring_ok s" using assms(1) by (simp add: vga_ok_def)
  have same: "cursor_ok (kr_push c s) = cursor_ok s" "v_active (kr_push c s) = v_active s" "v_n (kr_push c s) = v_n s"
    "v_max (kr_push c s) = v_max s" by (simp_all add: kr_push_def cursor_ok_def Let_def)
  show "vga_ok (kr_push c s)"
    using kb.push_items [OF k, of c] kb.push_ok [OF k, of c] assms by (auto simp: vga_ok_def same)
  show "vga_inside s (kr_push c s)" using k by (simp add: vga_inside_def kr_push_def kring_ok_def Let_def)
qed

lemma kbd_drain_ok:
  assumes "vga_ok s"
  shows "vga_ok (kbd_drain scan s)" "vga_inside s (kbd_drain scan s)"
proof -
  have sh: "vga_ok (s\<lparr>shift := b\<rparr>) = vga_ok s" "vga_inside s (s\<lparr>shift := b\<rparr>)" for b
    by (simp_all add: vga_ok_def cursor_ok_def kring_ok_def keys_def vga_inside_def)
  have "(if shift s then map_hi else map_lo) ! unat scan < 0x80" if "\<not> 0x3A \<le> scan"
    using that scan_chars [of "unat scan"] by (auto simp: not_le word_less_nat_alt)
  then show "vga_ok (kbd_drain scan s)" "vga_inside s (kbd_drain scan s)"
    using assms sh kr_push_ok by (auto simp: kbd_drain_def Let_def)
qed

lemma kbd_drain_frame:
  "display (kbd_drain scan s) = display s" "vline (kbd_drain scan s) = vline s" "v_max (kbd_drain scan s) = v_max s"
  "v_active (kbd_drain scan s) = v_active s" "v_sent (kbd_drain scan s) = v_sent s" "v_from (kbd_drain scan s) = v_from s"
  by (simp_all add: kbd_drain_def kr_push_def Let_def display_def rows_def vline_def)

lemma vga_edit_ok: "vga_ok s \<Longrightarrow> \<exists>t. vga_edit s = Some t \<and> vga_ok t \<and> vga_inside s t"
  using vga_loop_run [of s] by (auto simp: vga_edit_def)

lemma vga_request_ok:
  "vga_ok s \<Longrightarrow> ucast (m_data1 m) \<noteq> (0 :: u32) \<Longrightarrow> vga_ok (vga_request b from m s)"
  by (auto simp: vga_ok_def vga_request_def cursor_ok_def kring_ok_def keys_def unat_eq_0 intro: gr0I)

definition demo_vga :: vga where
  "demo_vga = \<lparr>fb = \<lambda>_. blank_cell, cur_r = 0, cur_c = 79, shift = False, kr = \<lambda>_. 0, kr_head = 0, kr_tail = 0,
     v_active = True, v_from = 7, v_buf = \<lambda>_. 0, v_max = 100, v_n = 0, v_sent = []\<rparr>"

lemma demo_vga_ok: "vga_ok demo_vga" "v_active demo_vga" "keys demo_vga = []"
  by (simp_all add: vga_ok_def demo_vga_def cursor_ok_def kring_ok_def keys_def ring_items_def ring_count_def)

text \<open>C26: The terminal server handles every message except a READLINE whose buffer has length 0 (in
  which Enter stores the NUL past the end): it returns to its loop, the cursor stays on the screen,
  and it writes only the 2000 cells of the text buffer, its key ring and the client's line buffer,
  never past its end.\<close>

theorem vga_safe:
  assumes "vga_ok s" and "m_label m = MSG_READLINE \<Longrightarrow> ucast (m_data1 m) \<noteq> (0 :: u32)"
  shows "\<exists>t. vga_step mem scan from m s = Some t \<and> vga_ok t \<and>
    vga_inside (if m_label m = MSG_READLINE then vga_request (mem (m_data0 m)) from m s else s) t"
proof -
  consider "m_label m = MSG_IRQ" | "m_label m = MSG_WRITE" | "m_label m = MSG_READLINE"
    | "m_label m \<notin> {MSG_IRQ, MSG_WRITE, MSG_READLINE}" by blast
  then show ?thesis
  proof cases
    case 1
    with vga_edit_ok [OF kbd_drain_ok(1) [OF assms(1), of scan]] vga_inside_trans [OF kbd_drain_ok(2) [OF assms(1), of scan]]
    show ?thesis by (fastforce simp: vga_step_def)
  next
    case 2
    let ?xs = "map (mem (m_data0 m)) [0..<unat (ucast (m_data1 m) :: u32)]"
    have c: "cursor_ok s" using assms(1) by (simp add: vga_ok_def)
    have "vga_ok (vga_write ?xs s)"
      using write_reader [of s ?xs] display_write [OF c, of ?xs] assms(1)
      by (simp add: same_reader_def vga_ok_def kring_ok_def keys_def)
    with write_inside [OF c, of ?xs] 2 show ?thesis
      by (simp add: vga_step_def vga_ok_def kring_ok_def keys_def vga_inside_def Let_def)
  next
    case 3
    with vga_edit_ok [OF vga_request_ok [OF assms(1) assms(2) [OF 3]]] show ?thesis by (simp add: vga_step_def)
  qed (use assms(1) in \<open>auto simp: vga_step_def\<close>)
qed

theorem vga_safe_witness:
  "\<exists>t. vga_step (\<lambda>_ _. 0) 0 9 (con_readline 0x1000 8) demo_vga = Some t \<and> vga_ok t"
  using vga_safe [OF demo_vga_ok(1), of "con_readline 0x1000 8" "\<lambda>_ _. 0" 0 9]
  by (auto simp: con_readline_def zero_msg_def)

text \<open>C25: What the server writes is what a terminal of 25 rows of 80 columns shows: text goes to the
  cursor, lines wrap at column 80, and a line feed in the last row moves every row up by one and
  clears the last.\<close>

theorem vga_write_display:
  assumes "vga_ok s" and "m_label m = MSG_WRITE" and "vga_step mem scan from m s = Some t"
  shows "display t = fold show_char (map (mem (m_data0 m)) [0..<unat (ucast (m_data1 m) :: u32)]) (display s)"
  using assms display_write [of s "map (mem (m_data0 m)) [0..<unat (ucast (m_data1 m) :: u32)]"]
  by (auto simp: vga_step_def vga_ok_def Let_def)

theorem vga_write_display_witness:
  "\<exists>t. vga_step (\<lambda>_ i. if i = 0 then 0x61 else 0x62) 0 9 (con_write 0x1000 2) demo_vga = Some t \<and>
     cur_r t = 1 \<and> cur_c t = 1 \<and> rows t ! 0 ! 79 = cell 0x61"
proof -
  let ?mem = "\<lambda>(_ :: u64) i :: nat. if i = 0 then 0x61 else (0x62 :: u8)"
  obtain t where t: "vga_step ?mem 0 9 (con_write 0x1000 2) demo_vga = Some t"
    by (auto simp: vga_step_def con_write_def zero_msg_def Let_def)
  have d: "display t = fold show_char (map (?mem (m_data0 (con_write 0x1000 2))) [0..<unat (ucast (m_data1 (con_write 0x1000 2)) :: u32)]) (display demo_vga)"
    by (rule vga_write_display [OF demo_vga_ok(1) _ t]) (simp add: con_write_def zero_msg_def)
  have "map (?mem (m_data0 (con_write 0x1000 2))) [0..<unat (ucast (m_data1 (con_write 0x1000 2)) :: u32)] = [0x61, 0x62]"
    by (simp add: con_write_def upt_rec)
  moreover have "display demo_vga = (rows demo_vga, 0, 79)" by (simp add: display_def demo_vga_def)
  ultimately have "cur_r t = 1 \<and> cur_c t = 1 \<and> rows t ! 0 ! 79 = cell 0x61"
    using d by (simp add: display_def rows_nth)
  with t show ?thesis by blast
qed

text \<open>C24: While a client reads a line, the server does with the keys what the reference reader does:
  letters are added while they fit, backspace removes the last one, Enter ends the line and sends
  the reply with its length; the keys behind it stay for the next reader, and the display shows the
  echo of every key.\<close>

theorem vga_reads:
  assumes "vga_ok s" and "v_active s" and "m_label m = MSG_IRQ"
  shows "\<exists>t e. vga_step mem scan from m s = Some t \<and> answered s t \<and> display t = fold show_char e (display s) \<and>
    (vline t, v_active t, e, keys t) = read_keys (unat (v_max s)) (keys (kbd_drain scan s)) (vline s)"
proof -
  let ?d = "kbd_drain scan s"
  have "vga_step mem scan from m s = vga_loop ?d" using assms(2,3) by (simp add: vga_step_def vga_edit_def kbd_drain_frame)
  moreover have "answered ?d t = answered s t" for t by (simp add: answered_def kbd_drain_frame)
  ultimately show ?thesis
    using vga_loop_run [OF kbd_drain_ok(1) [OF assms(1)], of scan] assms(2) by (auto simp: kbd_drain_frame)
qed

theorem vga_reads_witness:
  "\<exists>t. vga_step (\<lambda>_ _. 0) 0x1E 9 (zero_msg\<lparr>m_label := MSG_IRQ\<rparr>) demo_vga = Some t \<and> vline t = [0x61] \<and> v_active t"
proof -
  have k: "keys (kbd_drain 0x1E demo_vga) = [0x61]" "vline demo_vga = []" "v_max demo_vga = 100"
    by (simp_all add: kbd_drain_def demo_vga_def map_lo_def kr_push_def keys_def ring_items_def ring_count_def vline_def)
  show ?thesis
    using vga_reads [OF demo_vga_ok(1,2), of "zero_msg\<lparr>m_label := MSG_IRQ\<rparr>" "\<lambda>_ _. 0" "0x1E" 9] k
    by (auto simp: zero_msg_def)
qed

text \<open>Backspace does not cross the edge of the screen: a character typed into the last column is
  taken from the line by the next backspace, but stays on the display.\<close>

theorem wrapped_char_stays:
  assumes "vga_ok s" and "v_active s" and "v_n s + 1 < unat (v_max s)" and "0x20 \<le> c" and "c < 0x7F"
    and "cur_c s = COLS - 1" and "cur_r s < ROWS - 1" and "t = vga_key 0x08 (vga_key c s)"
  shows "vline t = vline s \<and> rows t ! cur_r s ! cur_c s = cell c \<and> cur_r t = cur_r s + 1 \<and> cur_c t = 0"
proof -
  let ?u = "vga_key c s"
  have ne: "c \<noteq> 0x0A" "c \<noteq> 0x08" "c \<noteq> 0x0D" using assms(4,5) by auto
  have rk: "read_key (unat (v_max s)) c (vline s) = (vline s @ [c], True, [c])"
    using assms(3-5) ne by simp
  have u: "vline ?u = vline s @ [c]" "v_active ?u" "display ?u = show_char c (display s)" "vga_ok ?u"
    using vga_key_ok [OF assms(1,2), of c] by (simp_all add: key_ok_def rk del: read_key.simps)
  have d: "display ?u = ((rows s)[cur_r s := (rows s ! cur_r s)[cur_c s := cell c]], cur_r s + 1, 0)"
    using assms(6,7) ne by (simp add: u(3)) (simp add: display_def)
  have t: "vline t = butlast (vline ?u)" "display t = (if vline ?u = [] then display ?u else show_char 0x08 (display ?u))"
    using vga_key_ok [OF u(4,2), of "0x08"] by (auto simp: key_ok_def assms(8))
  have "length (rows s ! cur_r s) = COLS" using assms(7) by (simp add: rows_nth)
  with t d u(1) assms(6,7) show ?thesis by (simp add: display_def)
qed

theorem wrapped_char_stays_witness:
  "vline (vga_key 0x08 (vga_key 0x61 demo_vga)) = vline demo_vga \<and>
   rows (vga_key 0x08 (vga_key 0x61 demo_vga)) ! 0 ! 79 = cell 0x61"
proof -
  have "v_n demo_vga + 1 < unat (v_max demo_vga)" "cur_c demo_vga = 79" "cur_r demo_vga = 0"
    by (simp_all add: demo_vga_def)
  with wrapped_char_stays [OF demo_vga_ok(1,2), of "0x61"] show ?thesis by simp
qed

end
