(* ===== verification/BlockDrv.thy ===== *)
theory BlockDrv
  imports Usys
begin

text \<open>
  The block driver (\<^verbatim>\<open>drivers/block/main.c\<close>).  The drive is what the driver reads
  from it: the values of the status register, in the order they are read, and the words of the
  data register.  \<open>None\<close> is a polling loop that is still waiting when the status values end.
\<close>

abbreviation ATA_DATA :: u16 where "ATA_DATA \<equiv> 0x1F0"
abbreviation ATA_SECCNT :: u16 where "ATA_SECCNT \<equiv> 0x1F2"
abbreviation ATA_LBA0 :: u16 where "ATA_LBA0 \<equiv> 0x1F3"
abbreviation ATA_LBA1 :: u16 where "ATA_LBA1 \<equiv> 0x1F4"
abbreviation ATA_LBA2 :: u16 where "ATA_LBA2 \<equiv> 0x1F5"
abbreviation ATA_DRIVE :: u16 where "ATA_DRIVE \<equiv> 0x1F6"
abbreviation ATA_CMD :: u16 where "ATA_CMD \<equiv> 0x1F7"
abbreviation ST_ERR :: u8 where "ST_ERR \<equiv> 0x01"
abbreviation ST_DRQ :: u8 where "ST_DRQ \<equiv> 0x08"
abbreviation ST_BSY :: u8 where "ST_BSY \<equiv> 0x80"

fun wait_ready :: "u8 list \<Rightarrow> u8 list option" where
  "wait_ready [] = None"
| "wait_ready (s # sts) = (if s AND ST_BSY \<noteq> 0 then wait_ready sts else Some sts)"

fun wait_data :: "u8 list \<Rightarrow> u8 option" where
  "wait_data [] = None"
| "wait_data (s # sts) =
     (if s AND ST_BSY \<noteq> 0 \<or> s AND ST_DRQ = 0 \<and> s AND ST_ERR = 0 then wait_data sts else Some s)"

definition ata_command :: "u64 \<Rightarrow> outs" where
  "ata_command lba = [(ATA_DRIVE, ucast (0xE0 OR (drop_bit 24 lba AND 0x0F))), (ATA_SECCNT, 1),
     (ATA_LBA0, ucast (lba AND 0xFF)), (ATA_LBA1, ucast (drop_bit 8 lba AND 0xFF)),
     (ATA_LBA2, ucast (drop_bit 16 lba AND 0xFF)), (ATA_CMD, 0x20)]"

text \<open>The result is the writes made, the return value and the words stored to the buffer.\<close>

definition ata_read1 :: "u64 \<Rightarrow> u8 list \<Rightarrow> (nat \<Rightarrow> u16) \<Rightarrow> (outs \<times> int \<times> u16 list) option" where
  "ata_read1 lba sts data =
     (case wait_ready sts of
        None \<Rightarrow> None
      | Some rest \<Rightarrow>
        case wait_data rest of
          None \<Rightarrow> None
        | Some s \<Rightarrow>
            if s AND ST_ERR \<noteq> 0 then Some (ata_command lba, - 1, [])
            else Some (ata_command lba, 0, map data [0..<256]))"

text \<open>
  One turn of the server loop: the reply, and the bytes stored at the buffer the message names,
  if any.  Other messages get no reply.
\<close>

definition word_bytes :: "u16 list \<Rightarrow> u8 list" where
  "word_bytes ws = concat (map (\<lambda>w. [ucast w, ucast (drop_bit 8 w)]) ws)"

type_synonym drive = "u64 \<Rightarrow> u8 list \<times> (nat \<Rightarrow> u16)"

definition blk_serve :: "drive \<Rightarrow> ipc_msg \<Rightarrow> (ipc_msg \<times> u8 list option) option" where
  "blk_serve drv m =
     (if m_label m = MSG_BREAD then
        case drv (m_data0 m) of (sts, data) \<Rightarrow>
        case ata_read1 (m_data0 m) sts data of
          None \<Rightarrow> None
        | Some (os, rc, ws) \<Rightarrow>
            Some (zero_msg\<lparr>m_label := MSG_REPLY, m_data0 := c_ret rc\<rparr>,
              if rc = 0 then Some (word_bytes ws) else None)
      else None)"

section \<open>What the driver tells the drive\<close>

text \<open>The sector number the drive's registers hold after the writes.\<close>

definition lba_regs :: "outs \<Rightarrow> u64" where
  "lba_regs os = (let r = (\<lambda>p. ucast (the (map_of os p)) :: u64) in
     push_bit 24 (r ATA_DRIVE AND 0x0F) OR push_bit 16 (r ATA_LBA2) OR push_bit 8 (r ATA_LBA1) OR r ATA_LBA0)"

lemma lba_regs_command: "lba_regs (ata_command lba) = take_bit 28 lba"
proof (rule bit_word_eqI)
  fix n :: nat assume n: "n < LENGTH(64)"
  have m: "(0x0F :: u64) = mask 4" "(0xFF :: u64) = mask 8" by (simp_all add: mask_eq_exp_minus_1)
  have e: "bit (0xE0 :: u64) k \<Longrightarrow> 4 \<le> k" for k
  proof -
    have "(0xE0 :: u64) = push_bit 4 0xE" by simp
    moreover assume "bit (0xE0 :: u64) k"
    ultimately have "bit (push_bit 4 (0xE :: u64)) k" by simp
    then show "4 \<le> k" by (simp only: bit_push_bit_iff)
  qed
  define c :: u64 where "c = 0xE0"
  have c: "k < 4 \<Longrightarrow> \<not> bit c k" for k using e [of k] unfolding c_def by auto
  have drive: "ucast (ucast (c OR (drop_bit 24 lba AND mask 4)) :: u8) AND mask 4 = (drop_bit 24 lba AND mask 4 :: u64)"
    by (auto intro!: bit_word_eqI simp: c bit_and_iff bit_or_iff bit_ucast_iff bit_mask_iff bit_drop_bit_eq)
  have byte: "ucast (ucast (x AND mask 8 :: u64) :: u8) = (x AND mask 8 :: u64)" for x
    by (auto intro!: bit_word_eqI simp: bit_and_iff bit_ucast_iff bit_mask_iff)
  have "lba_regs (ata_command lba) = push_bit 24 (drop_bit 24 lba AND mask 4) OR push_bit 16 (drop_bit 16 lba AND mask 8) OR
      push_bit 8 (drop_bit 8 lba AND mask 8) OR (lba AND mask 8)"
    unfolding lba_regs_def ata_command_def Let_def m c_def [symmetric] by (simp add: byte drive)
  moreover have "bit (push_bit 24 (drop_bit 24 lba AND mask 4)) n \<longleftrightarrow> 24 \<le> n \<and> n < 28 \<and> bit lba n"
    "bit (push_bit 16 (drop_bit 16 lba AND mask 8)) n \<longleftrightarrow> 16 \<le> n \<and> n < 24 \<and> bit lba n"
    "bit (push_bit 8 (drop_bit 8 lba AND mask 8)) n \<longleftrightarrow> 8 \<le> n \<and> n < 16 \<and> bit lba n"
    "bit (lba AND mask 8) n \<longleftrightarrow> n < 8 \<and> bit lba n"
    using n by (auto simp: bit_push_bit_iff bit_and_iff bit_mask_iff bit_drop_bit_eq)
  ultimately show "bit (lba_regs (ata_command lba)) n = bit (take_bit 28 lba) n"
    by (simp only: bit_or_iff bit_take_bit_iff) auto
qed

lemma wait_ready_some: "s \<in> set sts \<Longrightarrow> s AND ST_BSY = 0 \<Longrightarrow> \<exists>rest. wait_ready sts = Some rest"
  by (induction sts) auto

lemma wait_data_status:
  "wait_data sts = Some s \<Longrightarrow> s \<in> set sts \<and> s AND ST_BSY = 0 \<and> (s AND ST_DRQ \<noteq> 0 \<or> s AND ST_ERR \<noteq> 0)"
  by (induction sts) (auto split: if_splits)

lemma wait_ready_first: "list_all (\<lambda>s. s AND ST_BSY \<noteq> 0) bs \<Longrightarrow> r AND ST_BSY = 0 \<Longrightarrow> wait_ready (bs @ r # sts) = Some sts"
  by (induction bs) auto

lemma wait_data_first:
  "list_all (\<lambda>s. s AND ST_BSY \<noteq> 0 \<or> s AND ST_DRQ = 0 \<and> s AND ST_ERR = 0) bs \<Longrightarrow> s AND ST_BSY = 0 \<Longrightarrow>
   s AND ST_DRQ \<noteq> 0 \<or> s AND ST_ERR \<noteq> 0 \<Longrightarrow> wait_data (bs @ s # sts) = Some s"
  by (induction bs) auto

lemma length_word_bytes: "length (word_bytes ws) = 2 * length ws"
  by (induction ws) (auto simp: word_bytes_def)

lemma word_bytes_nth:
  "i < 2 * length ws \<Longrightarrow> word_bytes ws ! i = (if even i then ucast (ws ! (i div 2)) else ucast (drop_bit 8 (ws ! (i div 2))))"
proof (induction ws arbitrary: i)
  case (Cons w ws)
  show ?case
  proof (cases i)
    case (Suc k)
    show ?thesis
    proof (cases k)
      case 0
      then show ?thesis by (simp add: Suc word_bytes_def)
    next
      case (Suc l)
      then show ?thesis using Cons.IH [of l] Cons.prems \<open>i = Suc k\<close> by (simp add: word_bytes_def)
    qed
  qed (simp add: word_bytes_def)
qed simp

section \<open>A drive that holds given sectors\<close>

text \<open>
  A drive that answers each request at once, with the words of the sector whose number its
  registers hold.
\<close>

definition sector_words :: "u8 list \<Rightarrow> nat \<Rightarrow> u16" where
  "sector_words sec i = ucast (sec ! (2 * i)) OR push_bit 8 (ucast (sec ! (2 * i + 1)))"

definition ata_drive :: "(u64 \<Rightarrow> u8 list) \<Rightarrow> drive" where
  "ata_drive disk lba = ([0x50, 0x58], sector_words (disk (lba_regs (ata_command lba))))"

lemma sector_words_bytes:
  assumes "length sec = 512"
  shows "word_bytes (map (sector_words sec) [0..<256]) = sec"
proof (rule nth_equalityI)
  show "length (word_bytes (map (sector_words sec) [0..<256])) = length sec"
    using assms by (simp add: length_word_bytes)
  fix i assume "i < length (word_bytes (map (sector_words sec) [0..<256]))"
  then have i: "i < 512" by (simp add: length_word_bytes)
  have nb: "\<not> bit (b :: u8) (8 + n)" for b n by (auto dest: bit_imp_le_length)
  have "ucast (sector_words sec k) = sec ! (2 * k)" "ucast (drop_bit 8 (sector_words sec k)) = sec ! (2 * k + 1)" for k
    by (auto intro!: bit_word_eqI simp: nb sector_words_def bit_or_iff bit_ucast_iff bit_push_bit_iff
        bit_drop_bit_eq)
  then show "word_bytes (map (sector_words sec) [0..<256]) ! i = sec ! i"
    using i by (simp add: word_bytes_nth)
qed

lemma blk_serve_drive:
  assumes "length (disk (take_bit 28 lba)) = 512"
  shows "blk_serve (ata_drive disk) (zero_msg\<lparr>m_label := MSG_BREAD, m_data0 := lba, m_data1 := p\<rparr>) =
    Some (zero_msg\<lparr>m_label := MSG_REPLY\<rparr>, Some (disk (take_bit 28 lba)))"
  using sector_words_bytes [OF assms]
  by (simp add: blk_serve_def ata_drive_def ata_read1_def zero_msg_def lba_regs_command)

section \<open>Properties\<close>

text \<open>C36: A read names to the drive the low 28 bits of the sector number, waits as long as the drive
  is busy, and returns the 256 words of the data register, or -1 when the drive reports an error; a
  drive that is ready, and then has data or an error, lets it return.\<close>

theorem ata_read1_correct:
  assumes "list_all (\<lambda>s. s AND ST_BSY \<noteq> 0) b1" and "r AND ST_BSY = 0"
    and "list_all (\<lambda>s. s AND ST_BSY \<noteq> 0 \<or> s AND ST_DRQ = 0 \<and> s AND ST_ERR = 0) b2"
    and "s AND ST_BSY = 0" and "s AND ST_DRQ \<noteq> 0 \<or> s AND ST_ERR \<noteq> 0"
  shows "\<exists>os. ata_read1 lba (b1 @ r # b2 @ s # rest) data =
      Some (os, if s AND ST_ERR \<noteq> 0 then (- 1, []) else (0, map data [0..<256])) \<and>
    lba_regs os = take_bit 28 lba \<and> last os = (ATA_CMD, 0x20)"
  using wait_ready_first [OF assms(1,2), of "b2 @ s # rest"] wait_data_first [OF assms(3-5), of rest]
  by (auto simp: ata_read1_def lba_regs_command) (simp_all add: ata_command_def)

theorem ata_read1_correct_witness:
  "\<exists>os. ata_read1 0x12345678 [0x80, 0x50, 0x80, 0x58] (\<lambda>i. of_nat i) =
     Some (os, 0, map of_nat [0..<256]) \<and> lba_regs os = 0x2345678"
  using ata_read1_correct [of "[0x80]" "0x50" "[0x80]" "0x58" "0x12345678" "[]" "\<lambda>i. of_nat i"] by auto

end
