(* ===== verification/FsServer.thy ===== *)
theory FsServer
  imports BlockDrv
begin

text \<open>
  The file server (\<^verbatim>\<open>servers/fs_server/main.c\<close>): USTAR archives read through the
  block service.  The service is the function \<open>srv\<close> from a request to its reply and the bytes
  it stores at the buffer the request names (\<open>None\<close> when it never replies).  A client buffer
  is the memory from its address on.
\<close>

type_synonym blk_service = "ipc_msg \<Rightarrow> (ipc_msg \<times> u8 list option) option"
type_synonym buffer = "nat \<Rightarrow> u8"

record fent =
  data_lba :: u64
  f_size :: u64
  f_used :: bool

record fs =
  ftab :: "nat \<Rightarrow> fent"
  hdr :: "u8 list"
  bounce :: "u8 list"
  a_hdr :: u64
  a_bounce :: u64

definition blk_read :: "blk_service \<Rightarrow> u64 \<Rightarrow> u64 \<Rightarrow> (int \<times> u8 list option) option" where
  "blk_read srv lba p =
     map_option (\<lambda>(r, w). (c_int (m_data0 r), w))
       (srv (zero_msg\<lparr>m_label := MSG_BREAD, m_data0 := lba, m_data1 := p\<rparr>))"

definition or_old :: "u8 list option \<Rightarrow> u8 list \<Rightarrow> u8 list" where
  "or_old w old = (case w of Some xs \<Rightarrow> xs | None \<Rightarrow> old)"

section \<open>Headers\<close>

fun parse_octal_from :: "u64 \<Rightarrow> u8 list \<Rightarrow> nat \<Rightarrow> u64" where
  "parse_octal_from v p 0 = v"
| "parse_octal_from v p (Suc n) =
     (if 0x30 \<le> c0 p \<and> c0 p \<le> 0x37
      then parse_octal_from (push_bit 3 v + ucast (c0 p - 0x30)) (tl p) n else v)"

definition parse_octal :: "u8 list \<Rightarrow> nat \<Rightarrow> u64" where
  "parse_octal p n = parse_octal_from 0 p n"

definition name_eq :: "u8 list \<Rightarrow> u8 list \<Rightarrow> bool" where
  "name_eq a b = str_eq a b"

definition hdr_size :: "u8 list \<Rightarrow> u64" where
  "hdr_size h = parse_octal (drop 124 h) 12"

section \<open>Open\<close>

definition alloc_handle :: "u64 \<Rightarrow> u64 \<Rightarrow> fs \<Rightarrow> fs \<times> int" where
  "alloc_handle lba sz s =
     (case first_fit (\<lambda>i. \<not> f_used (ftab s i)) 8 of
        Some i \<Rightarrow> (s\<lparr>ftab := (ftab s)(i := \<lparr>data_lba = lba, f_size = sz, f_used = True\<rparr>)\<rparr>, int i)
      | None \<Rightarrow> (s, - 1))"

partial_function (option) open_from :: "blk_service \<Rightarrow> u8 list \<Rightarrow> u64 \<Rightarrow> fs \<Rightarrow> (fs \<times> int) option" where
  "open_from srv path lba s =
     (case blk_read srv lba (a_hdr s) of
        None \<Rightarrow> None
      | Some (rc, w) \<Rightarrow>
        let h = or_old w (hdr s); s1 = s\<lparr>hdr := h\<rparr> in
        if rc \<noteq> 0 \<or> c0 h = 0 then Some (s1, - 1)
        else if name_eq h path then Some (alloc_handle (lba + 1) (hdr_size h) s1)
        else open_from srv path (lba + 1 + (hdr_size h + 511) div 512) s1)"

definition fs_open :: "blk_service \<Rightarrow> u8 list \<Rightarrow> fs \<Rightarrow> (fs \<times> int) option" where
  "fs_open srv path s = open_from srv path 0 s"

section \<open>Read\<close>

definition store_at :: "nat \<Rightarrow> u8 list \<Rightarrow> buffer \<Rightarrow> buffer" where
  "store_at off xs b = (\<lambda>i. if off \<le> i \<and> i < off + length xs then xs ! (i - off) else b i)"

fun read_full :: "blk_service \<Rightarrow> u64 \<Rightarrow> u64 \<Rightarrow> nat \<Rightarrow> buffer \<Rightarrow> buffer option" where
  "read_full srv lba p 0 b = Some b"
| "read_full srv lba p (Suc n) b =
     (case read_full srv lba p n b of
        None \<Rightarrow> None
      | Some b1 \<Rightarrow>
        case blk_read srv (lba + of_nat n) (p + of_nat n * 512) of
          None \<Rightarrow> None
        | Some (rc, w) \<Rightarrow> Some (case w of Some xs \<Rightarrow> store_at (512 * n) xs b1 | None \<Rightarrow> b1))"

definition fs_read :: "blk_service \<Rightarrow> int \<Rightarrow> u64 \<Rightarrow> buffer \<Rightarrow> u64 \<Rightarrow> fs \<Rightarrow> (fs \<times> buffer \<times> u64) option" where
  "fs_read srv h p b max_n s =
     (if h < 0 \<or> h \<ge> 8 \<or> \<not> f_used (ftab s (nat h)) then Some (s, b, ERR)
      else
        let e = ftab s (nat h);
            size = (if f_size e > max_n then max_n else f_size e);
            full = size div 512; rem = size - full * 512
        in case read_full srv (data_lba e) p (unat full) b of
             None \<Rightarrow> None
           | Some b1 \<Rightarrow>
             if rem = 0 then Some (s, b1, size)
             else case blk_read srv (data_lba e + full) (a_bounce s) of
                    None \<Rightarrow> None
                  | Some (rc, w) \<Rightarrow>
                    let bn = or_old w (bounce s)
                    in Some (s\<lparr>bounce := bn\<rparr>, store_at (512 * unat full) (take (unat rem) bn) b1, size))"

section \<open>List\<close>

fun copy_name :: "u8 list \<Rightarrow> u64 \<Rightarrow> u64 \<Rightarrow> buffer \<Rightarrow> u64 \<times> buffer" where
  "copy_name [] max_n out b = (out, b)"
| "copy_name (c # name) max_n out b =
     (if c \<noteq> 0 \<and> out + 2 < max_n then copy_name name max_n (out + 1) (b(unat out := c)) else (out, b))"

partial_function (option) list_from ::
    "blk_service \<Rightarrow> u64 \<Rightarrow> u64 \<Rightarrow> u64 \<Rightarrow> buffer \<Rightarrow> fs \<Rightarrow> (fs \<times> buffer \<times> u64) option" where
  "list_from srv max_n lba out b s =
     (case blk_read srv lba (a_hdr s) of
        None \<Rightarrow> None
      | Some (rc, w) \<Rightarrow>
        let h = or_old w (hdr s); s1 = s\<lparr>hdr := h\<rparr> in
        if rc \<noteq> 0 \<or> c0 h = 0 then Some (s1, b, out)
        else case copy_name h max_n out b of (out1, b1) \<Rightarrow>
          let (out2, b2) = (if out1 + 1 < max_n then (out1 + 1, b1(unat out1 := 0x0A)) else (out1, b1))
          in list_from srv max_n (lba + 1 + (hdr_size h + 511) div 512) out2 b2 s1)"

definition fs_list :: "blk_service \<Rightarrow> buffer \<Rightarrow> u64 \<Rightarrow> fs \<Rightarrow> (fs \<times> buffer \<times> u64) option" where
  "fs_list srv b max_n s =
     map_option (\<lambda>(s', b', out). (s', b'(unat out := 0), out)) (list_from srv max_n 0 0 b s)"

section \<open>The server loop\<close>

text \<open>
  One turn: the new state, the client's buffer, and the reply.  \<open>strings\<close> gives the bytes at a
  pointer the client passes; \<open>sint\<close> is the C cast to \<open>long\<close>.
\<close>

definition fs_serve ::
    "blk_service \<Rightarrow> (u64 \<Rightarrow> u8 list) \<Rightarrow> ipc_msg \<Rightarrow> buffer \<Rightarrow> fs \<Rightarrow> (fs \<times> buffer \<times> ipc_msg option) option" where
  "fs_serve srv strings m b s =
     (let reply = zero_msg\<lparr>m_label := MSG_REPLY\<rparr> in
      if m_label m = MSG_OPEN then
        map_option (\<lambda>(s', h). (s', b, Some (reply\<lparr>m_data0 := c_ret h,
            m_data1 := (if h \<ge> 0 then f_size (ftab s' (nat h)) else 0)\<rparr>)))
          (fs_open srv (strings (m_data0 m)) s)
      else if m_label m = MSG_FREAD then
        let max_n = (if m_cap m \<noteq> 0 then m_cap m else f_size (ftab s 0))
        in map_option (\<lambda>(s', b', n). (s', b', Some (reply\<lparr>m_data0 := n\<rparr>)))
             (fs_read srv (sint (m_data0 m)) (m_data1 m) b max_n s)
      else if m_label m = MSG_CLOSE then
        let h = sint (m_data0 m);
            s' = (if h \<ge> 0 \<and> h < 8 then s\<lparr>ftab := (ftab s)(nat h := (ftab s (nat h))\<lparr>f_used := False\<rparr>)\<rparr> else s)
        in Some (s', b, Some reply)
      else if m_label m = MSG_LIST then
        map_option (\<lambda>(s', b', n). (s', b', Some (reply\<lparr>m_data0 := n\<rparr>))) (fs_list srv b (m_data1 m) s)
      else Some (s, b, None))"

section \<open>Octal numbers\<close>

fun octal :: "nat \<Rightarrow> nat \<Rightarrow> u8 list" where
  "octal 0 n = []"
| "octal (Suc k) n = octal k (n div 8) @ [0x30 + of_nat (n mod 8)]"

lemma octal_length [simp]: "length (octal k n) = k"
  by (induction k arbitrary: n) auto

lemma octal_char:
  assumes "d < 8"
  shows "0x30 \<le> (0x30 + of_nat d :: u8)" "(0x30 + of_nat d :: u8) \<le> 0x37"
proof -
  have "unat (0x30 + of_nat d :: u8) = 0x30 + d"
    using assms by (simp add: unat_word_ariths unat_of_nat take_bit_nat_eq_self)
  then show "0x30 \<le> (0x30 + of_nat d :: u8)" "(0x30 + of_nat d :: u8) \<le> 0x37"
    using assms by (simp_all add: word_le_nat_alt)
qed

definition oct_step :: "u64 \<Rightarrow> u8 \<Rightarrow> u64" where
  "oct_step v c = push_bit 3 v + ucast (c - 0x30)"

lemma parse_octal_digits:
  "list_all (\<lambda>c. 0x30 \<le> c \<and> c \<le> 0x37) ds \<Longrightarrow>
   parse_octal_from v (ds @ rest) (length ds + m) = parse_octal_from (foldl oct_step v ds) rest m"
  by (induction ds arbitrary: v) (auto simp: oct_step_def)

lemma octal_chars: "list_all (\<lambda>c. 0x30 \<le> c \<and> c \<le> 0x37) (octal k n)"
  by (induction k arbitrary: n) (auto simp: octal_char)

lemma oct_step_digit: "d < 8 \<Longrightarrow> oct_step (of_nat v) (0x30 + of_nat d) = of_nat (8 * v + d)"
proof -
  assume "d < 8"
  then have "unat (of_nat d :: u8) = d" by (simp add: unat_of_nat take_bit_nat_eq_self)
  then have "(ucast (of_nat d :: u8) :: u64) = of_nat d" unfolding word_unat_eq_iff by (simp add: unsigned_ucast_eq unat_of_nat take_bit_nat_eq_self)
  then show ?thesis by (simp add: oct_step_def push_bit_eq_mult)
qed

lemma octal_value: "foldl oct_step 0 (octal k n) = of_nat (n mod 8 ^ k)"
proof (induction k arbitrary: n)
  case (Suc k)
  have "foldl oct_step 0 (octal (Suc k) n) = oct_step (of_nat (n div 8 mod 8 ^ k)) (0x30 + of_nat (n mod 8))"
    by (simp add: Suc)
  also have "\<dots> = of_nat (8 * (n div 8 mod 8 ^ k) + n mod 8)" by (rule oct_step_digit) simp
  also have "8 * (n div 8 mod 8 ^ k) + n mod 8 = n mod 8 ^ Suc k" by (simp add: mod_mult2_eq)
  finally show ?case .
qed simp

lemma parse_octal_octal:
  assumes "n < 8 ^ k" and "c0 rest < 0x30 \<or> 0x37 < c0 rest"
  shows "parse_octal (octal k n @ rest) (Suc k) = of_nat n"
proof -
  have "parse_octal_from v rest (Suc 0) = v" for v using assms(2) by (auto simp: not_less)
  then show ?thesis
    using parse_octal_digits [OF octal_chars [of k n], of 0 rest "Suc 0"] assms(1)
    by (simp add: parse_octal_def octal_value)
qed

section \<open>Archives\<close>

type_synonym afile = "u8 list \<times> u8 list"

text \<open>A USTAR header: the name, ended by a NUL, and the size as eleven octal digits at offset 124.\<close>

definition is_header :: "u8 list \<Rightarrow> u8 list \<Rightarrow> nat \<Rightarrow> bool" where
  "is_header h name len \<longleftrightarrow> name \<noteq> [] \<and> cstr h = name \<and> length h = 512 \<and> len < 8 ^ 11 \<and>
     take 11 (drop 124 h) = octal 11 len \<and> (h ! 135 = 0 \<or> h ! 135 = 0x20)"

definition blocks :: "nat \<Rightarrow> nat" where
  "blocks len = (len + 511) div 512"

definition stored :: "(u64 \<Rightarrow> u8 list) \<Rightarrow> u64 \<Rightarrow> u8 list \<Rightarrow> bool" where
  "stored d l c \<longleftrightarrow> (\<forall>i<length c. l + of_nat (i div 512) < 2 ^ 28 \<and> d (l + of_nat (i div 512)) ! (i mod 512) = c ! i)"

fun archive_at :: "(u64 \<Rightarrow> u8 list) \<Rightarrow> u64 \<Rightarrow> afile list \<Rightarrow> bool" where
  "archive_at d l [] \<longleftrightarrow> l < 2 ^ 28 \<and> c0 (d l) = 0"
| "archive_at d l ((name, c) # fs) \<longleftrightarrow> l < 2 ^ 28 \<and> is_header (d l) name (length c) \<and> stored d (l + 1) c \<and>
     archive_at d (l + 1 + of_nat (blocks (length c))) fs"

text \<open>Where the first file of a name starts.\<close>

fun locate :: "afile list \<Rightarrow> u8 list \<Rightarrow> u64 \<Rightarrow> (u64 \<times> u8 list) option" where
  "locate [] name l = None"
| "locate ((n, c) # fs) name l =
     (if n = name then Some (l + 1, c) else locate fs name (l + 1 + of_nat (blocks (length c))))"

lemma header_facts:
  assumes "is_header h name len"
  shows "c0 h \<noteq> 0" "cstr h = name" "hdr_size h = of_nat len"
    "(of_nat len + 511) div 512 = (of_nat (blocks len) :: u64)"
proof -
  show "cstr h = name" using assms by (simp add: is_header_def)
  show "c0 h \<noteq> 0" using assms by (cases h) (auto simp: is_header_def cstr_def split: if_splits)
  have "drop 124 h = octal 11 len @ drop 135 h"
    using assms append_take_drop_id [of 11 "drop 124 h"] by (simp add: is_header_def)
  moreover have "c0 (drop 135 h) = h ! 135"
    using assms Cons_nth_drop_Suc [of 135 h] by (simp add: is_header_def flip: Cons_nth_drop_Suc)
  ultimately show "hdr_size h = of_nat len"
    using assms parse_octal_octal [of len 11 "drop 135 h"] by (auto simp: hdr_size_def is_header_def)
  have "len < 2 ^ 33" using assms by (simp add: is_header_def)
  then have "unat (of_nat len + 511 :: u64) = len + 511"
    by (simp add: unat_word_ariths unat_of_nat take_bit_nat_eq_self)
  then have "unat ((of_nat len + 511) div 512 :: u64) = blocks len" by (simp add: unat_div blocks_def)
  moreover have "blocks len < 2 ^ 64" using \<open>len < 2 ^ 33\<close> by (simp add: blocks_def)
  ultimately show "(of_nat len + 511) div 512 = (of_nat (blocks len) :: u64)" unfolding word_unat_eq_iff by (simp add: blocks_def unat_of_nat take_bit_nat_eq_self)
qed

lemma locate_stored:
  "archive_at d l fs \<Longrightarrow> locate fs name l = Some (k, c) \<Longrightarrow> stored d k c \<and> length c < 8 ^ 11"
  by (induction fs name l rule: locate.induct) (auto simp: is_header_def split: if_splits)

lemma store_tail:
  assumes n: "n = q + r" "r \<le> length xs" "n \<le> length c" and x: "\<And>i. i < n \<Longrightarrow> q \<le> i \<Longrightarrow> xs ! (i - q) = c ! i"
  shows "store_at q (take r xs) (store_at 0 (take q c) b) i = (if i < n then c ! i else b i)"
proof (cases "q \<le> i \<and> i < n")
  case True
  then have "i - q < r" using n(1) by linarith
  with True n x show ?thesis by (simp add: store_at_def)
qed (use n in \<open>auto simp: store_at_def\<close>)

text \<open>The listing of an archive: each name on a line.\<close>

definition listing :: "afile list \<Rightarrow> u8 list" where
  "listing fs = concat (map (\<lambda>f. fst f @ [0x0A]) fs)"

lemma store_at_Cons: "store_at (Suc q) xs (b(q := x)) = store_at q (x # xs) b"
proof
  fix i show "store_at (Suc q) xs (b(q := x)) i = store_at q (x # xs) b i"
    using Suc_diff_Suc [of q i] by (cases "i = q") (auto simp: store_at_def nth_Cons')
qed

lemma store_at_append: "store_at (q + length xs) ys (store_at q xs b) = store_at q (xs @ ys) b"
  by (auto simp: store_at_def fun_eq_iff nth_append)

lemma store_at_Nil [simp]: "store_at q [] b = b"
  by (auto simp: store_at_def fun_eq_iff)

lemma out_less: "unat out + k < unat max_n \<Longrightarrow> k < 3 \<Longrightarrow> unat (out + of_nat k) = unat out + k" for out max_n :: u64
proof -
  assume a: "unat out + k < unat max_n" "k < 3"
  have "unat max_n < 2 ^ 64" using unsigned_less [of max_n, where 'a = nat] by simp
  with a show "unat (out + of_nat k) = unat out + k" by (simp add: unat_word_ariths unat_of_nat take_bit_nat_eq_self)
qed

lemma copy_name_exact:
  "unat out + length (cstr h) + 1 < unat max_n \<Longrightarrow>
   \<exists>o'. copy_name h max_n out b = (o', store_at (unat out) (cstr h) b) \<and> unat o' = unat out + length (cstr h)"
proof (induction h arbitrary: out b)
  case (Cons c h)
  show ?case
  proof (cases "c = 0")
    case False
    then have len: "length (cstr (c # h)) = Suc (length (cstr h))" by (simp add: cstr_def)
    have o1: "unat (out + 1) = unat out + 1" and o2: "unat (out + 2) = unat out + 2"
      using out_less [of out 1 max_n] out_less [of out 2 max_n] Cons.prems len by simp_all
    have "out + 2 < max_n" using Cons.prems len o2 by (simp add: word_less_nat_alt)
    moreover have "unat (out + 1) + length (cstr h) + 1 < unat max_n" using Cons.prems len o1 by simp
    note Cons.IH [OF this, of "b(unat out := c)"]
    ultimately show ?thesis
      using False o1 store_at_Cons [of "unat out" "cstr h" b c] by (auto simp: cstr_def simp del: fun_upd_apply)
  qed (simp add: cstr_def)
qed (simp add: cstr_def)

lemma copy_name_bound:
  "copy_name h max_n out b = (o', b') \<Longrightarrow> unat out < unat max_n \<Longrightarrow> unat max_n \<le> 2 ^ 63 \<Longrightarrow>
   unat o' < unat max_n \<and> (\<forall>i\<ge>unat max_n. b' i = b i)"
proof (induction h arbitrary: out b)
  case (Cons c h)
  show ?case
  proof (cases "c \<noteq> 0 \<and> out + 2 < max_n")
    case True
    have "unat (out + 2) = unat out + 2" "unat (out + 1) = unat out + 1"
      using Cons.prems(2,3) by (simp_all add: unat_word_ariths)
    with True have "unat (out + 1) < unat max_n" by (simp add: word_less_nat_alt)
    with Cons True show ?thesis by fastforce
  next
    case False
    then have "(o', b') = (out, b)" using Cons.prems(1) by (auto split: if_splits)
    then show ?thesis using Cons.prems(2) by simp
  qed
qed simp

text \<open>The bytes past the client's buffer stay as they are.\<close>

definition in_buffer :: "u64 \<Rightarrow> u64 \<Rightarrow> buffer \<Rightarrow> u64 \<Rightarrow> buffer \<Rightarrow> bool" where
  "in_buffer max_n out b out' b' \<longleftrightarrow> (unat out < unat max_n \<longrightarrow> unat max_n \<le> 2 ^ 63 \<longrightarrow>
     unat out' < unat max_n \<and> (\<forall>i\<ge>unat max_n. b' i = b i))"

lemma list_from_bound:
  assumes "list_from srv max_n l out b s = Some (s', b', out')"
  shows "in_buffer max_n out b out' b'"
proof -
  have "case r of (s', b', out') \<Rightarrow> in_buffer max_n out b out' b'"
    if "list_from srv max_n l out b s = Some r" for r
  proof (rule list_from.raw_induct [where P = "\<lambda>srv max_n l out b s r. case r of (s', b', out') \<Rightarrow> in_buffer max_n out b out' b'",
        OF _ that])
    fix rec srv max_n l out b s r
    assume IH: "\<And>srv max_n l out b s r. rec srv max_n l out b s = Some r \<Longrightarrow>
        case r of (s', b', out') \<Rightarrow> in_buffer max_n out b out' b'"
      and body: "(case blk_read srv l (a_hdr s) of
        None \<Rightarrow> None
      | Some (rc, w) \<Rightarrow>
        let h = or_old w (hdr s); s1 = s\<lparr>hdr := h\<rparr> in
        if rc \<noteq> 0 \<or> c0 h = 0 then Some (s1, b, out)
        else case copy_name h max_n out b of (out1, b1) \<Rightarrow>
          let (out2, b2) = (if out1 + 1 < max_n then (out1 + 1, b1(unat out1 := 0x0A)) else (out1, b1))
          in rec srv max_n (l + 1 + (hdr_size h + 511) div 512) out2 b2 s1) = Some r"
    obtain rc w where rd: "blk_read srv l (a_hdr s) = Some (rc, w)" using body by (auto split: option.splits)
    define h where "h = or_old w (hdr s)"
    obtain o1 b1 where cn: "copy_name h max_n out b = (o1, b1)" by fastforce
    show "case r of (s', b', out') \<Rightarrow> in_buffer max_n out b out' b'"
    proof (cases "rc \<noteq> 0 \<or> c0 h = 0")
      case True
      then show ?thesis using body by (auto simp: rd h_def Let_def in_buffer_def)
    next
      case False
      define o2 b2 where "o2 = (if o1 + 1 < max_n then o1 + 1 else o1)"
        and "b2 = (if o1 + 1 < max_n then b1(unat o1 := 0x0A) else b1)"
      have "rec srv max_n (l + 1 + (hdr_size h + 511) div 512) o2 b2 (s\<lparr>hdr := h\<rparr>) = Some r"
        using body False by (auto simp: rd h_def [symmetric] Let_def cn o2_def b2_def split: if_splits)
      from IH [OF this] copy_name_bound [OF cn] show ?thesis
        by (auto simp: in_buffer_def o2_def b2_def word_less_nat_alt split: if_splits)
    qed
  qed
  from this [OF assms] show ?thesis by simp
qed

section \<open>What the file server needs of the block service\<close>

text \<open>A request for a sector of the disk is answered with success and the sector's bytes.\<close>

locale block_service =
  fixes srv :: blk_service and disk :: "u64 \<Rightarrow> u8 list"
  assumes sector: "length (disk l) = 512"
    and reads: "l < 2 ^ 28 \<Longrightarrow> blk_read srv l p = Some (0, Some (disk l))"
begin

lemma open_archive:
  "archive_at disk l fs \<Longrightarrow>
   \<exists>h. open_from srv path l s = Some
     (case locate fs (cstr path) l of None \<Rightarrow> (s\<lparr>hdr := h\<rparr>, - 1)
      | Some (k, c) \<Rightarrow> alloc_handle k (of_nat (length c)) (s\<lparr>hdr := h\<rparr>))"
proof (induction fs "cstr path" l arbitrary: s rule: locate.induct)
  case (1 l)
  then show ?case
    by (subst open_from.simps) (auto simp: reads or_old_def Let_def)
next
  case (2 n c fs l)
  then have a: "l < 2 ^ 28" "is_header (disk l) n (length c)" by simp_all
  note h = header_facts [OF a(2)]
  have step: "open_from srv path l s =
      (if n = cstr path then Some (alloc_handle (l + 1) (of_nat (length c)) (s\<lparr>hdr := disk l\<rparr>))
       else open_from srv path (l + 1 + of_nat (blocks (length c))) (s\<lparr>hdr := disk l\<rparr>))"
    by (subst open_from.simps) (simp add: reads [OF a(1)] or_old_def Let_def h name_eq_def str_eq_iff)
  show ?case
  proof (cases "n = cstr path")
    case True
    then show ?thesis by (auto simp: step)
  next
    case False
    obtain h' where "open_from srv path (l + 1 + of_nat (blocks (length c))) (s\<lparr>hdr := disk l\<rparr>) = Some
      (case locate fs (cstr path) (l + 1 + of_nat (blocks (length c))) of
         None \<Rightarrow> (s\<lparr>hdr := disk l\<rparr>\<lparr>hdr := h'\<rparr>, - 1)
       | Some (k, c) \<Rightarrow> alloc_handle k (of_nat (length c)) (s\<lparr>hdr := disk l\<rparr>\<lparr>hdr := h'\<rparr>))"
      using 2(1) [OF False, of "s\<lparr>hdr := disk l\<rparr>"] 2(2) by auto
    then show ?thesis using False by (intro exI [of _ h']) (simp add: step split: option.split)
  qed
qed

lemma read_full_stored:
  assumes "stored disk l c"
  shows "512 * n \<le> length c \<Longrightarrow> read_full srv l p n b = Some (store_at 0 (take (512 * n) c) b)"
proof (induction n)
  case 0
  show ?case by (simp add: store_at_def fun_eq_iff)
next
  case (Suc n)
  have c: "l + of_nat n < 2 ^ 28 \<and> (\<forall>k<512. disk (l + of_nat n) ! k = c ! (512 * n + k))"
  proof (intro conjI allI impI)
    show "l + of_nat n < 2 ^ 28" using assms Suc.prems by (auto simp: stored_def dest!: spec [of _ "512 * n"])
    fix k :: nat assume "k < 512"
    then have "(512 * n + k) div 512 = n" "(512 * n + k) mod 512 = k" by simp_all
    then show "disk (l + of_nat n) ! k = c ! (512 * n + k)"
      using assms Suc.prems \<open>k < 512\<close> unfolding stored_def by (metis add.commute add_less_mono1 mult_Suc_right order_less_le_trans)
  qed
  have "store_at (512 * n) (disk (l + of_nat n)) (store_at 0 (take (512 * n) c) b) = store_at 0 (take (512 * Suc n) c) b"
  proof
    fix i
    show "store_at (512 * n) (disk (l + of_nat n)) (store_at 0 (take (512 * n) c) b) i = store_at 0 (take (512 * Suc n) c) b i"
      using c Suc.prems sector by (auto simp: store_at_def)
  qed
  then show ?case using Suc reads [OF conjunct1 [OF c]] by simp
qed

lemma read_stored:
  assumes h: "0 \<le> h" "h < 8" "f_used (ftab s (nat h))"
    and st: "stored disk (data_lba (ftab s (nat h))) c" "f_size (ftab s (nat h)) = of_nat (length c)" "length c < 8 ^ 11"
    and n: "n = min (length c) (unat max_n)"
  shows "\<exists>s' b'. fs_read srv h p b max_n s = Some (s', b', of_nat n) \<and> ftab s' = ftab s \<and>
    (\<forall>i. b' i = (if i < n then c ! i else b i))"
proof -
  let ?l = "data_lba (ftab s (nat h))" and ?full = "n div 512" and ?rem = "n mod 512"
  define size where "size = (if f_size (ftab s (nat h)) > max_n then max_n else f_size (ftab s (nat h)))"
  have len: "unat (of_nat (length c) :: u64) = length c" using st(3) by (simp add: unat_of_nat take_bit_nat_eq_self)
  have un: "unat size = n" unfolding size_def st(2) n by (auto simp: word_less_nat_alt len)
  then have size: "size = of_nat n" by (simp flip: un)
  have full: "unat (size div 512) = ?full" by (simp add: unat_div un)
  have "size - size div 512 * 512 = size mod 512" by (rule minus_div_mult_eq_mod)
  then have rem: "unat (size - size div 512 * 512) = ?rem" by (simp only: unat_mod un) simp
  have le: "512 * ?full \<le> length c" "n \<le> length c" by (simp_all add: n mult.commute le_trans [OF div_times_less_eq_dividend])
  have rf: "read_full srv ?l p ?full b = Some (store_at 0 (take (512 * ?full) c) b)"
    by (rule read_full_stored [OF st(1) le(1)])
  have eq: "fs_read srv h p b max_n s =
      (if ?rem = 0 then Some (s, store_at 0 (take (512 * ?full) c) b, of_nat n)
       else case blk_read srv (?l + size div 512) (a_bounce s) of
              None \<Rightarrow> None
            | Some (rc, w) \<Rightarrow> Some (s\<lparr>bounce := or_old w (bounce s)\<rparr>,
                store_at (512 * ?full) (take ?rem (or_old w (bounce s))) (store_at 0 (take (512 * ?full) c) b), of_nat n))"
  proof -
    have z: "size - size div 512 * 512 = 0 \<longleftrightarrow> ?rem = 0" using rem by (metis unat_eq_0)
    show ?thesis
      using h unfolding fs_read_def Let_def size_def [symmetric] full rf z rem
      by (simp add: size [symmetric] split: option.split)
  qed
  show ?thesis
  proof (cases "?rem = 0")
    case True
    then have "512 * ?full = n" by (metis add.right_neutral mult_div_mod_eq)
    with True le(2) show ?thesis by (auto simp: eq store_at_def)
  next
    case False
    have m: "512 * ?full + ?rem = n" by simp
    have at: "i < n \<Longrightarrow> 512 * ?full \<le> i \<Longrightarrow>
        ?l + of_nat ?full < 2 ^ 28 \<and> disk (?l + of_nat ?full) ! (i - 512 * ?full) = c ! i" for i
    proof -
      assume i: "i < n" "512 * ?full \<le> i"
      then have "i div 512 = ?full" using m by (intro div_nat_eqI) (auto simp: mult.commute)
      moreover have "i mod 512 = i - 512 * ?full" using calculation by (simp add: minus_mult_div_eq_mod [symmetric])
      moreover have "i < length c" using i le by simp
      ultimately show ?thesis using st(1) unfolding stored_def by metis
    qed
    have lb: "?l + of_nat ?full < 2 ^ 28" using at [of "512 * ?full"] m False by linarith
    have "size div 512 = of_nat ?full" by (simp flip: full)
    then have rd: "blk_read srv (?l + size div 512) (a_bounce s) = Some (0, Some (disk (?l + of_nat ?full)))"
      using reads [OF lb] by simp
    have "store_at (512 * ?full) (take ?rem (disk (?l + of_nat ?full))) (store_at 0 (take (512 * ?full) c) b) i =
        (if i < n then c ! i else b i)" for i
      by (rule store_tail) (use at m le sector [of "?l + of_nat ?full"] in auto)
    then show ?thesis using False by (simp add: eq rd or_old_def)
  qed
qed

lemma list_archive:
  "archive_at disk l fs \<Longrightarrow> unat out + length (listing fs) < unat max_n \<Longrightarrow>
   \<exists>s' o'. list_from srv max_n l out b s = Some (s', store_at (unat out) (listing fs) b, o') \<and>
     unat o' = unat out + length (listing fs)"
proof (induction fs arbitrary: l out b s)
  case Nil
  then show ?case
    by (subst list_from.simps) (auto simp: reads or_old_def Let_def listing_def)
next
  case (Cons f fs)
  obtain n c where f: "f = (n, c)" by fastforce
  note 2 = Cons [unfolded f]
  then have a: "l < 2 ^ 28" "is_header (disk l) n (length c)" by simp_all
  note h = header_facts [OF a(2)]
  have len: "length (listing ((n, c) # fs)) = length n + 1 + length (listing fs)" by (simp add: listing_def)
  obtain o1 where o1: "copy_name (disk l) max_n out b = (o1, store_at (unat out) n b)" "unat o1 = unat out + length n"
    using copy_name_exact [of out "disk l" max_n b] 2(3) len h(2) by auto
  have s1: "unat (o1 + 1) = unat out + length n + 1"
    using out_less [of o1 1 max_n] o1(2) 2(3) len by simp
  then have lt: "o1 + 1 < max_n" using 2(3) len by (simp add: word_less_nat_alt)
  let ?b = "(store_at (unat out) n b)(unat o1 := 0x0A)"
  have b: "?b = store_at (unat out) (n @ [0x0A]) b"
    using store_at_append [of "unat out" n "[0x0A]" b] store_at_Cons [of "unat o1" "[]" "store_at (unat out) n b" "0x0A"] o1(2)
    by simp
  have step: "list_from srv max_n l out b s =
      list_from srv max_n (l + 1 + of_nat (blocks (length c))) (o1 + 1) ?b (s\<lparr>hdr := disk l\<rparr>)"
    by (subst list_from.simps) (simp add: reads [OF a(1)] or_old_def Let_def h o1 lt)
  obtain s' o' where "list_from srv max_n (l + 1 + of_nat (blocks (length c))) (o1 + 1) ?b (s\<lparr>hdr := disk l\<rparr>) =
      Some (s', store_at (unat (o1 + 1)) (listing fs) ?b, o')" "unat o' = unat (o1 + 1) + length (listing fs)"
    using 2(1) [of "l + 1 + of_nat (blocks (length c))" "o1 + 1" ?b "s\<lparr>hdr := disk l\<rparr>"] 2(2,3) len s1 by (auto simp del: fun_upd_apply)
  then show ?case
    unfolding f step b s1 using store_at_append [of "unat out" "n @ [0x0A]" "listing fs" b]
    by (intro exI [of _ s'] exI [of _ o']) (simp add: listing_def)
qed

end

section \<open>The block driver provides it\<close>

text \<open>A disk image, cut into sectors.\<close>

definition image_disk :: "u8 list \<Rightarrow> u64 \<Rightarrow> u8 list" where
  "image_disk img l = take 512 (drop (512 * unat l) img @ replicate 512 0)"

interpretation blk: block_service "blk_serve (ata_drive (image_disk img))" "image_disk img" for img
proof
  show len: "length (image_disk img l) = 512" for l by (simp add: image_disk_def)
  fix l p :: u64 assume "l < 2 ^ 28"
  then have "take_bit 28 l = l"
    unfolding word_unat_eq_iff unsigned_take_bit_eq by (simp add: take_bit_nat_eq_self word_less_nat_alt)
  with blk_serve_drive [of "image_disk img" l p] len
  show "blk_read (blk_serve (ata_drive (image_disk img))) l p = Some (0, Some (image_disk img l))"
    by (simp add: blk_read_def zero_msg_def c_int_def)
qed

section \<open>A small image\<close>

text \<open>One file, named \<open>a\<close>, of three bytes.\<close>

definition demo_image :: "u8 list" where
  "demo_image = [0x61] @ replicate 123 0 @ octal 11 3 @ replicate 377 0 @ [1, 2, 3] @ replicate 509 0"

definition demo_files :: "afile list" where
  "demo_files = [([0x61], [1, 2, 3])]"

definition demo_fs :: fs where
  "demo_fs = \<lparr>ftab = (\<lambda>_. \<lparr>data_lba = 0, f_size = 0, f_used = False\<rparr>), hdr = replicate 512 0,
     bounce = replicate 512 0, a_hdr = 0, a_bounce = 0x200\<rparr>"

lemma octal_3: "octal 11 3 = replicate 10 0x30 @ [0x33]"
  by code_simp

lemma demo_sectors:
  "image_disk demo_image 0 = [0x61] @ replicate 123 0 @ octal 11 3 @ replicate 377 0"
  "image_disk demo_image 1 = [1, 2, 3] @ replicate 509 0"
  "image_disk demo_image 2 = replicate 512 0"
  by (simp_all add: image_disk_def demo_image_def)

lemma demo_archive: "archive_at (image_disk demo_image) 0 demo_files"
proof -
  have h: "is_header (image_disk demo_image 0) [0x61] 3"
    unfolding demo_sectors octal_3 is_header_def
    by (simp add: cstr_def nth_append)
  have st: "stored (image_disk demo_image) 1 [1, 2, 3]"
    by (auto simp: stored_def less_Suc_eq numeral_3_eq_3 demo_sectors)
  have e: "c0 (image_disk demo_image 2) = 0" by (simp add: demo_sectors numeral_eq_Suc)
  show ?thesis using h st e by (simp add: demo_files_def blocks_def numeral_3_eq_3 [symmetric])
qed

lemma list_files:
  assumes "archive_at (image_disk img) 0 fs" and "length (listing fs) < unat max_n"
  shows "\<exists>s'. fs_list (blk_serve (ata_drive (image_disk img))) b max_n s =
    Some (s', store_at 0 (listing fs @ [0]) b, of_nat (length (listing fs)))"
proof -
  obtain s' o' where l: "list_from (blk_serve (ata_drive (image_disk img))) max_n 0 0 b s =
      Some (s', store_at 0 (listing fs) b, o')" "unat o' = length (listing fs)"
    using blk.list_archive [OF assms(1), of 0 max_n b s] assms(2) by auto
  have "(store_at 0 (listing fs) b)(unat o' := 0) = store_at 0 (listing fs @ [0]) b"
    using store_at_append [of 0 "listing fs" "[0]" b] store_at_Cons [of "unat o'" "[]" "store_at 0 (listing fs) b" 0] l(2)
    by simp
  moreover have "o' = of_nat (length (listing fs))" by (simp flip: l(2))
  ultimately show ?thesis using l(1) by (simp add: fs_list_def)
qed

section \<open>Properties\<close>

text \<open>Opening a file that an archive on the disk holds gives a free handle, and reading the
  handle puts the first bytes of the file, as many as fit, into the client's buffer and changes
  nothing else there: the file server, over the block driver, over the drive.\<close>

theorem open_read_file:
  assumes "archive_at (image_disk img) 0 fs" and "locate fs (cstr path) 0 = Some (k, c)"
    and "i < 8" and "\<not> f_used (ftab s i)" and "n = min (length c) (unat max_n)"
  shows "\<exists>s1 h s2 b'. fs_open (blk_serve (ata_drive (image_disk img))) path s = Some (s1, int h) \<and>
    h < 8 \<and> \<not> f_used (ftab s h) \<and>
    fs_read (blk_serve (ata_drive (image_disk img))) (int h) p b max_n s1 = Some (s2, b', of_nat n) \<and>
    (\<forall>i. b' i = (if i < n then c ! i else b i))"
proof -
  let ?srv = "blk_serve (ata_drive (image_disk img))"
  obtain h where h: "first_fit (\<lambda>i. \<not> f_used (ftab s i)) 8 = Some h"
    using assms(3,4) first_fit_ex [of "\<lambda>i. \<not> f_used (ftab s i)" 8] by blast
  obtain hd' where "fs_open ?srv path s = Some (alloc_handle k (of_nat (length c)) (s\<lparr>hdr := hd'\<rparr>))"
    using blk.open_archive [OF assms(1), of path s] assms(2) by (auto simp: fs_open_def)
  moreover define s1 where "s1 = s\<lparr>hdr := hd', ftab := (ftab s)(h := \<lparr>data_lba = k, f_size = of_nat (length c), f_used = True\<rparr>)\<rparr>"
  ultimately have op: "fs_open ?srv path s = Some (s1, int h)" by (simp add: alloc_handle_def h)
  have "f_used (ftab s1 (nat (int h)))" "data_lba (ftab s1 (nat (int h))) = k" "f_size (ftab s1 (nat (int h))) = of_nat (length c)"
    by (simp_all add: s1_def)
  with blk.read_stored [of "int h" s1 img c n max_n p b] locate_stored [OF assms(1,2)] assms(5) first_fit_SomeD [OF h]
  obtain s2 b' where "fs_read ?srv (int h) p b max_n s1 = Some (s2, b', of_nat n)" "\<forall>i. b' i = (if i < n then c ! i else b i)"
    by auto
  with op first_fit_SomeD [OF h] show ?thesis by blast
qed

theorem open_read_file_witness:
  "\<exists>s1 h s2 b'. fs_open (blk_serve (ata_drive (image_disk demo_image))) [0x61] demo_fs = Some (s1, int h) \<and>
    fs_read (blk_serve (ata_drive (image_disk demo_image))) (int h) 0x1000 (\<lambda>_. 0) 2 s1 = Some (s2, b', 2) \<and> b' 1 = 2"
proof -
  have "locate demo_files (cstr [0x61]) 0 = Some (1, [1, 2, 3])" by (simp add: demo_files_def cstr_def)
  from open_read_file [OF demo_archive this, of 0 demo_fs 2 2 "0x1000" "\<lambda>_. 0"]
  obtain s1 h s2 b' where "fs_open (blk_serve (ata_drive (image_disk demo_image))) [0x61] demo_fs = Some (s1, int h)"
    "fs_read (blk_serve (ata_drive (image_disk demo_image))) (int h) 0x1000 (\<lambda>_. 0) 2 s1 = Some (s2, b', 2)"
    "\<forall>i. b' i = (if i < 2 then [1, 2, 3] ! i else 0)"
    by (auto simp: demo_fs_def)
  moreover from this(3) have "b' 1 = 2" by simp
  ultimately show ?thesis by blast
qed

text \<open>Opening a name that no file of the archive has ends with -1 and gives no handle away.\<close>

theorem open_absent_file:
  assumes "archive_at (image_disk img) 0 fs" and "locate fs (cstr path) 0 = None"
  shows "\<exists>s'. fs_open (blk_serve (ata_drive (image_disk img))) path s = Some (s', - 1) \<and> ftab s' = ftab s"
  using blk.open_archive [OF assms(1), of path s] assms(2) by (auto simp: fs_open_def)

theorem open_absent_file_witness:
  "\<exists>s'. fs_open (blk_serve (ata_drive (image_disk demo_image))) [0x62] demo_fs = Some (s', - 1) \<and> ftab s' = ftab demo_fs"
proof -
  have "locate demo_files (cstr [0x62]) 0 = None" by (simp add: demo_files_def cstr_def)
  from open_absent_file [OF demo_archive this] show ?thesis .
qed

text \<open>When the listing of the archive fits, with its NUL, the client gets the name of every
  file on a line of its own, and the length returned is that of the listing.\<close>

theorem list_exact:
  assumes "archive_at (image_disk img) 0 fs" and "length (listing fs) < unat max_n"
  shows "\<exists>s'. fs_list (blk_serve (ata_drive (image_disk img))) b max_n s =
    Some (s', store_at 0 (listing fs @ [0]) b, of_nat (length (listing fs)))"
  using assms by (rule list_files)

theorem list_exact_witness:
  "\<exists>s'. fs_list (blk_serve (ata_drive (image_disk demo_image))) (\<lambda>_. 7) 512 demo_fs =
     Some (s', store_at 0 [0x61, 0x0A, 0] (\<lambda>_. 7), 2)"
  using list_exact [OF demo_archive, of 512 "\<lambda>_. 7" demo_fs] by (simp add: demo_files_def listing_def)

text \<open>C35: A listing that ends (the walk over a damaged archive may not) stays inside a client buffer
  that is not empty, however long the names on the disk are: no byte at or past its length changes.\<close>

theorem list_in_buffer:
  assumes "fs_list srv b max_n s = Some (s', b', n)" and "0 < max_n" and "unat max_n \<le> 2 ^ 63"
  shows "n < max_n \<and> (\<forall>i\<ge>unat max_n. b' i = b i)"
proof -
  obtain s1 b1 where l: "list_from srv max_n 0 0 b s = Some (s1, b1, n)" and b': "b' = b1(unat n := 0)"
    using assms(1) by (auto simp: fs_list_def)
  from list_from_bound [OF l] assms(2,3) b' show ?thesis by (auto simp: in_buffer_def word_less_nat_alt)
qed

theorem list_in_buffer_witness:
  "\<exists>s' b' n. fs_list (blk_serve (ata_drive (image_disk demo_image))) (\<lambda>_. 7) 512 demo_fs = Some (s', b', n) \<and>
     n < 512 \<and> (\<forall>i\<ge>512. b' i = 7)"
proof -
  obtain s' b' n where l: "fs_list (blk_serve (ata_drive (image_disk demo_image))) (\<lambda>_. 7) 512 demo_fs = Some (s', b', n)"
  proof -
    obtain s' o' where "list_from (blk_serve (ata_drive (image_disk demo_image))) 512 0 0 (\<lambda>_. 7) demo_fs =
        Some (s', store_at 0 (listing demo_files) (\<lambda>_. 7), o')"
      using blk.list_archive [OF demo_archive, of 0 512 "\<lambda>_. 7" demo_fs] by (auto simp: demo_files_def listing_def)
    then show thesis by (intro that) (simp add: fs_list_def)
  qed
  from list_in_buffer [OF this] l show ?thesis by auto
qed

end
