(* ===== verification/Shell.thy ===== *)
theory Shell
  imports Script FsServer
begin

text \<open>
  The shell (\<^verbatim>\<open>servers/shell/main.c\<close>) as a script: prompt, line, split, commands.
  The addresses of its buffers are parameters; the line read is loaded from memory.
\<close>

section \<open>Words\<close>

definition streq :: "u8 list \<Rightarrow> u8 list \<Rightarrow> bool" where
  "streq a b = str_eq a b"

text \<open>The line with the command terminated in place, and the offset of the arguments.\<close>

definition split_line :: "u8 list \<Rightarrow> u8 list \<times> nat" where
  "split_line line =
     (let i = length (takeWhile (\<lambda>c. c \<noteq> 0 \<and> c \<noteq> 0x20) line)
      in if c0 (drop i line) = 0x20 then (line[i := 0], i + 1) else (line, i))"

section \<open>Commands\<close>

abbreviation MSG_VPUTS :: u64 where "MSG_VPUTS \<equiv> 21"

record shaddr =
  sa_line :: u64
  sa_ls :: u64
  sa_fb :: u64

definition cmd_help :: "'a script \<Rightarrow> 'a script" where
  "cmd_help k = Do (A_puts (
     ''muKern shell -- commands:\<newline>'' @
     ''  help          show this help\<newline>'' @
     ''  echo <text>   print text\<newline>'' @
     ''  ls            list files on the disk (fs server)\<newline>'' @
     ''  cat <file>    print a file's contents\<newline>'' @
     ''  run           spawn the hello program via the process manager\<newline>'' @
     ''  vga <text>    print text on the VGA display\<newline>'' @
     ''  ps            list live threads and their state\<newline>'' @
     ''  mem           show physical memory usage\<newline>'' @
     ''  uptime        show time since boot\<newline>'' @
     ''  clear         clear the screen\<newline>'' @
     ''  exit          shut down the shell\<newline>'' @
     ''line editing: arrows move/recall history, Home/End, Del,\<newline>'' @
     ''              Ctrl-A/E (line ends), Ctrl-U (clear), Ctrl-C (cancel)\<newline>'')) k"

definition cmd_ls :: "shaddr \<Rightarrow> 'a script \<Rightarrow> 'a script" where
  "cmd_ls sa k =
     call FS_TID (zero_msg\<lparr>m_label := MSG_LIST, m_data0 := sa_ls sa, m_data1 := 512\<rparr>)
       (\<lambda>r. con_write_then (sa_ls sa) (ucast (m_data0 r)) k)"

definition cmd_cat :: "shaddr \<Rightarrow> u64 \<Rightarrow> u8 list \<Rightarrow> 'a script \<Rightarrow> 'a script" where
  "cmd_cat sa p name k =
     (if c0 name = 0 then Do (A_puts ''usage: cat <file>\<newline>'') k
      else call FS_TID (zero_msg\<lparr>m_label := MSG_OPEN, m_data0 := p\<rparr>) (\<lambda>orep.
        if sint (m_data0 orep) < 0 then
          seq [A_puts ''cat: no such file: '', A_print (cstr name), A_puts ''\<newline>''] k
        else call FS_TID (zero_msg\<lparr>m_label := MSG_FREAD, m_data0 := m_data0 orep, m_data1 := sa_fb sa, m_cap := 2048\<rparr>)
          (\<lambda>rrep. con_write_then (sa_fb sa) (ucast (m_data0 rrep))
            (call FS_TID (zero_msg\<lparr>m_label := MSG_CLOSE, m_data0 := m_data0 orep\<rparr>) (\<lambda>_. k)))))"

definition cmd_run :: "'a script \<Rightarrow> 'a script" where
  "cmd_run k =
     call PM_TID (zero_msg\<lparr>m_label := MSG_SPAWN, m_data0 := 2\<rparr>)
       (\<lambda>r. seq [A_puts ''spawned hello as tid '', A_print (con_putu (m_data0 r)), A_puts ''\<newline>''] k)"

definition thread_names :: "string list" where
  "thread_names = [''init'', ''console'', ''block'', ''vm'', ''pm'', ''fs'', ''vga'', ''shell'']"

definition state_names :: "string list" where
  "state_names = [''unused'', ''runnable'', ''running'', ''blocked'', ''dead'']"

definition cmd_ps :: "'a script \<Rightarrow> 'a script" where
  "cmd_ps = foldr (\<lambda>t k. Ask_then (Q_tinfo (of_nat t)) (\<lambda>st.
     if sint st < 1 \<or> 3 < sint st then k
     else seq ([A_puts ''  tid '', A_print (con_putu (of_nat t)), A_puts '' '', A_puts (state_names ! nat (sint st))] @
            (if t < 8 then [A_puts '' ('', A_puts (thread_names ! t), A_puts '')''] else []) @ [A_puts ''\<newline>'']) k))
     [0..<16]"

definition cmd_mem :: "'a script \<Rightarrow> 'a script" where
  "cmd_mem k = Ask_then (Q_meminfo 0) (\<lambda>fr. Ask_then (Q_meminfo 1) (\<lambda>tot.
     seq [A_puts ''frames: '', A_print (con_putu fr), A_puts '' free / '', A_print (con_putu tot),
          A_puts '' total ('', A_print (con_putu (fr * 4)), A_puts '' KiB free)\<newline>''] k))"

definition cmd_uptime :: "'a script \<Rightarrow> 'a script" where
  "cmd_uptime k = Ask_then Q_uptime (\<lambda>t.
     seq [A_puts ''uptime: '', A_print (con_putu t), A_puts '' ticks ('', A_print (con_putu (t div 100)), A_puts '' s)\<newline>''] k)"

section \<open>The loop\<close>

text \<open>The command of a line: \<open>l\<close> is the split line, \<open>p\<close> the address of the arguments.\<close>

definition dispatch :: "shaddr \<Rightarrow> u8 list \<Rightarrow> u64 \<Rightarrow> u8 list \<Rightarrow> bool script" where
  "dispatch sa l p args =
     (if streq l (str ''help'') then cmd_help (Done False)
      else if streq l (str ''echo'') then seq [A_print (cstr args), A_puts ''\<newline>''] (Done False)
      else if streq l (str ''ls'') then cmd_ls sa (Done False)
      else if streq l (str ''cat'') then cmd_cat sa p args (Done False)
      else if streq l (str ''run'') then cmd_run (Done False)
      else if streq l (str ''ps'') then cmd_ps (Done False)
      else if streq l (str ''mem'') then cmd_mem (Done False)
      else if streq l (str ''uptime'') then cmd_uptime (Done False)
      else if streq l (str ''vga'') then
        call VGA_TID (zero_msg\<lparr>m_label := MSG_VPUTS, m_data0 := p, m_data1 := 13\<rparr>)
          (\<lambda>_. Do (A_puts ''(printed to VGA display)\<newline>'') (Done False))
      else if streq l (str ''clear'') then Do (A_puts ([CHR 0x1B] @ ''[2J'' @ [CHR 0x1B] @ ''[H'')) (Done False)
      else if streq l (str ''exit'') then Do (A_puts ''bye\<newline>'') (Done True)
      else seq [A_puts ''unknown: '', A_print (cstr l), A_puts '' (try help)\<newline>''] (Done False))"

definition shell_turn :: "shaddr \<Rightarrow> bool script" where
  "shell_turn sa =
     Do (A_puts ''mukern $ '')
       (call CON_TID (con_readline (sa_line sa) 128) (\<lambda>r.
          if readline_result r = 0 then Done False
          else Load_then (sa_line sa) 128 (\<lambda>line.
            case split_line line of (l, i) \<Rightarrow> dispatch sa l (sa_line sa + of_nat i) (drop i l))))"

text \<open>The banner; a caret stands for a backslash.\<close>

definition banner :: string where
  "banner = map (\<lambda>c. if c = CHR ''^'' then CHR 0x5C else c) (
     ''   ___       ___       ___       ___       ___       ___    \<newline>'' @
     ''  /^__^     /^__^     /^__^     /^  ^     /^  ^     /^__^      \<newline>'' @
     '' /::L_L_   /:/ _/_   /:/ _/_   /::^  ^   /::^  ^   /:| _|_             \<newline>'' @
     ''/:/L:^__^ /:/_/^__^ /::-\"^__^ /::^:^__^ /::^:^__^ /::|/^__^ \<newline>'' @
     ''^/_/:/  / ^:^/:/  / ^;:;-\",-\" ^:^:^/  / ^;:::/  / ^/|::/  /     \<newline>'' @
     ''  /:/  /   ^::/  /   |:|  |    ^:^/  /   |:^/__/    |:/  /             \<newline>'' @
     ''  ^/__/     ^/__/     ^|__|     ^/__/     ^|__|     ^/__/            \<newline>'' @
     ''                                     muKern v.0.1.062026                   \<newline>'' @
     ''\<newline>'' @
     ''A minimal microkernel design for x86_64, ARMv8-A and RV64,                 \<newline>'' @
     ''plus a working proof-of-concept that boots on all three                    \<newline>'' @
     ''and drops you into a tiny shell.                                           \<newline>'')"

text \<open>The start: announce, wait for the capabilities, show that the block driver is out of reach.\<close>

definition shell_start :: "'a script \<Rightarrow> 'a script" where
  "shell_start k =
     Do (A_send 0 (zero_msg\<lparr>m_label := MSG_READY\<rparr>)) (Recv_then 0 (\<lambda>_.
       Send_then BLK_TID (zero_msg\<lparr>m_label := MSG_READY\<rparr>) (\<lambda>r.
         seq (if r \<noteq> 0 then [A_puts ''[shell] IPC to block driver refused (no capability) - good\<newline>''] else [])
           (seq [A_puts banner, A_puts ''\<newline>muKern shell -- type 'help'\<newline>''] k))))"

section \<open>A session\<close>

text \<open>
  The world of a session: the memory of the shared address space, the file server over the disk
  image, the lines the console will deliver, the text printed, and the reply that is waiting.
\<close>

record session =
  s_mem :: "u64 \<Rightarrow> u8"
  s_fs :: fs
  s_lines :: "u8 list list"
  s_out :: "u8 list"
  s_reply :: ipc_msg

definition mem_bytes :: "(u64 \<Rightarrow> u8) \<Rightarrow> u64 \<Rightarrow> nat \<Rightarrow> u8 list" where
  "mem_bytes m p n = map (\<lambda>i. m (p + of_nat i)) [0..<n]"

definition put_mem :: "u64 \<Rightarrow> buffer \<Rightarrow> u64 \<Rightarrow> u8" where
  "put_mem p b = (\<lambda>a. b (unat (a - p)))"

definition fs_request :: "blk_service \<Rightarrow> ipc_msg \<Rightarrow> session \<Rightarrow> session" where
  "fs_request srv m w =
     (let p = (if m_label m = MSG_FREAD then m_data1 m else m_data0 m) in
      case fs_serve srv (\<lambda>a. mem_bytes (s_mem w) a 128) m (\<lambda>i. s_mem w (p + of_nat i)) (s_fs w) of
        None \<Rightarrow> w
      | Some (fs', b', r) \<Rightarrow>
          w\<lparr>s_fs := fs', s_mem := put_mem p b', s_reply := (case r of Some x \<Rightarrow> x | None \<Rightarrow> s_reply w)\<rparr>)"

definition con_request :: "ipc_msg \<Rightarrow> session \<Rightarrow> session" where
  "con_request m w =
     (if m_label m = MSG_WRITE then
        w\<lparr>s_out := s_out w @ mem_bytes (s_mem w) (m_data0 m) (unat (ucast (m_data1 m) :: u32)),
          s_reply := zero_msg\<lparr>m_label := MSG_REPLY\<rparr>\<rparr>
      else if m_label m = MSG_READLINE then
        (case s_lines w of
           [] \<Rightarrow> w
         | l # ls \<Rightarrow> w\<lparr>s_lines := ls,
             s_mem := put_mem (m_data0 m) (store_at 0 (l @ [0]) (\<lambda>i. s_mem w (m_data0 m + of_nat i))),
             s_reply := zero_msg\<lparr>m_label := MSG_REPLY, m_data0 := of_nat (length l)\<rparr>\<rparr>)
      else w)"

definition session_act :: "blk_service \<Rightarrow> uact \<Rightarrow> session \<Rightarrow> session" where
  "session_act srv a w = (case a of
     A_puts s \<Rightarrow> w\<lparr>s_out := s_out w @ str s\<rparr>
   | A_print xs \<Rightarrow> w\<lparr>s_out := s_out w @ xs\<rparr>
   | A_send d m \<Rightarrow> (if d = FS_TID then fs_request srv m w else if d = CON_TID then con_request m w else w)
   | _ \<Rightarrow> w)"

definition session_world :: "blk_service \<Rightarrow> session world" where
  "session_world srv = \<lparr>w_act = session_act srv, w_spawn = (\<lambda>_ w. (- 1, w)), w_send = (\<lambda>_ _ w. (- 1, w)),
     w_recv = (\<lambda>src w. ((src, s_reply w), w)), w_ask = (\<lambda>_ _. 0), w_load = (\<lambda>p n w. mem_bytes (s_mem w) p n)\<rparr>"

lemma runs_call [simp]:
  "runs (session_world srv) (call d m k) w =
     (let w' = session_act srv (A_send d m) w in runs (session_world srv) (k (s_reply w')) w')"
  by (simp add: call_def session_world_def Let_def)

lemma runs_do [simp]: "runs (session_world srv) (Do a k) w = runs (session_world srv) k (session_act srv a w)"
  by (simp add: session_world_def)

lemma runs_load [simp]:
  "runs (session_world srv) (Load_then p n k) w = runs (session_world srv) (k (mem_bytes (s_mem w) p n)) w"
  by (simp add: session_world_def)

lemma world_ops [simp]:
  "w_act (session_world srv) = session_act srv" "w_load (session_world srv) p n w = mem_bytes (s_mem w) p n"
  by (simp_all add: session_world_def)

lemma put_same: "n \<le> 2 ^ 64 \<Longrightarrow> mem_bytes (put_mem p b) p n = map b [0..<n]"
  by (auto simp: mem_bytes_def put_mem_def unat_of_nat take_bit_nat_eq_self)

lemma put_id: "put_mem p (\<lambda>i. m (p + of_nat i)) = m"
  by (simp add: put_mem_def fun_eq_iff)


section \<open>Lines in memory\<close>

lemma mem_bytes_append: "mem_bytes m p (k + n) = mem_bytes m p k @ mem_bytes m (p + of_nat k) n"
  by (intro nth_equalityI) (auto simp: mem_bytes_def nth_append simp flip: of_nat_add)

lemma line_bytes:
  assumes "length l < n" "n \<le> 2 ^ 64"
  shows "\<exists>r. mem_bytes (put_mem p (store_at 0 (l @ [0]) b)) p n = l @ 0 # r"
proof -
  have "map (store_at 0 (l @ [0]) b) [0..<n] = l @ 0 # map b [length l + 1..<n]"
    using assms(1) by (intro nth_equalityI) (auto simp: store_at_def nth_append nth_Cons')
  with put_same [OF assms(2)] show ?thesis by auto
qed

lemma args_bytes:
  assumes "length l < n" "n \<le> 2 ^ 63" "k \<le> length l"
  shows "\<exists>r. mem_bytes (put_mem p (store_at 0 (l @ [0]) b)) (p + of_nat k) n = drop k l @ 0 # r"
proof -
  let ?m = "put_mem p (store_at 0 (l @ [0]) b)"
  have "length (mem_bytes ?m p k) = k" by (simp add: mem_bytes_def)
  then have "mem_bytes ?m (p + of_nat k) n = drop k (mem_bytes ?m p (k + n))"
    unfolding mem_bytes_append by simp
  moreover obtain r where "mem_bytes ?m p (k + n) = l @ 0 # r"
    using line_bytes [of l "k + n" p b] assms by auto
  ultimately show ?thesis using assms(3) by simp
qed

lemma cstr_upto: "list_all (\<lambda>c. c \<noteq> 0) a \<Longrightarrow> cstr (a @ 0 # r) = a"
  by (induction a) (simp_all add: cstr_def)

lemma cstr_self: "list_all (\<lambda>c. c \<noteq> 0) a \<Longrightarrow> cstr a = a"
  by (induction a) (simp_all add: cstr_def)

lemma streq_word:
  "list_all (\<lambda>c. c \<noteq> 0) a \<Longrightarrow> list_all (\<lambda>c. c \<noteq> 0) b \<Longrightarrow> streq (a @ 0 # r) b \<longleftrightarrow> a = b"
  by (simp add: streq_def str_eq_iff cstr_upto cstr_self)

lemma split_word:
  assumes "list_all (\<lambda>c. c \<noteq> 0 \<and> c \<noteq> 0x20) a"
  shows "split_line (a @ 0x20 # r) = (a @ 0 # r, length a + 1)" and "split_line (a @ 0 # r) = (a @ 0 # r, length a)"
proof -
  have "takeWhile (\<lambda>c. c \<noteq> 0 \<and> c \<noteq> 0x20) (a @ x # r) = a" if "x = 0 \<or> x = 0x20" for x
    using assms that by (induction a) auto
  then show "split_line (a @ 0x20 # r) = (a @ 0 # r, length a + 1)" "split_line (a @ 0 # r) = (a @ 0 # r, length a)"
    by (simp_all add: split_line_def)
qed

lemma streq_literal:
  "list_all (\<lambda>c. c \<noteq> 0) (map of_char a :: u8 list) \<Longrightarrow> list_all (\<lambda>c. c \<noteq> 0) (map of_char b :: u8 list) \<Longrightarrow>
   streq (str a @ 0 # r) (str b) \<longleftrightarrow> (map of_char a :: u8 list) = map of_char b"
  using streq_word [of "str a" "str b" r] by (simp add: str_def)

lemma dispatch_word:
  "dispatch sa (str ''cat'' @ 0 # r) p args = cmd_cat sa p args (Done False)"
  "dispatch sa (str ''ls'' @ 0 # r) p args = cmd_ls sa (Done False)"
  by (simp_all add: dispatch_def streq_literal)

lemma words_plain:
  "list_all (\<lambda>c. c \<noteq> 0 \<and> c \<noteq> 0x20) (str ''cat'')" "list_all (\<lambda>c. c \<noteq> 0 \<and> c \<noteq> 0x20) (str ''ls'')"
  "length (str ''cat'') = 3" "length (str ''ls'') = 2" "str ''cat '' = str ''cat'' @ [0x20]"
  by (simp_all add: str_def)

section \<open>A turn of a session\<close>

abbreviation line_store :: "shaddr \<Rightarrow> u8 list \<Rightarrow> session \<Rightarrow> buffer" where
  "line_store sa l w \<equiv> store_at 0 (l @ [0]) (\<lambda>i. s_mem w (sa_line sa + of_nat i))"

definition prompted :: "shaddr \<Rightarrow> u8 list \<Rightarrow> u8 list list \<Rightarrow> session \<Rightarrow> session" where
  "prompted sa l rest w = w\<lparr>s_out := s_out w @ str ''mukern $ '', s_lines := rest,
     s_mem := put_mem (sa_line sa) (line_store sa l w),
     s_reply := zero_msg\<lparr>m_label := MSG_REPLY, m_data0 := of_nat (length l)\<rparr>\<rparr>"

lemma prompted_simps [simp]:
  "s_out (prompted sa l rest w) = s_out w @ str ''mukern $ ''" "s_lines (prompted sa l rest w) = rest"
  "s_fs (prompted sa l rest w) = s_fs w" "s_mem (prompted sa l rest w) = put_mem (sa_line sa) (line_store sa l w)"
  by (simp_all add: prompted_def)

lemma turn_line:
  assumes "s_lines w = l # rest" "l \<noteq> []" "length l < 128"
  shows "\<exists>r. runs (session_world srv) (shell_turn sa) w =
    runs (session_world srv) (case split_line (l @ 0 # r) of (cl, i) \<Rightarrow> dispatch sa cl (sa_line sa + of_nat i) (drop i cl))
      (prompted sa l rest w)"
proof -
  obtain r where r: "mem_bytes (s_mem (prompted sa l rest w)) (sa_line sa) 128 = l @ 0 # r"
    using line_bytes [of l 128] assms(3) by auto
  have "(ucast (of_nat (length l) :: u64) :: u32) \<noteq> 0"
  proof -
    have "unat (ucast (of_nat (length l) :: u64) :: u32) = length l"
      using assms(3) by (simp add: unsigned_ucast_eq unat_of_nat take_bit_nat_eq_self)
    then show ?thesis using assms(2) by auto
  qed
  with assms(1) r show ?thesis
    by (auto simp: shell_turn_def session_act_def con_request_def con_readline_def readline_result_def Let_def prompted_def
        split del: if_split)
qed

lemma cat_line:
  assumes "s_lines w = (str ''cat '' @ name) # rest" "list_all (\<lambda>c. c \<noteq> 0) name" "name \<noteq> []" "length name < 124"
  shows "\<exists>r. runs (session_world srv) (shell_turn sa) w =
    runs (session_world srv) (cmd_cat sa (sa_line sa + 4) (name @ 0 # r) (Done False)) (prompted sa (str ''cat '' @ name) rest w)"
proof -
  obtain r where "runs (session_world srv) (shell_turn sa) w =
    runs (session_world srv) (case split_line ((str ''cat '' @ name) @ 0 # r) of (cl, i) \<Rightarrow>
      dispatch sa cl (sa_line sa + of_nat i) (drop i cl)) (prompted sa (str ''cat '' @ name) rest w)"
    using turn_line [OF assms(1)] assms(4) by (auto simp: words_plain)
  moreover have "split_line ((str ''cat '' @ name) @ 0 # r) = (str ''cat'' @ 0 # (name @ 0 # r), 4)"
    using split_word(1) [OF words_plain(1), of "name @ 0 # r"] by (simp add: words_plain)
  ultimately show ?thesis by (auto simp: dispatch_word words_plain)
qed

lemma ls_line:
  assumes "s_lines w = str ''ls'' # rest"
  shows "runs (session_world srv) (shell_turn sa) w =
    runs (session_world srv) (cmd_ls sa (Done False)) (prompted sa (str ''ls'') rest w)"
proof -
  have "str ''ls'' \<noteq> []" by (simp add: str_def)
  then obtain r where "runs (session_world srv) (shell_turn sa) w =
    runs (session_world srv) (case split_line (str ''ls'' @ 0 # r) of (cl, i) \<Rightarrow>
      dispatch sa cl (sa_line sa + of_nat i) (drop i cl)) (prompted sa (str ''ls'') rest w)"
    using turn_line [OF assms] by (auto simp: words_plain)
  then show ?thesis by (simp add: split_word(2) [OF words_plain(2)] dispatch_word)
qed

section \<open>Requests of a session\<close>

abbreviation image_srv :: "u8 list \<Rightarrow> blk_service" where
  "image_srv img \<equiv> blk_serve (ata_drive (image_disk img))"

lemma session_open:
  assumes "archive_at (image_disk img) 0 fs" "cstr (mem_bytes (s_mem w) p 128) = name"
  shows "\<exists>h. session_act (image_srv img) (A_send FS_TID (zero_msg\<lparr>m_label := MSG_OPEN, m_data0 := p\<rparr>)) w =
    (case (case locate fs name 0 of None \<Rightarrow> ((s_fs w)\<lparr>hdr := h\<rparr>, - 1)
       | Some (k, c) \<Rightarrow> alloc_handle k (of_nat (length c)) ((s_fs w)\<lparr>hdr := h\<rparr>)) of (s', i) \<Rightarrow>
       w\<lparr>s_fs := s', s_reply := zero_msg\<lparr>m_label := MSG_REPLY, m_data0 := c_ret i,
         m_data1 := (if i \<ge> 0 then f_size (ftab s' (nat i)) else 0)\<rparr>\<rparr>)"
proof -
  obtain h where "fs_open (image_srv img) (mem_bytes (s_mem w) p 128) (s_fs w) =
     Some (case locate fs name 0 of None \<Rightarrow> ((s_fs w)\<lparr>hdr := h\<rparr>, - 1)
      | Some (k, c) \<Rightarrow> alloc_handle k (of_nat (length c)) ((s_fs w)\<lparr>hdr := h\<rparr>))"
    using blk.open_archive [OF assms(1), of "mem_bytes (s_mem w) p 128" "s_fs w"] assms(2) unfolding fs_open_def by auto
  then show ?thesis
    by (intro exI [of _ h])
      (simp add: session_act_def fs_request_def fs_serve_def put_id Let_def zero_msg_def split: prod.split option.split)
qed

lemma sint_handle: "h < 8 \<Longrightarrow> sint (of_nat h :: u64) = int h"
  using sint_sbintrunc' [of "int h", where 'a = 64] by (simp add: signed_take_bit_int_eq_self)

lemma session_read:
  assumes "archive_at (image_disk img) 0 fs" "locate fs name 0 = Some (k, c)" "h < 8"
    and "ftab (s_fs w) h = \<lparr>data_lba = k, f_size = of_nat (length c), f_used = True\<rparr>"
    and m_def: "m = zero_msg\<lparr>m_label := MSG_FREAD, m_data0 := c_ret (int h), m_data1 := p, m_cap := 2048\<rparr>"
  shows "\<exists>s' b'. session_act (image_srv img) (A_send FS_TID m) w =
      w\<lparr>s_fs := s', s_mem := put_mem p b', s_reply := zero_msg\<lparr>m_label := MSG_REPLY, m_data0 := of_nat (min (length c) 2048)\<rparr>\<rparr> \<and>
    ftab s' = ftab (s_fs w) \<and> map b' [0..<min (length c) 2048] = take 2048 c"
proof -
  note sh = sint_handle [OF assms(3)]
  obtain s' b' where r: "fs_read (image_srv img) (int h) p (\<lambda>i. s_mem w (p + of_nat i)) 2048 (s_fs w) =
      Some (s', b', of_nat (min (length c) 2048))" "ftab s' = ftab (s_fs w)"
    "\<forall>i. b' i = (if i < min (length c) 2048 then c ! i else s_mem w (p + of_nat i))"
    using blk.read_stored [of "int h" "s_fs w" img c "min (length c) 2048" 2048 p "\<lambda>i. s_mem w (p + of_nat i)"]
      locate_stored [OF assms(1,2)] assms(3,4) by auto
  have "map b' [0..<min (length c) 2048] = take 2048 c"
    using r(3) by (intro nth_equalityI) auto
  with r(1,2) show ?thesis
    by (intro exI [of _ s'] exI [of _ b'])
      (simp add: m_def session_act_def fs_request_def fs_serve_def Let_def sh zero_msg_def)
qed

lemma session_close:
  assumes "h < 8"
  shows "session_act srv (A_send FS_TID (zero_msg\<lparr>m_label := MSG_CLOSE, m_data0 := c_ret (int h)\<rparr>)) w =
    w\<lparr>s_fs := (s_fs w)\<lparr>ftab := (ftab (s_fs w))(h := (ftab (s_fs w) h)\<lparr>f_used := False\<rparr>)\<rparr>,
      s_reply := zero_msg\<lparr>m_label := MSG_REPLY\<rparr>\<rparr>"
proof -
  note sh = sint_handle [OF assms]
  show ?thesis using assms by (simp add: session_act_def fs_request_def fs_serve_def put_id Let_def sh zero_msg_def)
qed

lemma session_write:
  assumes "n \<le> 2048"
  shows "session_act srv (A_send CON_TID (con_write p (of_nat n))) w =
    w\<lparr>s_out := s_out w @ mem_bytes (s_mem w) p n, s_reply := zero_msg\<lparr>m_label := MSG_REPLY\<rparr>\<rparr>"
proof -
  have "(ucast (ucast x :: u64) :: u32) = x" for x :: u32
    by transfer simp
  moreover have "unat (of_nat n :: u32) = n"
    using assms by (simp add: unat_of_nat take_bit_nat_eq_self)
  ultimately have "unat (ucast (ucast (of_nat n :: u32) :: u64) :: u32) = n" by simp
  then show ?thesis by (simp add: session_act_def con_request_def con_write_def)
qed

lemma name_plain: "cstr name = name \<Longrightarrow> list_all (\<lambda>c. c \<noteq> 0) name"
  unfolding cstr_def list_all_iff by (metis set_takeWhileD)

lemma cat_opened:
  assumes "c0 name \<noteq> 0"
    and "session_act srv (A_send FS_TID (zero_msg\<lparr>m_label := MSG_OPEN, m_data0 := p\<rparr>)) w = w1"
  shows "runs (session_world srv) (cmd_cat sa p name (Done x)) w =
    (if sint (m_data0 (s_reply w1)) < 0 then (x, w1\<lparr>s_out := s_out w1 @ str ''cat: no such file: '' @ cstr name @ str ''\<newline>''\<rparr>)
     else runs (session_world srv)
       (call FS_TID (zero_msg\<lparr>m_label := MSG_FREAD, m_data0 := m_data0 (s_reply w1), m_data1 := sa_fb sa, m_cap := 2048\<rparr>)
          (\<lambda>rrep. con_write_then (sa_fb sa) (ucast (m_data0 rrep))
            (call FS_TID (zero_msg\<lparr>m_label := MSG_CLOSE, m_data0 := m_data0 (s_reply w1)\<rparr>) (\<lambda>_. Done x)))) w1)"
  unfolding cmd_cat_def if_not_P [OF assms(1)] runs_call assms(2) Let_def if_distrib [of "\<lambda>k. runs W k w1" for W]
  by (intro if_cong refl) (simp add: session_act_def)

lemma cat_read:
  assumes "archive_at (image_disk img) 0 fs" "locate fs name 0 = Some (k, c)" "h < 8"
    and "ftab (s_fs w) h = \<lparr>data_lba = k, f_size = of_nat (length c), f_used = True\<rparr>"
  shows "\<exists>w'. runs (session_world (image_srv img))
       (call FS_TID (zero_msg\<lparr>m_label := MSG_FREAD, m_data0 := c_ret (int h), m_data1 := p, m_cap := 2048\<rparr>)
          (\<lambda>rrep. con_write_then p (ucast (m_data0 rrep))
            (call FS_TID (zero_msg\<lparr>m_label := MSG_CLOSE, m_data0 := c_ret (int h)\<rparr>) (\<lambda>_. Done x)))) w = (x, w') \<and>
    s_out w' = s_out w @ take 2048 c \<and> s_lines w' = s_lines w \<and>
    (\<forall>j. f_used (ftab (s_fs w') j) = (j \<noteq> h \<and> f_used (ftab (s_fs w) j)))"
proof -
  let ?n = "min (length c) 2048"
  obtain s' b' where r: "session_act (image_srv img) (A_send FS_TID
      (zero_msg\<lparr>m_label := MSG_FREAD, m_data0 := c_ret (int h), m_data1 := p, m_cap := 2048\<rparr>)) w =
      w\<lparr>s_fs := s', s_mem := put_mem p b', s_reply := zero_msg\<lparr>m_label := MSG_REPLY, m_data0 := of_nat ?n\<rparr>\<rparr>"
    "ftab s' = ftab (s_fs w)" "map b' [0..<?n] = take 2048 c"
    using session_read [OF assms refl] by blast
  have m: "mem_bytes (put_mem p b') p ?n = take 2048 c"
    using put_same [of ?n p b'] r(3) by simp
  have u: "(ucast (of_nat ?n :: u64) :: u32) = of_nat ?n"
    unfolding word_unat_eq_iff by (simp add: unsigned_ucast_eq unat_of_nat take_bit_nat_eq_self)
  show ?thesis
    unfolding runs_call r(1) Let_def con_write_then_def
    by (simp add: u session_write session_close [OF assms(3)] r(2) m del: c_ret_simps)
qed

text \<open>\<open>cat\<close> after the answer to its OPEN.\<close>

lemma cat_answered:
  assumes "archive_at (image_disk img) 0 fs" "i < 8" "\<not> f_used (ftab (s_fs w) i)" "c0 name \<noteq> 0"
    and "cstr name = nm" "cstr (mem_bytes (s_mem w) p 128) = nm"
  shows "\<exists>w'. runs (session_world (image_srv img)) (cmd_cat sa p name (Done x)) w = (x, w') \<and> s_lines w' = s_lines w \<and>
    s_out w' = s_out w @ (case locate fs nm 0 of
      Some (k, c) \<Rightarrow> take 2048 c
    | None \<Rightarrow> str ''cat: no such file: '' @ nm @ str ''\<newline>'') \<and>
    (\<forall>j. f_used (ftab (s_fs w') j) = f_used (ftab (s_fs w) j))"
proof -
  let ?srv = "image_srv img"
  obtain hd' where op: "session_act ?srv (A_send FS_TID (zero_msg\<lparr>m_label := MSG_OPEN, m_data0 := p\<rparr>)) w =
     (case (case locate fs nm 0 of None \<Rightarrow> ((s_fs w)\<lparr>hdr := hd'\<rparr>, - 1)
       | Some (k, c) \<Rightarrow> alloc_handle k (of_nat (length c)) ((s_fs w)\<lparr>hdr := hd'\<rparr>)) of (s', i) \<Rightarrow>
       w\<lparr>s_fs := s', s_reply := zero_msg\<lparr>m_label := MSG_REPLY, m_data0 := c_ret i,
         m_data1 := (if i \<ge> 0 then f_size (ftab s' (nat i)) else 0)\<rparr>\<rparr>)"
    using session_open [OF assms(1,6)] by blast
  show ?thesis
  proof (cases "locate fs nm 0")
    case None
    define w1 where "w1 = w\<lparr>s_fs := (s_fs w)\<lparr>hdr := hd'\<rparr>, s_reply := zero_msg\<lparr>m_label := MSG_REPLY, m_data0 := ERR\<rparr>\<rparr>"
    have op1: "session_act ?srv (A_send FS_TID (zero_msg\<lparr>m_label := MSG_OPEN, m_data0 := p\<rparr>)) w = w1"
      unfolding op w1_def by (simp add: None zero_msg_def)
    show ?thesis unfolding cat_opened [OF assms(4) op1] assms(5) by (simp add: w1_def None)
  next
    case (Some kc)
    then obtain k c where kc: "locate fs nm 0 = Some (k, c)" by (cases kc) auto
    obtain h where h: "first_fit (\<lambda>i. \<not> f_used (ftab (s_fs w) i)) 8 = Some h"
      using assms(2,3) first_fit_ex [of "\<lambda>i. \<not> f_used (ftab (s_fs w) i)" 8] by blast
    note h8 = first_fit_SomeD [OF h]
    define w1 where "w1 = w\<lparr>s_fs := (s_fs w)\<lparr>hdr := hd', ftab := (ftab (s_fs w))(h := \<lparr>data_lba = k, f_size = of_nat (length c), f_used = True\<rparr>)\<rparr>,
      s_reply := zero_msg\<lparr>m_label := MSG_REPLY, m_data0 := c_ret (int h), m_data1 := of_nat (length c)\<rparr>\<rparr>"
    have op1: "session_act ?srv (A_send FS_TID (zero_msg\<lparr>m_label := MSG_OPEN, m_data0 := p\<rparr>)) w = w1"
      unfolding op w1_def by (simp add: kc alloc_handle_def h)
    obtain w' where "runs (session_world ?srv) (cmd_cat sa p name (Done x)) w = (x, w')"
      "s_out w' = s_out w1 @ take 2048 c" "s_lines w' = s_lines w1"
      "\<forall>j. f_used (ftab (s_fs w') j) = (j \<noteq> h \<and> f_used (ftab (s_fs w1) j))"
      unfolding cat_opened [OF assms(4) op1]
      using cat_read [OF assms(1) kc, of h w1 "sa_fb sa" x] h8 by (auto simp: w1_def sint_handle)
    then show ?thesis using h8 by (auto simp: w1_def kc)
  qed
qed

section \<open>Properties\<close>

text \<open>C11: \<open>cat\<close> end to end: whatever the archive on the disk holds, a session that types
  \<open>cat\<close> and a name sees the prompt and then the first 2048 bytes of that file, or the message
  that there is no such file, and afterwards the file server has the same handles in use.\<close>

theorem cat_session:
  assumes "archive_at (image_disk img) 0 fs" and "s_lines w = (str ''cat '' @ name) # rest"
    and "cstr name = name" and "name \<noteq> []" and "length name < 124"
    and "i < 8" and "\<not> f_used (ftab (s_fs w) i)"
  shows "\<exists>w'. runs (session_world (image_srv img)) (shell_turn sa) w = (False, w') \<and> s_lines w' = rest \<and>
    s_out w' = s_out w @ str ''mukern $ '' @ (case locate fs name 0 of
      Some (k, c) \<Rightarrow> take 2048 c
    | None \<Rightarrow> str ''cat: no such file: '' @ name @ str ''\<newline>'') \<and>
    (\<forall>j. f_used (ftab (s_fs w') j) = f_used (ftab (s_fs w) j))"
proof -
  let ?w0 = "prompted sa (str ''cat '' @ name) rest w"
  note plain = name_plain [OF assms(3)]
  obtain r where t: "runs (session_world (image_srv img)) (shell_turn sa) w =
    runs (session_world (image_srv img)) (cmd_cat sa (sa_line sa + 4) (name @ 0 # r) (Done False)) ?w0"
    using cat_line [OF assms(2) plain assms(4,5)] by blast
  have "c0 (name @ 0 # r) \<noteq> 0" using plain assms(4) by (cases name) simp_all
  moreover obtain q where "mem_bytes (s_mem ?w0) (sa_line sa + 4) 128 = name @ 0 # q"
    using args_bytes [of "str ''cat '' @ name" 128 4] assms(5) by (auto simp: words_plain)
  ultimately show ?thesis
    using cat_answered [OF assms(1,6), of ?w0 "name @ 0 # r" name "sa_line sa + 4" sa False] assms(7)
    unfolding t by (simp add: cstr_upto [OF plain])
qed

text \<open>A session over the demo disk.\<close>

definition demo_session :: "u8 list list \<Rightarrow> session" where
  "demo_session ls = \<lparr>s_mem = (\<lambda>_. 0), s_fs = demo_fs, s_lines = ls, s_out = [], s_reply = zero_msg\<rparr>"

definition demo_shaddr :: shaddr where
  "demo_shaddr = \<lparr>sa_line = 0x1000, sa_ls = 0x2000, sa_fb = 0x3000\<rparr>"

theorem cat_session_witness:
  "\<exists>w'. runs (session_world (image_srv demo_image)) (shell_turn demo_shaddr) (demo_session [str ''cat a'']) = (False, w') \<and>
     s_out w' = str ''mukern $ '' @ [1, 2, 3]"
proof -
  let ?w = "demo_session [str ''cat a'']"
  have h: "s_lines ?w = (str ''cat '' @ [0x61]) # []" "cstr [0x61] = [0x61]" "\<not> f_used (ftab (s_fs ?w) 0)"
    by (simp_all add: demo_session_def str_def cstr_def demo_fs_def)
  have f: "locate demo_files [0x61] 0 = Some (1, [1, 2, 3])" by (simp add: demo_files_def)
  from cat_session [OF demo_archive h(1,2) _ _ _ h(3), of demo_shaddr] obtain w' where
    "runs (session_world (image_srv demo_image)) (shell_turn demo_shaddr) ?w = (False, w')"
    "s_out w' = s_out ?w @ str ''mukern $ '' @ take 2048 [1, 2, 3]"
    by (auto simp: f)
  then show ?thesis by (auto simp: demo_session_def)
qed

text \<open>C27: \<open>ls\<close> end to end: when the listing of the archive is shorter than the shell's buffer of 512
  bytes, a session that types \<open>ls\<close> sees the prompt and the names of all its files, one on a line.\<close>

theorem ls_session:
  assumes "archive_at (image_disk img) 0 fs" and "length (listing fs) < 512" and "s_lines w = str ''ls'' # rest"
  shows "\<exists>w'. runs (session_world (image_srv img)) (shell_turn sa) w = (False, w') \<and> s_lines w' = rest \<and>
    s_out w' = s_out w @ str ''mukern $ '' @ listing fs"
proof -
  let ?w0 = "prompted sa (str ''ls'') rest w" and ?n = "length (listing fs)"
  let ?b = "\<lambda>i. s_mem ?w0 (sa_ls sa + of_nat i)"
  obtain s' where l: "fs_list (image_srv img) ?b 512 (s_fs w) = Some (s', store_at 0 (listing fs @ [0]) ?b, of_nat ?n)"
    using list_files [OF assms(1), of 512 ?b "s_fs w"] assms(2) by auto
  have a: "session_act (image_srv img) (A_send FS_TID (zero_msg\<lparr>m_label := MSG_LIST, m_data0 := sa_ls sa, m_data1 := 512\<rparr>)) ?w0 =
    ?w0\<lparr>s_fs := s', s_mem := put_mem (sa_ls sa) (store_at 0 (listing fs @ [0]) ?b),
      s_reply := zero_msg\<lparr>m_label := MSG_REPLY, m_data0 := of_nat ?n\<rparr>\<rparr>"
    using l by (simp add: session_act_def fs_request_def fs_serve_def Let_def)
  have m: "mem_bytes (put_mem q (store_at 0 (listing fs @ [0]) b)) q ?n = listing fs" for q b
    using assms(2) by (subst put_same) (auto simp: store_at_def nth_append intro!: nth_equalityI)
  have u: "(ucast (of_nat ?n :: u64) :: u32) = of_nat ?n"
    using assms(2) unfolding word_unat_eq_iff by (simp add: unsigned_ucast_eq unat_of_nat take_bit_nat_eq_self)
  show ?thesis
    unfolding ls_line [OF assms(3)] cmd_ls_def runs_call a Let_def con_write_then_def
    using assms(2) by (simp add: u session_write m)
qed

theorem ls_session_witness:
  "\<exists>w'. runs (session_world (image_srv demo_image)) (shell_turn demo_shaddr) (demo_session [str ''ls'']) = (False, w') \<and>
     s_out w' = str ''mukern $ '' @ [0x61, 0x0A]"
proof -
  have "s_lines (demo_session [str ''ls'']) = str ''ls'' # []" by (simp add: demo_session_def)
  from ls_session [OF demo_archive _ this, of demo_shaddr] show ?thesis
    by (auto simp: demo_files_def listing_def demo_session_def)
qed

end
