(* ===== verification/Gaps.thy ===== *)
theory Gaps
  imports Usys Confine KMain
begin

text \<open>
  Where the kernel does less than its comments promise: a thread alone on the machine gets only
  every other tick, a capability outlives the thread it was given for, the registration of
  an interrupt is open to every thread, and a RECV into the memory of the kernel can give its caller
  any authority.
\<close>

lemma lone_thread_idles:
  assumes "sched_inv s" "current s = Slot i" "\<And>j. j < SCHED_MAX_THREADS \<Longrightarrow> tstate (threads s j) \<noteq> T_RUNNABLE"
    and "tstate (threads s i) = T_RUNNING"
  shows "current (schedule s) = Idle \<and> tstate (threads (schedule s) i) = T_RUNNABLE"
proof -
  have "scan_slot (scan_from s) k < SCHED_MAX_THREADS" for k
    by (simp add: scan_slot_def nat_less_iff)
  then have "pick_next s = None"
    using assms(3) by (simp add: pick_next_def first_fit_None_iff)
  then have "schedule s = switch_to s Idle"
    using assms(2) by (simp add: schedule_def switch_target_def)
  then show ?thesis using assms(2,4) by (simp add: switch_to_def Let_def)
qed

text \<open>Whoever holds the endpoint of a thread that has ended holds that of its successor.\<close>

lemma stale_capability:
  assumes "proc_spawn s prog = (s', int i)" "q \<noteq> i" "cap_has_endpoint (Some (threads s q)) (int i)"
  shows "tstate (threads s i) \<in> {T_UNUSED, T_DEAD} \<and> ipc_send_allowed s' (threads s' q) (int i)"
  using assms(1)
proof (cases rule: proc_spawn_cases)
  case (new j)
  then have "tstate (threads s i) \<in> {T_UNUSED, T_DEAD}"
    using first_fit_SomeD(2) by (fastforce simp: free_thread_def)
  with new assms(2,3) show ?thesis by (simp add: ipc_send_allowed_def del: cap_has_endpoint.simps)
qed simp

text \<open>Any thread that asks for it gets the interrupt, and the driver that had it gets no more.\<close>

lemma irq_takeover:
  assumes "current s = Slot p" "p < SCHED_MAX_THREADS" "tid (threads s p) = int p" "irq < 16" "d \<noteq> p"
    and "tstate (threads s p) = T_RUNNING" and "t = sys_irq_register (Slot p) (u_irq_register (of_nat irq) f) s"
  shows "irq_pending (threads (device_irq irq t) p) = irq_pending (threads s p) + 1 \<and>
    threads (device_irq irq t) d = threads s d"
proof -
  have "c_int (of_nat irq) = int irq" using assms(4) by (simp add: c_int_of_nat)
  then have t: "g_irq_tid t irq = int p" "threads t = threads (set_rax (Slot p) 0 s)"
    using assms(3,4,7) by (simp_all add: sys_irq_register_def u_irq_register_def sc_def Let_def set_rax_def emit_def fun_eq_iff)
  have d: "threads t d = threads s d" "irq_pending (threads t p) = irq_pending (threads s p)"
    "tstate (threads t p) = T_RUNNING"
    using assms(5,6) by (simp_all add: t(2) set_rax_def)
  have "threads (device_irq irq t) = threads (upd_thr (Slot p) notify t)"
    using t(1) assms(2) d(3) by (simp add: device_irq_def emit_def Let_def)
  then show ?thesis using d assms(5) by (simp add: notify_def Let_def)
qed

text \<open>RECV does not check its buffer, and in the kernel the whole memory is mapped: a caller with a
  pending interrupt that names kernel memory overwrites it, and may come to hold any capability.\<close>

lemma recv_hits_kernel:
  assumes f: "vec f = SYSCALL_VECTOR" "rax f = SYS_RECV" and i: "current s = Slot i"
    and irq: "irq_pending (threads s i) \<noteq> 0" and m: "msg_mapped (pg s) (rsi f)"
    and k: "n < 32" "phys (pg s) (rsi f + of_nat n) = Some pa" "in_kernel (pg s) pa"
  shows "clobbered (pg (isr_code env f s))"
proof -
  obtain s1 x where r: "ipc_recv_locked (save_frame f s) (Slot i) (c_int (rdi f)) (e_junk env (tid (thr (save_frame f s) (Slot i)))) = (s1, x)"
    by fastforce
  have s1: "pg s1 = pg s" "x \<noteq> None" "tf (threads s1 i) = f"
    using r irq by (auto simp: ipc_recv_locked_def save_frame_def i)
  have "clobbered (pg (finish_recv env (Slot i) a m' s1))" for a m'
  proof -
    obtain g where g: "copy_out (pg s) (rsi f) m' = Some g" using m copy_out_defined(1) by blast
    then have "clobbered g" using k by (auto simp: copy_out_def list_ex_iff split: if_splits intro!: bexI [of _ n])
    with g s1 show ?thesis by (simp add: finish_recv_def Let_def)
  qed
  then have "clobbered (pg (fst (sys_recv env (Slot i) f (save_frame f s))))"
    "\<not> snd (sys_recv env (Slot i) f (save_frame f s))"
    using s1(2) r by (auto simp: sys_recv_def split: option.split)
  then show ?thesis
    using f i by (simp add: isr_code_def Let_def do_syscall_def then_resume_def case_prod_beta)
qed

lemma recv_forges_capability:
  assumes "vec f = SYSCALL_VECTOR" "rax f = SYS_RECV" "current s = Slot i" "irq_pending (threads s i) \<noteq> 0"
    and "msg_mapped (pg s) (rsi f)" "n < 32" "phys (pg s) (rsi f + of_nat n) = Some pa" "in_kernel (pg s) pa"
    and "\<not> clobbered (pg s)" and "q < 0xFFFF"
  shows "\<exists>env. cap_has_port (Some (threads (isr_handler env f s) i)) q"
proof -
  let ?t = "zero_thread\<lparr>ctable := (\<lambda>_. \<lparr>cap_type = CAP_IOPORT, cap_target = 0, cap_rights = 0, io_base = q, io_len = 1\<rparr>)\<rparr>"
  let ?env = "demo_env\<lparr>e_overrun := (\<lambda>r. r\<lparr>threads := \<lambda>_. ?t\<rparr>)\<rparr>"
  have "clobbered (pg (isr_code ?env f s))" by (rule recv_hits_kernel [OF assms(1-8)])
  then have "threads (isr_handler ?env f s) i = ?t" using assms(9) by (simp add: isr_handler_def overrun_def)
  moreover have "cap_has_port (Some ?t) q"
    unfolding has_port_iff using assms(10)
    by (intro exI [of _ 0]) (auto simp: cap_covers_port_def word_less_nat_alt unat_word_ariths)
  ultimately show ?thesis by (intro exI [of _ ?env]) simp
qed

end
