(* ===== verification/Spec2Isabelle.thy ===== *)
theory Spec2Isabelle
  imports Deliver Pager Desc MemMap Mirror Riscv ConScreen VgaTerm Servers Shell Gaps
begin

text \<open>
  muKern: a microkernel for x86\_64 with its drivers, servers and shell, and the start of a
  RISC-V port.

  \<^bold>\<open>The program.\<close>  The boot loader enters \<^verbatim>\<open>kmain\<close> (\<^verbatim>\<open>kernel/main.c\<close>),
  which finds the memory, sets up the frame allocator, the tables of the processor, the timer, the
  thread table and the programs, and starts the root task.  From then on the kernel runs only
  when a trap enters \<^verbatim>\<open>isr_handler\<close> (\<^verbatim>\<open>arch/x86_64/trap/trap.c\<close>): system calls,
  the timer, page faults, device interrupts.  Everything else is user programs that exchange
  messages: the root task starts the servers and hands out capabilities; the console and VGA
  terminals, the block driver and the file server, the process manager and the pager serve
  requests; the shell uses them.

  \<^bold>\<open>Kernel.\<close>
  \<^item> \<open>Prelude\<close>, \<open>Kobj\<close>: machine types (64-bit and smaller words, C conversions),
    messages, capabilities, threads, trap frames (\<^verbatim>\<open>include/\<close>).
  \<^item> \<open>Pmm\<close> (\<^verbatim>\<open>kernel/vm.c\<close>): the frame bitmap; an invariant of bitmap and count, what
    initialisation leaves free, distinct frames for distinct allocations.
  \<^item> \<open>Paging\<close> (\<^verbatim>\<open>mm/paging.c\<close>): four-level tables in physical memory; \<open>vmm_map\<close> and
    \<open>vmm_unmap\<close> against the translation function of the processor.
  \<^item> \<open>CMem\<close>, \<open>UMem\<close>: bytes in memory, and the access of the kernel to the memory of programs
    through those tables.
  \<^item> \<open>Cap\<close> (\<^verbatim>\<open>kernel/cap.c\<close>): capability tables as the sets of ports and endpoints they
    grant.
  \<^item> \<open>Sched\<close> (\<^verbatim>\<open>kernel/sched.c\<close>), \<open>Ipc\<close> (\<^verbatim>\<open>kernel/ipc.c\<close>): the thread table, round-robin,
    rendezvous.  A call that blocks is split where \<open>schedule\<close> switches away; where a thread
    resumes is its \<open>kont\<close>, in place of a saved stack pointer.
  \<^item> \<open>Proc\<close> (\<^verbatim>\<open>kernel/proc.c\<close>), \<open>Fmt\<close>, \<open>Hal\<close> (\<^verbatim>\<open>arch/x86_64/hal/\<close>): the loader, printed
    numbers, device registers as the list of port writes.
  \<^item> \<open>Apart\<close>: pages of programs lie in frames that are neither page tables nor free.  \<open>Load\<close>: the
    loader refines a map from user addresses to bytes (areas cleared, images copied).
  \<^item> \<open>Kernel\<close> (\<^verbatim>\<open>trap/trap.c\<close>, \<^verbatim>\<open>trap/usermode.c\<close>): every system call, the timer, device
    interrupts, faults.  \<open>KInv\<close>, \<open>KMain\<close>: the invariant of the kernel over all reachable states, and
    \<^verbatim>\<open>kmain\<close>.  \<open>Boot\<close>: the page tables of \<^verbatim>\<open>loader.S\<close>, the load addresses of the
    Makefile, and that \<^verbatim>\<open>kmain\<close> returns with every program loaded.  \<open>Confine\<close>: what a program
    can bring about; \<open>Fair\<close>: runs of the machine and bounded waiting, with the interface
    \<open>entry_invariant\<close> for what holds when a thread gets its turn; \<open>MemSafe\<close>: the kernel's memory, page
    tables and free frames stay out of reach of decent programs over all kernel entries; \<open>Deliver\<close>: a
    message from the SEND to the buffer of the receiver; \<open>Gaps\<close>: where the kernel falls short of
    its comments.
  \<^item> \<open>Desc\<close> (\<^verbatim>\<open>gdt.c\<close>, \<^verbatim>\<open>idt.c\<close>, \<^verbatim>\<open>archstack.c\<close>), \<open>MemMap\<close> (\<^verbatim>\<open>mm/memmap.c\<close>), \<open>Mirror\<close>
    (\<^verbatim>\<open>hal/vga.h\<close>), \<open>Riscv\<close> (\<^verbatim>\<open>arch/riscv64/\<close>).

  \<^bold>\<open>User programs.\<close>
  \<^item> \<open>Usys\<close> (\<^verbatim>\<open>lib/usys.h\<close>): the stubs as register states, messages, printed lines.
  \<^item> \<open>Ring\<close>: the queue both terminals keep, as an interface (\<open>bounded_queue\<close>) with its laws; the
    drivers interpret it on their own push and pop.
  \<^item> \<open>Console\<close>, \<open>ConEdit\<close>, \<open>ConScreen\<close> (\<^verbatim>\<open>drivers/console/main.c\<close>): the driver; its invariant and
    the refinement of an abstract line editor with history; what the terminal shows.
  \<^item> \<open>VgaTerm\<close> (\<^verbatim>\<open>servers/vga/main.c\<close>): display, keyboard, line reader.
  \<^item> \<open>BlockDrv\<close> (\<^verbatim>\<open>drivers/block/main.c\<close>), \<open>FsServer\<close> (\<^verbatim>\<open>servers/fs_server/main.c\<close>): sectors from a
    drive and USTAR archives on them, over the interface \<open>block_service\<close>.
  \<^item> \<open>Script\<close>: programs as sequences of system calls, run in a world or on the kernel model; the
    authority of all threads as lists.  \<open>Servers\<close> (\<^verbatim>\<open>servers/init\<close>, \<^verbatim>\<open>pm\<close>, \<^verbatim>\<open>vm_server\<close>,
    \<^verbatim>\<open>hello\<close>, \<^verbatim>\<open>app\<close>, \<^verbatim>\<open>rogue\<close>) and \<open>Shell\<close> (\<^verbatim>\<open>servers/shell/main.c\<close>) are such scripts.
    \<open>Pager\<close>: a page fault, the pager's turn on the kernel, and what becomes of the thread.
  \<^item> This theory: the console of the shell's session is the console driver.

  \<^bold>\<open>Loops.\<close>  Loops over arrays and lists are structural.  Three loops may run forever, and are
  partial functions into options, where \<open>None\<close> is not returning: the walk over the memory map
  (\<open>mmap_walk\<close>), the walks over the archive (\<open>open_from\<close>, \<open>list_from\<close>), and the loops of the
  editors (\<open>edit_loop\<close>, \<open>vga_loop\<close>), which are shown to return.  Polling loops consume the list
  of values the device returns.  There is no fuel.

  \<^bold>\<open>Bounds.\<close>  Boot completes (\<open>boot_fits\<close>) with images of at most 64 KiB and 960 free
  frames: a program has 20 pages of image and stack, each of which takes at most three new page
  tables and a frame, so 80 frames for each of the twelve programs.  Memory ends at 1 GiB
  there, because the paging code reaches page tables by their physical address and the boot code
  maps only the first GiB.

  \<^bold>\<open>Assumptions.\<close>  One processor; a trap runs with interrupts off; programs run on the one
  address space of the proof of concept, which they share, so nothing is claimed about the
  separation of their memory.  Devices are parameters: what a port returns, what the drive holds.
  The registers of a program that traps are arbitrary.  A script runs while the others do anything
  that grants no capability and makes or ends no thread (\<open>quiet\<close>).  Signed C integers that are
  only counted up wrap at 32 bits (\<open>irq_pending\<close>, the parameter of an escape sequence \<open>csi_num\<close>).
  A name in an archive header that fills the header's 512 bytes without a NUL is taken to end there,
  where the file server would read on.  A request that the file server never answers leaves the
  session of the shell as it was; in the sessions proved about, every request is answered.

  \<^bold>\<open>Stores into the kernel's memory.\<close>  The kernel copies messages through pointers it does not check,
  and reaches all memory through the identity map of the boot code, so a RECV can overwrite the
  thread table, a capability table or the code of the kernel.  The model keeps the kernel's variables
  in records and the rest of memory in \<open>pmem\<close>; a store to a physical byte between \<open>KERNEL_BASE\<close> and
  \<open>kmem_top\<close> sets \<open>clobbered\<close>, and the entry or store that first does so leaves an arbitrary state
  (\<open>overrun\<close>, with the effect as a parameter), of which only the page tables, as far as the model has
  them, and what had been written to ports are known.  What such a state leads to is not claimed: the
  theorems on the state of the kernel have the hypothesis that no store has hit its memory.
  \<open>memory_apart\<close> shows that in decent runs (\<open>decent_run\<close>) none ever does: a RECV names a buffer outside
  the first 512 GiB, and the root task maps only device memory by physical address.  A program's own
  stores go where the entries on the way are user entries that may be written (\<open>user_writable\<close>).

  \<^bold>\<open>Not modelled.\<close>  The assembly: boot, trap and context switch stubs, program start
  (\<^verbatim>\<open>header.S\<close>, \<^verbatim>\<open>loader.S\<close>, \<^verbatim>\<open>isr.S\<close>, \<^verbatim>\<open>trap.S\<close>, \<^verbatim>\<open>switch.S\<close>, \<^verbatim>\<open>crt0.S\<close>,
  \<^verbatim>\<open>rootfs.S\<close>), beyond the page tables of \<^verbatim>\<open>loader.S\<close> and the layout of the frames the stubs
  build; the ARM64 port, which is assembly
  only; the delay loop of the RISC-V workers; linker scripts and build files, beyond the
  load addresses.
\<close>

section \<open>A session on the console driver\<close>

text \<open>The driver over a series of interrupts, each with what the receive registers return.\<close>

primrec con_irqs :: "(u8 \<times> u8) list list \<Rightarrow> con \<Rightarrow> con option" where
  "con_irqs [] s = Some s"
| "con_irqs (r # rs) s =
     (case con_step (\<lambda>_ _. 0) r 0 (zero_msg\<lparr>m_label := MSG_IRQ\<rparr>) s of None \<Rightarrow> None | Some t \<Rightarrow> con_irqs rs t)"

text \<open>A reader of whose line the prefix \<open>l\<close> has been typed, over the memory \<open>b\<close>; \<open>h\<close> is what does
  not change until the line is finished.\<close>

definition reading :: "buffer \<Rightarrow> u8 list \<Rightarrow> u32 \<times> u64 \<times> (u64 \<times> ipc_msg) list \<Rightarrow> con \<Rightarrow> bool" where
  "reading b l h s \<longleftrightarrow> ring_ok s \<and> rd_active s \<and> esc s = 0 \<and> rd_n s = length l \<and> rd_pos s = length l \<and>
     rd_buf s = store_at 0 l b \<and> (rd_max s, rd_from s, sent s) = h"

definition finished :: "buffer \<Rightarrow> u8 list \<Rightarrow> u32 \<times> u64 \<times> (u64 \<times> ipc_msg) list \<Rightarrow> con \<Rightarrow> bool" where
  "finished b l h s \<longleftrightarrow> \<not> rd_active s \<and> rd_buf s = store_at 0 (l @ [0]) b \<and>
     sent s = snd (snd h) @ [(fst (snd h), zero_msg\<lparr>m_label := MSG_REPLY, m_data0 := of_nat (length l)\<rparr>)]"

lemma store_next: "(store_at 0 l b)(length l := c) = store_at 0 (l @ [c]) b"
  by (auto simp: store_at_def fun_eq_iff nth_append)

lemma key_printable:
  assumes "reading b l h s" "printable c" "length l + 1 < unat (fst h)"
  shows "reading b (l @ [c]) h (key c s)" "typed (key c s) = typed s" "rd_active (key c s)"
proof -
  have "c \<notin> {0x1B, 0x0D, 0x0A, 0x7F, 0x08, 0x01, 0x05, 0x02, 0x06, 0x15, 0x03}"
    using assms(2) by (auto simp: word_le_nat_alt word_less_nat_alt)
  then have "key c s = ins_char c s"
    using assms(1,2) by (simp add: reading_def key_def normal_key_def)
  also have "\<dots> = s\<lparr>rd_buf := store_at 0 (l @ [c]) b, rd_n := length l + 1, rd_pos := length l + 1, tx := tx s @ [c]\<rparr>"
    using assms(1,3) unfolding reading_def
    by (auto simp: ins_char_def shift_up_def loop_simps Let_def store_next [symmetric])
  finally have k: "key c s = s\<lparr>rd_buf := store_at 0 (l @ [c]) b, rd_n := length l + 1, rd_pos := length l + 1, tx := tx s @ [c]\<rparr>" .
  show "reading b (l @ [c]) h (key c s)" "typed (key c s) = typed s" "rd_active (key c s)"
    using assms(1) by (auto simp: k reading_def ring_ok_def typed_def)
qed

lemma hist_push_other:
  "rd_buf (hist_push t n s) = rd_buf s" "rd_n (hist_push t n s) = rd_n s" "rd_from (hist_push t n s) = rd_from s"
  "sent (hist_push t n s) = sent s"
  by (simp_all add: hist_push_def Let_def)

lemma reading_enter: "reading b l h s \<Longrightarrow> finished b l h (key 0x0D s)"
  by (auto simp: reading_def finished_def key_def normal_key_def finish_line_def uart_putc_def Let_def hist_push_other store_next)

lemma edit_loop_next:
  assumes "reading b l h s" "typed s = c # q"
  shows "\<exists>s'. reading b l h s' \<and> typed s' = q \<and>
    edit_loop s = (if rd_active (key c s') then edit_loop (key c s') else Some (key c s'))"
proof -
  let ?t = "snd (ring_pop s)"
  have "fst (ring_pop s) = uint c" "typed ?t = q" "ring_ok ?t"
    using rx.pop_items [of s c q] rx.pop_ok [of s] assms by (auto simp: reading_def)
  moreover from this(1) have "edit_loop s = (if rd_active (key c ?t) then edit_loop (key c ?t) else Some (key c ?t))"
    by (subst edit_loop.simps) (simp add: case_prod_beta)
  moreover have "reading b l h ?t" using assms(1) calculation(3) by (auto simp: reading_def ring_pop_def)
  ultimately show ?thesis by blast
qed

lemma edit_loop_typed:
  "reading b l h s \<Longrightarrow> typed s = ks \<Longrightarrow> list_all printable ks \<Longrightarrow> length l + length ks < unat (fst h) \<Longrightarrow>
   \<exists>t. edit_loop s = Some t \<and> reading b (l @ ks) h t \<and> typed t = []"
proof (induction ks arbitrary: l s)
  case Nil
  then have "ring_pop s = (- 1, s)" using rx.pop_empty [of s] by (simp add: reading_def)
  then have "edit_loop s = Some s" by (subst edit_loop.simps) simp
  with Nil show ?case by simp
next
  case (Cons c ks)
  obtain s' where s': "reading b l h s'" "typed s' = ks"
    "edit_loop s = (if rd_active (key c s') then edit_loop (key c s') else Some (key c s'))"
    using edit_loop_next [OF Cons.prems(1,2)] by blast
  have "printable c" "length l + 1 < unat (fst h)" using Cons.prems(3,4) by simp_all
  note k = key_printable [OF s'(1) this]
  from Cons.IH [OF k(1)] k(2,3) s'(2,3) Cons.prems(3,4) show ?case by simp
qed

lemma edit_loop_enter:
  "reading b l h s \<Longrightarrow> typed s = ks @ [0x0D] \<Longrightarrow> list_all printable ks \<Longrightarrow> length l + length ks < unat (fst h) \<Longrightarrow>
   \<exists>t. edit_loop s = Some t \<and> finished b (l @ ks) h t"
proof (induction ks arbitrary: l s)
  case Nil
  then obtain s' where "reading b l h s'"
    "edit_loop s = (if rd_active (key 0x0D s') then edit_loop (key 0x0D s') else Some (key 0x0D s'))"
    using edit_loop_next [of b l h s] by (metis append_Nil)
  with reading_enter [of b l h s'] show ?case by (auto simp: finished_def)
next
  case (Cons c ks)
  obtain s' where s': "reading b l h s'" "typed s' = ks @ [0x0D]"
    "edit_loop s = (if rd_active (key c s') then edit_loop (key c s') else Some (key c s'))"
    using edit_loop_next [OF Cons.prems(1)] Cons.prems(2) by auto
  have "printable c" "length l + 1 < unat (fst h)" using Cons.prems(3,4) by simp_all
  note k = key_printable [OF s'(1) this]
  from Cons.IH [OF k(1)] k(2,3) s'(2,3) Cons.prems(3,4) show ?case by simp
qed

text \<open>Interrupts.\<close>

lemma reading_push: "reading b l h s \<Longrightarrow> reading b l h (ring_push c s)"
  by (auto simp: reading_def ring_push_def ring_ok_def Let_def)

lemma reading_drain: "reading b l h s \<Longrightarrow> reading b l h (drain_rx r s)"
  by (induction r s rule: drain_rx.induct) (auto simp: reading_push)

lemma drain_typed:
  assumes "ring_ok s" "typed s = []" "length (received r) \<le> 255"
  shows "typed (drain_rx r s) = received r"
  using rx.pushes_items [OF assms(1), of "received r"] assms(2,3) by (simp add: drain_rx_pushes)

lemma drain_nothing: "received r = [] \<Longrightarrow> drain_rx r s = s"
  by (induction r s rule: drain_rx.induct) (auto split: if_splits)

lemma irqs_idle: "\<not> rd_active s \<Longrightarrow> \<forall>r\<in>set rs. received r = [] \<Longrightarrow> con_irqs rs s = Some s"
  by (induction rs) (simp_all add: con_step_irq edit_def drain_nothing)

lemma irqs_line:
  "reading b l h s \<Longrightarrow> typed s = [] \<Longrightarrow> concat (map received rs) = x @ [0x0D] \<Longrightarrow> list_all printable x \<Longrightarrow>
   length l + length x < unat (fst h) \<Longrightarrow> unat (fst h) \<le> 255 \<Longrightarrow> \<exists>t. con_irqs rs s = Some t \<and> finished b (l @ x) h t"
proof (induction rs arbitrary: l x s)
  case (Cons r rs)
  let ?s = "drain_rx r s"
  have "length (received r) \<le> length (x @ [0x0D])" using Cons.prems(3) by (metis append_eq_conv_conj concat.simps(2) length_append le_add1 list.map(2))
  then have s: "reading b l h ?s" "typed ?s = received r" "rd_active ?s"
    using Cons.prems reading_drain drain_typed by (auto simp: reading_def)
  then have e: "con_irqs (r # rs) s = (case edit_loop ?s of None \<Rightarrow> None | Some t \<Rightarrow> con_irqs rs t)"
    by (simp add: con_step_irq edit_def)
  show ?case
  proof (cases "concat (map received rs)" rule: rev_cases)
    case Nil
    then have "received r = x @ [0x0D]" using Cons.prems(3) unfolding list.map concat.simps Nil by simp
    then obtain t where t: "edit_loop ?s = Some t" "finished b (l @ x) h t"
      using edit_loop_enter [OF s(1)] s(2) Cons.prems(4,5) by auto
    have "con_irqs rs t = Some t" using t(2) Nil by (intro irqs_idle) (auto simp: finished_def)
    with t e show ?thesis by simp
  next
    case (snoc z c)
    then have x: "x = received r @ z" "c = 0x0D" using Cons.prems(3) by simp_all
    then obtain t where t: "edit_loop ?s = Some t" "reading b (l @ received r) h t" "typed t = []"
      using edit_loop_typed [OF s(1,2)] Cons.prems(4,5) by auto
    from Cons.IH [OF t(2,3), of z] snoc x Cons.prems(4-6) obtain u where "con_irqs rs t = Some u" "finished b (l @ x) h u"
      by auto
    with t e show ?thesis by simp
  qed
qed simp

text \<open>Printing: the bytes go to the UART in order, and the reply is that of the session.\<close>

lemma driver_prints_session:
  assumes "m = con_write p n"
  shows "\<exists>t. con_step (\<lambda>a i. s_mem w (a + of_nat i)) r from m s = Some t \<and>
    (\<exists>d. tx t = tx s @ d \<and> s_out (con_request m w) = s_out w @ d) \<and> sent t = sent s @ [(from, s_reply (con_request m w))]"
  by (simp add: assms con_step_def con_request_def con_write_def uart_puts_eq mem_bytes_def Let_def)

section \<open>Properties\<close>

text \<open>C12: The console that the model of a session gives the shell is what the driver provides: when
  the user types the next line of the session and Enter, the bytes arriving over any number of
  interrupts, then a READLINE request ends, like in the session, with the line and a NUL in the
  buffer of the shell, with the rest of memory unchanged, and with the same reply.\<close>

theorem driver_serves_session:
  assumes "con_ok s" and "typed s = []" and "s_lines w = l # rest" and "list_all printable l" and "length l < 128"
    and "concat (map received rs) = l @ [0x0D]" and "m = con_readline p 128"
  shows "\<exists>s1 s2. con_step (\<lambda>a i. s_mem w (a + of_nat i)) [] from m s = Some s1 \<and> con_irqs rs s1 = Some s2 \<and>
    put_mem p (rd_buf s2) = s_mem (con_request m w) \<and> sent s2 = sent s @ [(from, s_reply (con_request m w))]"
proof -
  let ?b = "\<lambda>i. s_mem w (p + of_nat i)"
  define s0 where "s0 = begin_read ?b from m s"
  have f: "m_label m = MSG_READLINE" "m_data0 m = p" "ucast (m_data1 m) = (128 :: u32)"
    by (simp_all add: assms(7) con_readline_def)
  have s0: "reading ?b [] (128, from, sent s) s0" "typed s0 = []"
    using assms(1,2) f by (simp_all add: s0_def begin_read_def reading_def con_ok_def ring_ok_def typed_def)
  obtain s1 where s1: "edit_loop s0 = Some s1" "reading ?b [] (128, from, sent s) s1" "typed s1 = []"
    using edit_loop_typed [OF s0] by auto
  obtain s2 where s2: "con_irqs rs s1 = Some s2" "finished ?b l (128, from, sent s) s2"
    using irqs_line [OF s1(2,3) assms(6,4)] assms(5) by auto
  have "con_step (\<lambda>a i. s_mem w (a + of_nat i)) [] from m s = edit s0"
    using f by (simp add: con_step_def s0_def)
  moreover have "edit s0 = Some s1" using s1(1) s0(1) by (simp add: edit_def reading_def)
  ultimately show ?thesis
    using s2 f(2) by (simp add: f(1) con_request_def assms(3) finished_def)
qed

theorem driver_serves_session_witness:
  "\<exists>s1 s2. con_step (\<lambda>a i. s_mem (demo_session [str ''ls'']) (a + of_nat i)) [] 7 (con_readline 0x1000 128) demo_con = Some s1 \<and>
     con_irqs [[(1, 0x6C)], [(1, 0x73), (1, 0x0D), (0, 0)]] s1 = Some s2 \<and>
     put_mem 0x1000 (rd_buf s2) 0x1001 = 0x73 \<and> sent s2 = [(7, zero_msg\<lparr>m_label := MSG_REPLY, m_data0 := 2\<rparr>)]"
proof -
  let ?w = "demo_session [str ''ls'']" and ?m = "con_readline 0x1000 128"
  have h: "s_lines ?w = [0x6C, 0x73] # []" by (simp add: demo_session_def str_def)
  have "typed demo_con = []" by (simp add: typed_def demo_con_def ring_items_def ring_count_def)
  from driver_serves_session [OF demo_con_ok this h, of "[[(1, 0x6C)], [(1, 0x73), (1, 0x0D), (0, 0)]]" ?m "0x1000" 7]
  obtain s1 s2 where r: "con_step (\<lambda>a i. s_mem ?w (a + of_nat i)) [] 7 ?m demo_con = Some s1"
    "con_irqs [[(1, 0x6C)], [(1, 0x73), (1, 0x0D), (0, 0)]] s1 = Some s2"
    "put_mem 0x1000 (rd_buf s2) = s_mem (con_request ?m ?w)" "sent s2 = sent demo_con @ [(7, s_reply (con_request ?m ?w))]"
    by auto
  moreover have "s_mem (con_request ?m ?w) 0x1001 = 0x73"
    by (simp add: con_request_def con_readline_def zero_msg_def demo_session_def str_def put_mem_def store_at_def)
  moreover have "s_reply (con_request ?m ?w) = zero_msg\<lparr>m_label := MSG_REPLY, m_data0 := 2\<rparr>"
    by (simp add: con_request_def con_readline_def zero_msg_def demo_session_def str_def)
  ultimately show ?thesis by (auto simp: demo_con_def)
qed

end
